(* ===== verification/Prelude.thy ===== *)
theory Prelude
  imports Main "HOL-Library.Word" "HOL-Library.Monad_Syntax"
begin

text \<open>
  What the components share: the names of the C++ integer types, byte strings, the early
  return of a parser, and the generic facts about lists, options and words that the
  component proofs rest on. A \<open>std::string\<close>, a \<open>std::vector<uint8_t>\<close> and a
  \<open>std::string_view\<close> are all a list of bytes here, as the code uses them.
\<close>

unbundle bit_operations_syntax

type_synonym u8 = "8 word"
type_synonym u16 = "16 word"
type_synonym u32 = "32 word"
type_synonym u64 = "64 word"
type_synonym bytes = "u8 list"

named_theorems framing_simps \<open>how the operations of a framer act on its pending bytes\<close>

section \<open>Early returns\<close>

text \<open>
  \<open>if (cond) return false;\<close> inside a function that fills an out parameter. \<open>None\<close> is the
  \<open>false\<close> of the source, whose callers never read the out parameter then.
\<close>

definition bail_if :: "bool \<Rightarrow> unit option" where
  "bail_if b = (if b then None else Some ())"

text \<open>A flag test \<open>x & mask\<close> used as a condition.\<close>

definition has_bits :: "'a::len word \<Rightarrow> 'a word \<Rightarrow> bool" where
  "has_bits x m \<longleftrightarrow> x AND m \<noteq> 0"

text \<open>A string literal of the source, as bytes.\<close>

definition lit :: "string \<Rightarrow> bytes" where
  "lit s = map of_char s"

section \<open>Shared facts\<close>

lemma bail_if_True [simp]: "bail_if True = None"
  by (simp add: bail_if_def)

lemma bail_if_False [simp]: "bail_if False = Some ()"
  by (simp add: bail_if_def)

lemma bail_if_eq_Some [simp]: "bail_if b = Some u \<longleftrightarrow> \<not> b"
  by (simp add: bail_if_def)

lemma bail_if_eq_None [simp]: "bail_if b = None \<longleftrightarrow> b"
  by (simp add: bail_if_def)

lemma has_bits_or [simp]: "has_bits x (a OR b) \<longleftrightarrow> has_bits x a \<or> has_bits x b"
  by (simp add: has_bits_def bit.conj_disj_distrib or_eq_0_iff)

end
