(* ===== verification/Wire.thy ===== *)
theory Wire
  imports Prelude
begin

text \<open>
  The primitive encodings of the MySQL protocol: little-endian integers, length-encoded
  integers and strings, NUL-terminated strings. The readers are those of
  \<open>src/src/common/mysql/protocol.cpp\<close>, the writers those of
  \<open>src/src/common/mysql/resultset.cpp\<close>. A reader takes the buffer and the position; \<open>len\<close>
  of the source is the length of the list.
\<close>

section \<open>Readers\<close>

definition readU24 :: "bytes \<Rightarrow> nat \<Rightarrow> u32" where
  "readU24 p i = ucast (p ! i) OR push_bit 8 (ucast (p ! (i + 1))) OR push_bit 16 (ucast (p ! (i + 2)))"

definition readU16 :: "bytes \<Rightarrow> nat \<Rightarrow> u16" where
  "readU16 p i = ucast (ucast (p ! i) OR push_bit 8 (ucast (p ! (i + 1))) :: u32)"

definition readU32 :: "bytes \<Rightarrow> nat \<Rightarrow> u32" where
  "readU32 p i = ucast (p ! i) OR push_bit 8 (ucast (p ! (i + 1)))
     OR push_bit 16 (ucast (p ! (i + 2))) OR push_bit 24 (ucast (p ! (i + 3)))"

text \<open>
  The scan of \<open>readNulString\<close> moves \<open>pos\<close>, which is a reference: on failure the caller's
  position is left at the end of the buffer, so the position is part of the result in
  both cases.
\<close>

function scanNul :: "bytes \<Rightarrow> nat \<Rightarrow> nat" where
  "scanNul data pos = (if pos < length data \<and> data ! pos \<noteq> 0 then scanNul data (pos + 1) else pos)"
  by pat_completeness auto
termination
  by (relation "measure (\<lambda>(data, pos). length data - pos)") auto

definition readNulString :: "bytes \<Rightarrow> nat \<Rightarrow> bytes option \<times> nat" where
  "readNulString data pos =
     (let start = pos; pos = scanNul data pos
      in if pos \<ge> length data then (None, pos)
         else (Some (take (pos - start) (drop start data)), pos + 1))"

text \<open>The eight-byte form accumulates from the most significant byte down.\<close>

fun lenEnc8 :: "bytes \<Rightarrow> nat \<Rightarrow> nat \<Rightarrow> u64 \<Rightarrow> u64" where
  "lenEnc8 data pos 0 v = v"
| "lenEnc8 data pos (Suc i) v = lenEnc8 data pos i (push_bit 8 v OR ucast (data ! (pos + 1 + i)))"

definition readLenEnc :: "bytes \<Rightarrow> nat \<Rightarrow> (u64 \<times> nat) option" where
  "readLenEnc data pos =
     (if pos \<ge> length data then None
      else let first = data ! pos in
        if first < 0xFB then Some (ucast first, pos + 1)
        else if first = 0xFC then
          (if pos + 3 > length data then None else Some (ucast (readU16 data (pos + 1)), pos + 3))
        else if first = 0xFD then
          (if pos + 4 > length data then None else Some (ucast (readU24 data (pos + 1)), pos + 4))
        else if first = 0xFE then
          (if pos + 9 > length data then None else Some (lenEnc8 data pos 8 0, pos + 9))
        else None)"

definition readLenEncString :: "bytes \<Rightarrow> nat \<Rightarrow> (bytes \<times> nat) option" where
  "readLenEncString data pos =
     do {
       (n, pos) \<leftarrow> readLenEnc data pos;
       bail_if (unat n > length data - pos);
       Some (take (unat n) (drop pos data), pos + unat n)
     }"

section \<open>Writers\<close>

definition putU16 :: "bytes \<Rightarrow> u16 \<Rightarrow> bytes" where
  "putU16 v x = v @ [ucast (x AND 0xFF), ucast (drop_bit 8 x)]"

fun putBytes :: "bytes \<Rightarrow> 'a::len word \<Rightarrow> nat list \<Rightarrow> bytes" where
  "putBytes v x [] = v"
| "putBytes v x (i # is) = putBytes (v @ [ucast (drop_bit (8 * i) x AND 0xFF)]) x is"

definition putU32 :: "bytes \<Rightarrow> u32 \<Rightarrow> bytes" where
  "putU32 v x = putBytes v x [0, 1, 2, 3]"

definition putLenEnc :: "bytes \<Rightarrow> u64 \<Rightarrow> bytes" where
  "putLenEnc v x =
     (if x < 0xFB then v @ [ucast x]
      else if x \<le> 0xFFFF then putU16 (v @ [0xFC]) (ucast x)
      else if x \<le> 0xFFFFFF then putBytes (v @ [0xFD]) x [0, 1, 2]
      else putBytes (v @ [0xFE]) x [0, 1, 2, 3, 4, 5, 6, 7])"

definition putLenEncStr :: "bytes \<Rightarrow> bytes \<Rightarrow> bytes" where
  "putLenEncStr v s = putLenEnc v (of_nat (length s)) @ s"

declare scanNul.simps [simp del]

section \<open>The values the encodings stand for\<close>

text \<open>
  The specification of every fixed-width field: the number a byte string denotes, least
  significant byte first, and the same value computed in a word the way the readers
  assemble it.
\<close>

fun le :: "bytes \<Rightarrow> nat" where
  "le [] = 0"
| "le (b # bs) = unat b + 256 * le bs"

fun leW :: "bytes \<Rightarrow> 'a::len word" where
  "leW [] = 0"
| "leW (b # bs) = ucast b OR push_bit 8 (leW bs)"

section \<open>The readers invert the writers\<close>

lemma bytes_of_mask: "(0xFF :: 'a::len word) = mask 8"
  by (simp add: mask_eq_exp_minus_1)

lemma putU16_append: "putU16 v x = v @ putU16 [] x"
  by (simp add: putU16_def)

lemma putBytes_append: "putBytes v x is = v @ map (\<lambda>i. ucast (drop_bit (8 * i) x AND 0xFF)) is"
  by (induction "is" arbitrary: v) auto

lemma putU32_append: "putU32 v x = v @ putU32 [] x"
  by (simp add: putU32_def)

lemma putLenEnc_append: "putLenEnc v x = v @ putLenEnc [] x"
  by (simp add: putLenEnc_def putBytes_append putU16_append[of "_ @ _"] putU16_append[of "[_]"])

lemma putLenEncStr_append: "putLenEncStr v s = v @ putLenEncStr [] s"
  by (simp add: putLenEncStr_def putLenEnc_append[of v])

lemmas put_appends = putU16_append putU32_append putLenEnc_append putLenEncStr_append

lemma length_putU16 [simp]: "length (putU16 v x) = length v + 2"
  by (simp add: putU16_def)

lemma length_putU32 [simp]: "length (putU32 v x) = length v + 4"
  by (simp add: putU32_def putBytes_append)

lemma length_putLenEnc:
  "length (putLenEnc [] x) = (if x < 0xFB then 1 else if x \<le> 0xFFFF then 3 else if x \<le> 0xFFFFFF then 4 else 9)"
  by (simp add: putLenEnc_def putBytes_append)

subsection \<open>Little-endian values\<close>

lemma unat_u8_less: "unat (b :: u8) < 256"
  using unsigned_less [of b] by simp

lemma le_bound: "le bs < 256 ^ length bs"
proof (induction bs)
  case (Cons b bs)
  have "256 * le bs + 256 \<le> 256 * 256 ^ length bs"
    using Cons by simp
  with unat_u8_less [of b] show ?case by simp
qed simp

lemma low_byte_or_nat: "a < 256 \<Longrightarrow> a OR push_bit 8 b = a + 256 * (b :: nat)"
proof -
  assume a: "a < 256"
  then have "take_bit 8 a = a" by (simp add: take_bit_nat_eq_self_iff)
  then have "a AND push_bit 8 b = 0"
    by (metis (no_types) bit_and_iff bit_eqI bit_push_bit_iff bit_take_bit_iff bit_0_eq bot_apply bot_bool_def linorder_not_less)
  then show ?thesis by (simp add: push_bit_eq_mult mult.commute flip: disjunctive_add_eq_or)
qed

lemma unat_low_byte_or:
  fixes y :: "'a::len word"
  assumes "256 * unat y < 2 ^ LENGTH('a)" "8 \<le> LENGTH('a)"
  shows "unat (ucast (b :: u8) OR push_bit 8 y) = unat b + 256 * unat y"
proof -
  have "(256::nat) \<le> 2 ^ LENGTH('a)"
    using power_increasing [of 8 "LENGTH('a)" "2::nat"] assms(2) by simp
  then have b: "take_bit LENGTH('a) (unat b) = unat b"
    using unat_u8_less [of b] by (intro take_bit_nat_eq_self) linarith
  have y: "take_bit LENGTH('a) (push_bit 8 (unat y)) = push_bit 8 (unat y)"
    using assms(1) by (intro take_bit_nat_eq_self) (simp add: push_bit_eq_mult mult.commute)
  show ?thesis
    by (simp add: unsigned_or_eq unsigned_push_bit_eq unsigned_ucast_eq b y low_byte_or_nat unat_u8_less)
qed

lemma unat_leW: "8 * length bs \<le> LENGTH('a) \<Longrightarrow> unat (leW bs :: 'a::len word) = le bs"
proof (induction bs)
  case (Cons b bs)
  have "256 * le bs < 256 ^ length (b # bs)"
    using le_bound [of bs] by simp
  also have "\<dots> = 2 ^ (8 * length (b # bs))"
    by (simp only: power_mult) simp
  also have "\<dots> \<le> 2 ^ LENGTH('a)"
    using Cons.prems by (intro power_increasing) auto
  finally have "256 * le bs < 2 ^ LENGTH('a)" .
  with Cons show ?case by (simp add: unat_low_byte_or)
qed simp

lemma take_drop_4: "i + 4 \<le> length p \<Longrightarrow> take 4 (drop i p) = [p ! i, p ! (i + 1), p ! (i + 2), p ! (i + 3)]"
  by (simp add: numeral_eq_Suc take_Suc_conv_app_nth Cons_nth_drop_Suc[symmetric])

lemma take_drop_3: "i + 3 \<le> length p \<Longrightarrow> take 3 (drop i p) = [p ! i, p ! (i + 1), p ! (i + 2)]"
  by (simp add: numeral_eq_Suc take_Suc_conv_app_nth Cons_nth_drop_Suc[symmetric])

lemma take_drop_2: "i + 2 \<le> length p \<Longrightarrow> take 2 (drop i p) = [p ! i, p ! (i + 1)]"
  by (simp add: numeral_eq_Suc take_Suc_conv_app_nth Cons_nth_drop_Suc[symmetric])

lemma readU32_le: "i + 4 \<le> length p \<Longrightarrow> unat (readU32 p i) = le (take 4 (drop i p))"
proof -
  assume i: "i + 4 \<le> length p"
  then have "readU32 p i = leW (take 4 (drop i p))"
    unfolding take_drop_4 [OF i] by (simp add: readU32_def push_bit_or or.assoc)
  with i show ?thesis by (simp add: unat_leW)
qed

lemma readU24_le: "i + 3 \<le> length p \<Longrightarrow> unat (readU24 p i) = le (take 3 (drop i p))"
proof -
  assume i: "i + 3 \<le> length p"
  then have "readU24 p i = leW (take 3 (drop i p))"
    unfolding take_drop_3 [OF i] by (simp add: readU24_def push_bit_or or.assoc)
  with i show ?thesis by (simp add: unat_leW)
qed

lemma readU16_le: "i + 2 \<le> length p \<Longrightarrow> unat (readU16 p i) = le (take 2 (drop i p))"
proof -
  assume i: "i + 2 \<le> length p"
  let ?b = "take 2 (drop i p)"
  have r: "readU16 p i = ucast (leW ?b :: u32)"
    unfolding take_drop_2 [OF i] by (simp add: readU16_def push_bit_or or.assoc)
  have "le ?b < 2 ^ 16" using le_bound [of ?b] i by simp
  with i show ?thesis unfolding r by (simp add: unat_leW unsigned_ucast_eq take_bit_nat_eq_self)
qed

lemma lenEnc8_leW:
  assumes "\<And>j. j < i \<Longrightarrow> data ! (pos + 1 + j) = xs ! j" "i \<le> length xs"
  shows "lenEnc8 data pos i (leW (drop i xs)) = leW xs"
  using assms
proof (induction i)
  case (Suc i)
  have "leW (drop i xs) = ucast (xs ! i) OR push_bit 8 (leW (drop (Suc i) xs) :: u64)"
    using Suc.prems(2) by (simp add: Cons_nth_drop_Suc [symmetric])
  with Suc show ?case by (simp add: or.commute)
qed simp

lemma lenEnc8_le: "pos + 9 \<le> length data \<Longrightarrow> unat (lenEnc8 data pos 8 0) = le (take 8 (drop (pos + 1) data))"
proof -
  assume p: "pos + 9 \<le> length data"
  let ?b = "take 8 (drop (pos + 1) data)"
  have "lenEnc8 data pos 8 (leW (drop 8 ?b)) = leW ?b"
    using p by (intro lenEnc8_leW) auto
  with p show ?thesis by (simp add: unat_leW)
qed

subsection \<open>What the writers write\<close>

lemma unat_low_byte: "unat (ucast (x AND 0xFF) :: u8) = unat x mod 256"
proof -
  have "unat (ucast (x AND 0xFF) :: u8) = unat (ucast x :: u8)"
    unfolding bytes_of_mask
    by (rule arg_cong [where f = unat], rule bit_word_eqI) (auto simp: bit_simps dest: bit_imp_le_length)
  then show ?thesis by (simp add: unsigned_ucast_eq take_bit_eq_mod)
qed

lemma unat_drop_bit: "unat (drop_bit n (x :: 'a::len word)) = unat x div 2 ^ n"
proof -
  have "unat (drop_bit n x) = drop_bit n (unat x)"
    by (simp only: unsigned_drop_bit_eq take_bit_nat_eq_self [OF unsigned_less])
  then show ?thesis by (simp only: drop_bit_eq_div)
qed

lemma le_putBytes: "le (putBytes [] x [0..<k]) = unat x mod 256 ^ k"
proof (induction k arbitrary: x)
  case (Suc k)
  have "putBytes [] x [0..<Suc k] = ucast (x AND 0xFF) # putBytes [] (drop_bit 8 x) [0..<k]"
    by (simp add: putBytes_append upt_conv_Cons map_Suc_upt [symmetric] add.commute del: upt_Suc)
  with Suc [of "drop_bit 8 x"] show ?case
    by (simp add: unat_low_byte unat_drop_bit mod_mult2_eq)
qed simp

lemma putU32_le: "le (putU32 [] x) = unat x"
proof -
  have "unat x < 2 ^ 32" using unsigned_less [of x, where 'a = nat] by simp
  then show ?thesis using le_putBytes [of x 4] by (simp add: putU32_def upt_rec)
qed

lemma putU16_le: "le (putU16 [] x) = unat x"
proof -
  have "unat (ucast (drop_bit 8 x) :: u8) = unat x div 256"
    using unsigned_less [of x, where 'a = nat]
    by (simp only: unsigned_ucast_eq unat_drop_bit) (simp add: take_bit_nat_eq_self)
  then show ?thesis by (simp add: putU16_def unat_low_byte)
qed

lemma readU16_put: "readU16 (v @ putU16 [] x @ w) (length v) = x"
  by (rule word_unat_eq_iff [THEN iffD2]) (simp add: readU16_le putU16_le)

lemma readU32_put: "readU32 (v @ putU32 [] x @ w) (length v) = x"
  by (rule word_unat_eq_iff [THEN iffD2]) (simp add: readU32_le putU32_le)

subsection \<open>Length-encoded integers and strings\<close>

lemma ucast_small_word:
  fixes x :: u64
  assumes "unat x < 2 ^ LENGTH('b)"
  shows "unat (ucast x :: 'b::len word) = unat x"
  using assms by (simp add: unsigned_ucast_eq take_bit_nat_eq_self)

lemma unat_ucast_u64:
  fixes y :: "'b::len word"
  assumes "LENGTH('b) \<le> 64"
  shows "unat (ucast y :: u64) = unat y"
proof -
  have "unat y < 2 ^ 64"
    using assms unsigned_less [of y, where 'a = nat] power_increasing [of "LENGTH('b)" 64 "2::nat"]
    by linarith
  then show ?thesis by (simp add: unsigned_ucast_eq take_bit_nat_eq_self)
qed

lemma readLenEnc_put_1:
  assumes "x < 0xFB"
  shows "readLenEnc (v @ putLenEnc [] x @ w) (length v) = Some (x, length v + 1)"
proof -
  have x: "unat x < 251" using assms by (simp add: word_less_nat_alt)
  then have b: "unat (ucast x :: u8) = unat x" by (simp add: ucast_small_word)
  then have "ucast (ucast x :: u8) = x" by (simp add: word_unat_eq_iff unat_ucast_u64)
  moreover have "(ucast x :: u8) < 0xFB" using b x by (simp add: word_less_nat_alt)
  ultimately show ?thesis
    using assms by (simp add: readLenEnc_def putLenEnc_def)
qed

lemma readLenEnc_put_3:
  assumes "\<not> x < 0xFB" "x \<le> 0xFFFF"
  shows "readLenEnc (v @ putLenEnc [] x @ w) (length v) = Some (x, length v + 3)"
proof -
  have "unat x < 2 ^ 16" using assms by (simp add: word_le_nat_alt)
  then have "ucast (ucast x :: u16) = x" by (simp add: word_unat_eq_iff unat_ucast_u64 ucast_small_word)
  moreover have "putLenEnc [] x = 0xFC # putU16 [] (ucast x)"
    using assms by (simp add: putLenEnc_def putU16_def)
  moreover have "readU16 ((v @ [0xFC]) @ putU16 [] (ucast x) @ w) (length (v @ [0xFC])) = ucast x"
    by (rule readU16_put)
  ultimately show ?thesis by (simp add: readLenEnc_def)
qed

lemma readLenEnc_put_4:
  assumes "\<not> x \<le> 0xFFFF" "x \<le> 0xFFFFFF"
  shows "readLenEnc (v @ putLenEnc [] x @ w) (length v) = Some (x, length v + 4)"
proof -
  have p: "putLenEnc [] x = 0xFD # putBytes [] x [0..<3]"
    using assms by (auto simp: putLenEnc_def putBytes_append upt_rec word_le_nat_alt word_less_nat_alt)
  have x: "unat x < 2 ^ 24" using assms(2) by (simp add: word_le_nat_alt)
  let ?d = "v @ 0xFD # putBytes [] x [0..<3] @ w"
  have "unat (readU24 ?d (length v + 1)) = unat x"
    using x by (subst readU24_le) (simp_all add: putBytes_append le_putBytes [unfolded putBytes_append, simplified])
  then have "ucast (readU24 ?d (length v + 1)) = x" by (simp add: word_unat_eq_iff unat_ucast_u64)
  then show ?thesis by (simp add: readLenEnc_def p putBytes_append)
qed

lemma readLenEnc_put_9:
  assumes "\<not> x \<le> 0xFFFFFF"
  shows "readLenEnc (v @ putLenEnc [] x @ w) (length v) = Some (x, length v + 9)"
proof -
  have p: "putLenEnc [] x = 0xFE # putBytes [] x [0..<8]"
    using assms by (auto simp: putLenEnc_def putBytes_append upt_rec word_le_nat_alt word_less_nat_alt)
  let ?d = "v @ 0xFE # putBytes [] x [0..<8] @ w"
  have "unat (lenEnc8 ?d (length v) 8 0) = unat x"
    using unsigned_less [of x, where 'a = nat]
    by (subst lenEnc8_le) (simp_all add: putBytes_append le_putBytes [unfolded putBytes_append, simplified])
  then have "lenEnc8 ?d (length v) 8 0 = x" by (simp add: word_unat_eq_iff)
  then show ?thesis by (simp add: readLenEnc_def p putBytes_append)
qed

lemma readLenEnc_put:
  "readLenEnc (v @ putLenEnc [] x @ w) (length v) = Some (x, length v + length (putLenEnc [] x))"
  using readLenEnc_put_1 [of x v w] readLenEnc_put_3 [of x v w] readLenEnc_put_4 [of x v w] readLenEnc_put_9 [of x v w]
  by (auto simp: length_putLenEnc split: if_splits)

lemma drop_eq_split:
  assumes "drop pos data = xs @ w" "xs \<noteq> []"
  obtains v where "data = v @ xs @ w" "pos = length v"
proof
  show "data = take pos data @ xs @ w"
    using assms(1) by (metis append_take_drop_id)
  have "\<not> length data \<le> pos" using assms by auto
  then show "pos = length (take pos data)" by simp
qed

lemma putLenEnc_nonempty [simp]: "putLenEnc [] x \<noteq> []"
  using length_putLenEnc [of x] by (auto split: if_splits)

lemma readLenEnc_at:
  assumes "drop pos data = putLenEnc [] x @ w"
  shows "readLenEnc data pos = Some (x, pos + length (putLenEnc [] x))"
  using assms by (rule drop_eq_split) (auto simp: readLenEnc_put)

lemma readLenEncString_at:
  assumes "drop pos data = putLenEncStr [] s @ w" "length s < 2 ^ 64"
  shows "readLenEncString data pos = Some (s, pos + length (putLenEncStr [] s))"
proof -
  let ?n = "of_nat (length s) :: u64"
  have n: "unat ?n = length s"
    using assms(2) by (simp add: unat_of_nat take_bit_nat_eq_self)
  have d: "drop pos data = putLenEnc [] ?n @ s @ w"
    using assms(1) by (simp add: putLenEncStr_def)
  moreover have rest: "drop (pos + length (putLenEnc [] ?n)) data = s @ w"
    using d by (metis add.commute append_eq_conv_conj drop_drop)
  then have "length s \<le> length data - (pos + length (putLenEnc [] ?n))"
    by (metis le_add1 length_append length_drop)
  ultimately show ?thesis
    by (simp add: readLenEncString_def readLenEnc_at [OF d] n rest putLenEncStr_def)
qed

lemma readLenEnc_bounds:
  "readLenEnc data pos = Some (x, pos') \<Longrightarrow> pos < pos' \<and> pos' \<le> length data"
  by (auto simp: readLenEnc_def Let_def split: if_splits)

lemma readLenEncString_bounds:
  "readLenEncString data pos = Some (s, pos') \<Longrightarrow> pos < pos' \<and> pos' \<le> length data \<and> length s < pos' - pos"
  by (auto simp: readLenEncString_def bind_eq_Some_conv dest!: readLenEnc_bounds)

lemma readLenEnc_marker: "data ! pos \<in> {0xFB, 0xFF} \<Longrightarrow> readLenEnc data pos = None"
  by (auto simp: readLenEnc_def)

subsection \<open>NUL-terminated strings\<close>

lemma scanNul_spec:
  "pos \<le> length data \<Longrightarrow> pos \<le> scanNul data pos \<and> scanNul data pos \<le> length data
    \<and> (\<forall>i. pos \<le> i \<and> i < scanNul data pos \<longrightarrow> data ! i \<noteq> 0)
    \<and> (scanNul data pos < length data \<longrightarrow> data ! scanNul data pos = 0)"
proof (induction data pos rule: scanNul.induct)
  case (1 data pos)
  show ?case
  proof (cases "pos < length data \<and> data ! pos \<noteq> 0")
    case True
    then have eq: "scanNul data pos = scanNul data (pos + 1)"
      by (simp add: scanNul.simps [of data pos])
    have ih: "pos + 1 \<le> scanNul data (pos + 1)" "scanNul data (pos + 1) \<le> length data"
      "\<forall>i. pos + 1 \<le> i \<and> i < scanNul data (pos + 1) \<longrightarrow> data ! i \<noteq> 0"
      "scanNul data (pos + 1) < length data \<longrightarrow> data ! scanNul data (pos + 1) = 0"
      using "1.IH" [OF True] True by auto
    with True show ?thesis
      unfolding eq by (metis Suc_eq_plus1 Suc_leD not_less_eq_eq le_antisym)
  next
    case False
    then have eq: "scanNul data pos = pos"
      by (subst scanNul.simps) (simp only: if_False)
    from False "1.prems" show ?thesis by (auto simp only: eq)
  qed
qed

lemma scanNul_prefix:
  "0 \<notin> set s \<Longrightarrow> scanNul (v @ s @ w) (length v) = scanNul (v @ s @ w) (length v + length s)"
proof (induction s arbitrary: v)
  case (Cons c s)
  then have "c \<noteq> 0" by auto
  then have "scanNul (v @ (c # s) @ w) (length v) = scanNul ((v @ [c]) @ s @ w) (length (v @ [c]))"
    by (subst scanNul.simps) simp
  also have "\<dots> = scanNul ((v @ [c]) @ s @ w) (length (v @ [c]) + length s)"
    using Cons by (intro Cons.IH) simp
  finally show ?case by simp
qed simp

lemma readNulString_terminated:
  "0 \<notin> set s \<Longrightarrow> readNulString (v @ s @ 0 # w) (length v) = (Some s, length v + length s + 1)"
  using scanNul_prefix [of s v "0 # w"]
  by (simp add: readNulString_def scanNul.simps [of _ "length v + length s"] nth_append)

lemma readNulString_unterminated:
  "0 \<notin> set s \<Longrightarrow> readNulString (v @ s) (length v) = (None, length v + length s)"
  using scanNul_prefix [of s v "[]"]
  by (simp add: readNulString_def scanNul.simps [of _ "length v + length s"])


subsection \<open>Reading at a position\<close>

text \<open>
  A parser walks a buffer by positions. These rules read one field where the rest of the
  buffer is known, and \<open>drop_next\<close> moves on to what follows it.
\<close>

lemma drop_next: "drop pos data = xs @ w \<Longrightarrow> drop (pos + length xs) data = w"
  by (metis add.commute append_eq_conv_conj drop_drop)

lemma drop_length: "drop pos data = xs @ w \<Longrightarrow> xs \<noteq> [] \<Longrightarrow> length data = pos + length xs + length w"
  by (drule arg_cong [where f = length]) (auto simp flip: length_greater_0_conv)

lemma byte_at: "drop pos data = b # w \<Longrightarrow> data ! pos = b \<and> pos < length data \<and> drop (pos + 1) data = w"
  using drop_next [of pos data "[b]" w] drop_length [of pos data "[b]" w]
  by (simp add: hd_drop_conv_nth [symmetric])

lemma readU16_at: "drop pos data = putU16 [] x @ w \<Longrightarrow> readU16 data pos = x \<and> drop (pos + 2) data = w \<and> pos + 2 \<le> length data"
  using drop_next [of pos data "putU16 [] x" w] drop_length [of pos data "putU16 [] x" w]
  by (elim drop_eq_split) (auto simp: readU16_put simp flip: length_0_conv)

lemma readU32_at: "drop pos data = putU32 [] x @ w \<Longrightarrow> readU32 data pos = x \<and> drop (pos + 4) data = w \<and> pos + 4 \<le> length data"
  using drop_next [of pos data "putU32 [] x" w] drop_length [of pos data "putU32 [] x" w]
  by (elim drop_eq_split) (auto simp: readU32_put simp flip: length_0_conv)

lemma readNulString_at:
  assumes "drop pos data = s @ 0 # w" "0 \<notin> set s"
  shows "readNulString data pos = (Some s, pos + length s + 1) \<and> drop (pos + length s + 1) data = w"
proof
  have d: "drop pos data = (s @ [0]) @ w" using assms(1) by simp
  then show "readNulString data pos = (Some s, pos + length s + 1)"
    using readNulString_terminated [OF assms(2)] by (elim drop_eq_split) auto
  show "drop (pos + length s + 1) data = w" using drop_next [OF d] by simp
qed

lemma readNulString_at_end:
  "drop pos data = s \<Longrightarrow> pos \<le> length data \<Longrightarrow> 0 \<notin> set s \<Longrightarrow> readNulString data pos = (None, length data)"
  using readNulString_unterminated [of s "take pos data"] by auto

lemma readNulString_first:
  assumes "drop pos data = s" "pos \<le> length data"
  shows "readNulString data pos =
    (if 0 \<in> set s then (Some (takeWhile (\<lambda>b. b \<noteq> 0) s), pos + length (takeWhile (\<lambda>b. b \<noteq> 0) s) + 1)
     else (None, length data))"
proof (cases "0 \<in> set s")
  case True
  then obtain w where "s = takeWhile (\<lambda>b. b \<noteq> 0) s @ 0 # w"
    by (metis (mono_tags, lifting) dropWhile_eq_Nil_conv hd_dropWhile list.collapse takeWhile_dropWhile_id)
  with assms(1) have "drop pos data = takeWhile (\<lambda>b. b \<noteq> 0) s @ 0 # w" by simp
  from readNulString_at [OF this] True show ?thesis by (metis (mono_tags, lifting) set_takeWhileD)
next
  case False
  with assms show ?thesis by (simp add: readNulString_at_end)
qed


section \<open>Properties\<close>

text \<open>
  Every 64-bit length and every string shorter than that survives the length-encoded form, wherever in a
  buffer it is written and whatever follows it.
\<close>

theorem lenenc_roundtrip:
  assumes "length s < 2 ^ 64"
  shows "readLenEnc (putLenEnc v x @ w) (length v) = Some (x, length (putLenEnc v x))
    \<and> readLenEncString (putLenEncStr v s @ w) (length v) = Some (s, length (putLenEncStr v s))"
proof -
  have "drop (length v) (putLenEncStr v s @ w) = putLenEncStr [] s @ w" by (subst putLenEncStr_append) simp
  from readLenEncString_at [OF this assms] readLenEnc_put [of v x w] show ?thesis
    by (simp add: putLenEnc_append [of v] putLenEncStr_append [of v])
qed

theorem lenenc_roundtrip_witness:
  "readLenEnc (putLenEnc [9] 70000 @ [1]) 1 = Some (70000, 5)
    \<and> readLenEncString (putLenEncStr [9] [65, 66] @ [1]) 1 = Some ([65, 66], 4)"
  using lenenc_roundtrip [of "[65, 66]" "[9]" 70000 "[1]"]
  by (simp add: putLenEnc_def putLenEncStr_def putBytes_append)

end
