(* ===== verification/Framing.thy ===== *)
theory Framing
  imports Wire
begin

text \<open>
  Packet framing of \<open>src/src/common/mysql/protocol.{h,cpp}\<close>: the incremental
  \<open>MessageReader\<close>, \<open>encodeMessage\<close> and \<open>renumber\<close>. Each wire packet is a three-byte
  little-endian payload length, a sequence id and the payload; a payload of exactly
  \<open>kMaxPayload\<close> bytes is continued by the next packet.
\<close>

section \<open>Constants and data\<close>

definition kHeaderLen :: nat where
  "kHeaderLen = 4"

definition kMaxPayload :: nat where
  "kMaxPayload = 0xFFFFFF"

record message =
  payload :: bytes
  first_seq :: u8
  last_seq :: u8
  wire_size :: nat

record reader =
  buf :: bytes
  consumed :: nat

definition new_reader :: reader where
  "new_reader = \<lparr>buf = [], consumed = 0\<rparr>"

lemma kMaxPayload_pos: "0 < kMaxPayload"
  by (simp add: kMaxPayload_def)

section \<open>MessageReader\<close>

definition compact :: "reader \<Rightarrow> reader" where
  "compact r =
     (if consumed r = 0 then r
      else if consumed r = length (buf r) then r\<lparr>buf := [], consumed := 0\<rparr>
      else if consumed r > length (buf r) div 2
        then r\<lparr>buf := drop (consumed r) (buf r), consumed := 0\<rparr>
      else r)"

definition reader_append :: "reader \<Rightarrow> bytes \<Rightarrow> reader" where
  "reader_append r data =
     (if length data = 0 then r
      else let r = compact r in r\<lparr>buf := buf r @ data\<rparr>)"

definition buffered :: "reader \<Rightarrow> nat" where
  "buffered r = length (buf r) - consumed r"

definition reader_reset :: "reader \<Rightarrow> reader" where
  "reader_reset r = r\<lparr>buf := [], consumed := 0\<rparr>"

text \<open>The \<open>for (;;)\<close> of \<open>MessageReader::next\<close>, with its local variables as arguments.\<close>

function nextLoop :: "bytes \<Rightarrow> nat \<Rightarrow> bytes \<Rightarrow> bool \<Rightarrow> u8 \<Rightarrow> u8 \<Rightarrow> (bytes \<times> u8 \<times> u8 \<times> nat) option" where
  "nextLoop b pos pl first fseq lseq =
     (if length b - pos < kHeaderLen then None
      else let plen = unat (readU24 b pos); seq = b ! (pos + 3)
        in if length b - pos - kHeaderLen < plen then None
           else let fseq = (if first then seq else fseq);
                    lseq = seq;
                    pl = pl @ take plen (drop (pos + kHeaderLen) b);
                    pos = pos + kHeaderLen + plen
             in if plen \<noteq> kMaxPayload then Some (pl, fseq, lseq, pos)
                else nextLoop b pos pl False fseq lseq)"
  by pat_completeness auto
termination
  by (relation "measure (\<lambda>(b, pos, _). length b - pos)") (auto simp: kHeaderLen_def)

definition reader_next :: "reader \<Rightarrow> (message \<times> reader) option" where
  "reader_next r =
     (case nextLoop (buf r) (consumed r) [] True 0 0 of
        None \<Rightarrow> None
      | Some (pl, fseq, lseq, pos) \<Rightarrow>
          Some (\<lparr>payload = pl, first_seq = fseq, last_seq = lseq, wire_size = pos - consumed r\<rparr>,
                r\<lparr>consumed := pos\<rparr>))"

section \<open>Encoding and renumbering\<close>

function encodeLoop :: "bytes \<Rightarrow> nat \<Rightarrow> u8 \<Rightarrow> bytes \<Rightarrow> bytes" where
  "encodeLoop pl off seq out =
     (let chunk = length pl - off;
          chunk = (if chunk > kMaxPayload then kMaxPayload else chunk);
          out = out @ [ucast (of_nat chunk AND 0xFF :: u64),
                       ucast (drop_bit 8 (of_nat chunk) AND 0xFF :: u64),
                       ucast (drop_bit 16 (of_nat chunk) AND 0xFF :: u64),
                       seq] @ take chunk (drop off pl);
          off = off + chunk
      in if chunk \<noteq> kMaxPayload then out else encodeLoop pl off (seq + 1) out)"
  by pat_completeness auto
termination
  by (relation "measure (\<lambda>(pl, off, _). length pl - off)") (use kMaxPayload_pos in \<open>auto split: if_splits\<close>)

definition encodeMessage :: "bytes \<Rightarrow> u8 \<Rightarrow> bytes" where
  "encodeMessage pl start_seq = encodeLoop pl 0 start_seq []"

text \<open>\<open>renumber\<close> rewrites in place: the stream is returned also when the walk fails.\<close>

function renumberLoop :: "bytes \<Rightarrow> nat \<Rightarrow> u8 \<Rightarrow> bool \<times> bytes" where
  "renumberLoop stream pos seq =
     (if pos < length stream then
        if length stream - pos < kHeaderLen then (False, stream)
        else let plen = unat (readU24 stream pos)
          in if length stream - pos - kHeaderLen < plen then (False, stream)
             else renumberLoop (stream[pos + 3 := seq]) (pos + kHeaderLen + plen) (seq + 1)
      else (pos = length stream, stream))"
  by pat_completeness auto
termination
  by (relation "measure (\<lambda>(stream, pos, _). length stream - pos)") (auto simp: kHeaderLen_def)

definition renumber :: "bytes \<Rightarrow> u8 \<Rightarrow> bool \<times> bytes" where
  "renumber stream start_seq = renumberLoop stream 0 start_seq"

declare nextLoop.simps [simp del] encodeLoop.simps [simp del] renumberLoop.simps [simp del]

section \<open>Reference framing\<close>

text \<open>
  What the operations mean, on byte strings alone: the bytes a reader still holds, the
  packet at the front of a byte string, the message at the front of a byte string, and
  the wire form of a message.
\<close>

definition pending :: "reader \<Rightarrow> bytes" where
  "pending r = drop (consumed r) (buf r)"

definition reader_ok :: "reader \<Rightarrow> bool" where
  "reader_ok r \<longleftrightarrow> consumed r \<le> length (buf r)"

definition header :: "nat \<Rightarrow> u8 \<Rightarrow> bytes" where
  "header n seq = putBytes [] (of_nat n :: u64) [0, 1, 2] @ [seq]"

fun packet :: "u8 \<times> bytes \<Rightarrow> bytes" where
  "packet (seq, body) = header (length body) seq @ body"

definition unpacket :: "bytes \<Rightarrow> (u8 \<times> bytes \<times> bytes) option" where
  "unpacket bs =
     (if length bs < 4 \<or> length bs - 4 < le (take 3 bs) then None
      else Some (bs ! 3, take (le (take 3 bs)) (drop 4 bs), drop (4 + le (take 3 bs)) bs))"

lemma unpacket_shrinks: "unpacket bs = Some (s, b, rest) \<Longrightarrow> length rest < length bs"
  by (auto simp: unpacket_def split: if_splits)

function unframe :: "bytes \<Rightarrow> (bytes \<times> u8 list \<times> bytes) option" where
  "unframe bs =
     (case unpacket bs of
        None \<Rightarrow> None
      | Some (seq, body, rest) \<Rightarrow>
          if length body \<noteq> kMaxPayload then Some (body, [seq], rest)
          else (case unframe rest of
                  None \<Rightarrow> None
                | Some (pl, seqs, rest') \<Rightarrow> Some (body @ pl, seq # seqs, rest')))"
  by pat_completeness auto
termination
  by (relation "measure length") (auto dest: unpacket_shrinks)

function frames :: "u8 \<Rightarrow> bytes \<Rightarrow> (u8 \<times> bytes) list" where
  "frames seq pl =
     (if length pl < kMaxPayload then [(seq, pl)]
      else (seq, take kMaxPayload pl) # frames (seq + 1) (drop kMaxPayload pl))"
  by pat_completeness auto
termination
  by (relation "measure (\<lambda>(_, pl). length pl)") (use kMaxPayload_pos in auto)

text \<open>A byte string as a whole number of packets, and the same packets with new ids.\<close>

function packets :: "bytes \<Rightarrow> (u8 \<times> bytes) list option" where
  "packets bs =
     (if bs = [] then Some []
      else (case unpacket bs of
              None \<Rightarrow> None
            | Some (seq, body, rest) \<Rightarrow> map_option (Cons (seq, body)) (packets rest)))"
  by pat_completeness auto
termination
  by (relation "measure length") (auto dest: unpacket_shrinks)

fun restamp :: "u8 \<Rightarrow> (u8 \<times> bytes) list \<Rightarrow> (u8 \<times> bytes) list" where
  "restamp q [] = []"
| "restamp q ((s, body) # ps) = (q, body) # restamp (q + 1) ps"

declare unframe.simps [simp del] frames.simps [simp del] packets.simps [simp del]

section \<open>MessageReader refines the reference\<close>

lemma pending_append [framing_simps]:
  "reader_ok r \<Longrightarrow> pending (reader_append r data) = pending r @ data"
  by (auto simp: reader_append_def compact_def pending_def reader_ok_def Let_def)

lemma reader_ok_append [framing_simps]: "reader_ok r \<Longrightarrow> reader_ok (reader_append r data)"
  by (auto simp: reader_append_def compact_def reader_ok_def Let_def)

lemma reader_reset_pending [framing_simps]: "pending (reader_reset r) = []" "reader_ok (reader_reset r)"
  by (auto simp: reader_reset_def pending_def reader_ok_def)

lemma new_reader_pending [framing_simps]: "pending new_reader = []" "reader_ok new_reader"
  by (auto simp: new_reader_def pending_def reader_ok_def)

lemma buffered_pending: "buffered r = length (pending r)"
  by (simp add: buffered_def pending_def)

lemma nextLoop_step:
  assumes "pos \<le> length b"
  shows "nextLoop b pos pl first fseq lseq =
    (case unpacket (drop pos b) of
       None \<Rightarrow> None
     | Some (seq, body, rest) \<Rightarrow>
         let fs = (if first then seq else fseq); pos' = length b - length rest
         in if length body \<noteq> kMaxPayload then Some (pl @ body, fs, seq, pos')
            else nextLoop b pos' (pl @ body) False fs seq)"
proof -
  let ?n = "le (take 3 (drop pos b))"
  consider "length b - pos < 4" | "\<not> length b - pos < 4" "length b - pos - 4 < ?n"
    | "\<not> length b - pos < 4" "\<not> length b - pos - 4 < ?n" by blast
  then show ?thesis
  proof cases
    case 1
    then show ?thesis by (simp add: nextLoop.simps [of b pos] unpacket_def kHeaderLen_def)
  next
    case 2
    then have "unat (readU24 b pos) = ?n" by (intro readU24_le) auto
    with 2 show ?thesis by (simp add: nextLoop.simps [of b pos] unpacket_def kHeaderLen_def Let_def)
  next
    case 3
    then have "unat (readU24 b pos) = ?n" by (intro readU24_le) auto
    moreover have "length b - length (drop (4 + ?n) (drop pos b)) = pos + 4 + ?n"
      using 3 assms by simp
    ultimately show ?thesis
      using 3 by (simp add: nextLoop.simps [of b pos] unpacket_def kHeaderLen_def Let_def add_ac)
  qed
qed

lemma unpacket_rest:
  "unpacket bs = Some (s, body, rest) \<Longrightarrow> rest = drop (length bs - length rest) bs \<and> length bs = 4 + length body + length rest"
  by (auto simp: unpacket_def split: if_splits)

lemma unframe_seqs: "unframe bs = Some (pl, seqs, rest) \<Longrightarrow> seqs \<noteq> []"
  by (subst (asm) unframe.simps) (auto split: option.splits if_splits)

lemma nextLoop_unframe:
  assumes "pos \<le> length b"
  shows "nextLoop b pos pl first fseq lseq =
    (case unframe (drop pos b) of
       None \<Rightarrow> None
     | Some (body, seqs, rest) \<Rightarrow>
         Some (pl @ body, if first then hd seqs else fseq, last seqs, length b - length rest))"
  using assms
proof (induction "length b - pos" arbitrary: pos pl first fseq lseq rule: less_induct)
  case less
  note step = nextLoop_step [OF less.prems] and uf = unframe.simps [of "drop pos b"]
  show ?case
  proof (cases "unpacket (drop pos b)")
    case None
    then show ?thesis by (simp add: step uf)
  next
    case (Some a)
    obtain seq body rest where a: "a = (seq, body, rest)" by (cases a)
    let ?pos = "length b - length rest"
    from Some a have sz: "length b - pos = 4 + length body + length rest"
      and "rest = drop (length (drop pos b) - length rest) (drop pos b)"
      using unpacket_rest by fastforce+
    then have rest: "drop ?pos b = rest" using less.prems by simp
    have "length b - ?pos < length b - pos" "?pos \<le> length b" using sz by simp_all
    note ih = less.hyps [OF this, unfolded rest]
    show ?thesis
      using Some a by (simp add: step uf ih Let_def unframe_seqs split: option.split)
  qed
qed

lemma unpacket_split:
  assumes "unpacket bs = Some (s, body, rest)"
  obtains w where "bs = w @ rest" "length w = 4 + length body"
proof
  let ?n = "le (take 3 bs)"
  show "bs = take (4 + ?n) bs @ rest" and "length (take (4 + ?n) bs) = 4 + length body"
    using assms by (auto simp: unpacket_def split: if_splits)
qed

lemma unpacket_append: "unpacket bs = Some (s, body, rest) \<Longrightarrow> unpacket (bs @ ys) = Some (s, body, rest @ ys)"
  by (auto simp: unpacket_def nth_append split: if_splits)

lemma unframe_split:
  "unframe bs = Some (pl, seqs, rest) \<Longrightarrow> \<exists>w. bs = w @ rest \<and> length w = 4 * length seqs + length pl"
proof (induction bs arbitrary: pl seqs rest rule: unframe.induct)
  case (1 bs)
  from "1.prems" obtain seq body rest1 where u: "unpacket bs = Some (seq, body, rest1)"
    by (subst (asm) unframe.simps) (auto split: option.splits)
  then obtain w where w: "bs = w @ rest1" "length w = 4 + length body" by (rule unpacket_split)
  show ?case
  proof (cases "length body = kMaxPayload")
    case False
    with "1.prems" u have "pl = body" "seqs = [seq]" "rest = rest1"
      by (simp_all add: unframe.simps [of bs])
    with w show ?thesis by simp
  next
    case True
    with "1.prems" u obtain pl2 seqs2 where r: "unframe rest1 = Some (pl2, seqs2, rest)"
      and eq: "pl = body @ pl2" "seqs = seq # seqs2"
      by (auto simp: unframe.simps [of bs] split: option.splits)
    from "1.IH" [OF u refl refl _ r] True obtain w2
      where "rest1 = w2 @ rest" "length w2 = 4 * length seqs2 + length pl2" by auto
    with w eq show ?thesis by (intro exI [of _ "w @ w2"]) simp
  qed
qed

lemma unframe_shrinks: "unframe bs = Some (pl, seqs, rest) \<Longrightarrow> length rest < length bs"
  using unframe_split [of bs pl seqs rest] unframe_seqs [of bs pl seqs rest] by auto

lemma unframe_append:
  "unframe bs = Some (pl, seqs, rest) \<Longrightarrow> unframe (bs @ ys) = Some (pl, seqs, rest @ ys)"
proof (induction bs arbitrary: pl seqs rest rule: unframe.induct)
  case (1 bs)
  from "1.prems" obtain seq body rest1 where u: "unpacket bs = Some (seq, body, rest1)"
    by (subst (asm) unframe.simps) (auto split: option.splits)
  note u' = unpacket_append [OF u, of ys]
  show ?case
  proof (cases "length body = kMaxPayload")
    case False
    with "1.prems" u u' show ?thesis by (auto simp: unframe.simps [of bs] unframe.simps [of "bs @ ys"])
  next
    case True
    with "1.prems" u obtain pl2 seqs2 where r: "unframe rest1 = Some (pl2, seqs2, rest)"
      and eq: "pl = body @ pl2" "seqs = seq # seqs2"
      by (auto simp: unframe.simps [of bs] split: option.splits)
    from "1.IH" [OF u refl refl _ r] True u' eq show ?thesis by (simp add: unframe.simps [of "bs @ ys"])
  qed
qed

lemma reader_next_unframe:
  assumes "reader_ok r"
  shows "reader_next r =
    (case unframe (pending r) of
       None \<Rightarrow> None
     | Some (pl, seqs, rest) \<Rightarrow>
         Some (\<lparr>payload = pl, first_seq = hd seqs, last_seq = last seqs,
                wire_size = length (pending r) - length rest\<rparr>,
               r\<lparr>consumed := length (buf r) - length rest\<rparr>))"
  using assms
  by (simp add: reader_next_def nextLoop_unframe reader_ok_def pending_def add_ac split: option.split)

lemma pending_consumed:
  assumes "reader_ok r" "unframe (pending r) = Some (pl, seqs, rest)"
  shows "pending (r\<lparr>consumed := length (buf r) - length rest\<rparr>) = rest"
    "reader_ok (r\<lparr>consumed := length (buf r) - length rest\<rparr>)"
proof -
  obtain w where w: "pending r = w @ rest" using unframe_split assms(2) by blast
  then have "buf r = (take (consumed r) (buf r) @ w) @ rest"
    by (simp add: pending_def) (metis append_take_drop_id)
  then have "drop (length (buf r) - length rest) (buf r) = rest"
    by (metis add_diff_cancel_right' append_eq_conv_conj length_append)
  then show "pending (r\<lparr>consumed := length (buf r) - length rest\<rparr>) = rest"
    by (simp add: pending_def)
  show "reader_ok (r\<lparr>consumed := length (buf r) - length rest\<rparr>)" by (simp add: reader_ok_def)
qed


section \<open>The framer interface\<close>

text \<open>
  What the clients of a framer rely on: appending extends the pending bytes, and pulling a
  message cuts it off their front by a rule that later bytes cannot change. The trackers
  of \<open>session.cpp\<close> and \<open>agent.cpp\<close> feed whatever one TLS call delivered and then pull
  until nothing is complete; \<open>pulls\<close> is that inner loop, and \<open>feeds\<close> a sequence of such
  rounds, one per call.
\<close>

fun pulls :: "('r \<Rightarrow> ('m \<times> 'r) option) \<Rightarrow> 'r \<Rightarrow> 'm list \<Rightarrow> 'r \<Rightarrow> bool" where
  "pulls nxt r [] r' \<longleftrightarrow> nxt r = None \<and> r' = r"
| "pulls nxt r (m # ms) r' \<longleftrightarrow> (\<exists>r1. nxt r = Some (m, r1) \<and> pulls nxt r1 ms r')"

fun feeds :: "('r \<Rightarrow> bytes \<Rightarrow> 'r) \<Rightarrow> ('r \<Rightarrow> ('m \<times> 'r) option) \<Rightarrow> 'r \<Rightarrow> bytes list \<Rightarrow> 'm list \<Rightarrow> 'r \<Rightarrow> bool" where
  "feeds app nxt r [] ms r' \<longleftrightarrow> ms = [] \<and> r' = r"
| "feeds app nxt r (c # cs) ms r' \<longleftrightarrow>
     (\<exists>ms1 ms2 r1. ms = ms1 @ ms2 \<and> pulls nxt (app r c) ms1 r1 \<and> feeds app nxt r1 cs ms2 r')"

locale framer =
  fixes ok :: "'r \<Rightarrow> bool"
    and held :: "'r \<Rightarrow> bytes"
    and app :: "'r \<Rightarrow> bytes \<Rightarrow> 'r"
    and nxt :: "'r \<Rightarrow> ('m \<times> 'r) option"
    and cut :: "bytes \<Rightarrow> ('m \<times> bytes) option"
  assumes ok_app: "ok r \<Longrightarrow> ok (app r c)"
    and held_app: "ok r \<Longrightarrow> held (app r c) = held r @ c"
    and nxt_None: "ok r \<Longrightarrow> cut (held r) = None \<Longrightarrow> nxt r = None"
    and nxt_Some: "ok r \<Longrightarrow> cut (held r) = Some (m, bs) \<Longrightarrow> \<exists>r'. nxt r = Some (m, r') \<and> ok r' \<and> held r' = bs"
    and cut_append: "cut bs = Some (m, rest) \<Longrightarrow> cut (bs @ ys) = Some (m, rest @ ys)"
    and cut_shrinks: "cut bs = Some (m, rest) \<Longrightarrow> length rest < length bs"
begin

lemma nxt_cut:
  "ok r \<Longrightarrow> nxt r = None \<and> cut (held r) = None \<or>
     (\<exists>m r'. nxt r = Some (m, r') \<and> ok r' \<and> cut (held r) = Some (m, held r'))"
  using nxt_None [of r] nxt_Some [of r] by (cases "cut (held r)") force+

lemma nxt_SomeD: "ok r \<Longrightarrow> nxt r = Some (m, r') \<Longrightarrow> ok r' \<and> cut (held r) = Some (m, held r')"
  using nxt_cut [of r] by auto

lemma nxt_NoneD: "ok r \<Longrightarrow> nxt r = None \<Longrightarrow> cut (held r) = None"
  using nxt_cut [of r] by auto

lemma pulls_total: "ok r \<Longrightarrow> \<exists>ms r'. pulls nxt r ms r' \<and> ok r'"
proof (induction "length (held r)" arbitrary: r rule: less_induct)
  case less
  show ?case
  proof (cases "nxt r")
    case None
    then show ?thesis using less.prems by (intro exI [of _ "[]"]) auto
  next
    case (Some a)
    then obtain m r' where a: "nxt r = Some (m, r')" by (cases a) auto
    then have "ok r'" "length (held r') < length (held r)"
      using nxt_SomeD [OF less.prems] cut_shrinks by blast+
    then obtain ms r'' where "pulls nxt r' ms r''" "ok r''"
      using less.hyps by blast
    with a show ?thesis by (intro exI [of _ "m # ms"]) auto
  qed
qed

lemma pulls_ok: "ok r \<Longrightarrow> pulls nxt r ms r' \<Longrightarrow> ok r' \<and> cut (held r') = None"
proof (induction ms arbitrary: r)
  case Nil
  then show ?case using nxt_NoneD by simp
next
  case (Cons m ms)
  then obtain r1 where r1: "nxt r = Some (m, r1)" "pulls nxt r1 ms r'" by auto
  then have "ok r1" using nxt_SomeD [OF Cons.prems(1)] by blast
  with Cons.IH r1(2) show ?case by blast
qed

lemma pulls_same_bytes:
  "ok r \<Longrightarrow> ok s \<Longrightarrow> held r = held s \<Longrightarrow> pulls nxt r ms r' \<Longrightarrow> \<exists>s'. pulls nxt s ms s' \<and> held s' = held r'"
proof (induction ms arbitrary: r s)
  case Nil
  then have "cut (held s) = None" using pulls_ok [OF Nil(1,4)] by simp
  with Nil show ?case using nxt_None by auto
next
  case (Cons m ms)
  then obtain r1 where r1: "nxt r = Some (m, r1)" "pulls nxt r1 ms r'" by auto
  have ok1: "ok r1" and "cut (held r) = Some (m, held r1)"
    using nxt_SomeD [OF Cons.prems(1) r1(1)] by blast+
  then obtain s1 where "nxt s = Some (m, s1)" "ok s1" "held s1 = held r1"
    using nxt_Some Cons.prems by metis
  with Cons.IH [OF ok1 _ _ r1(2)] show ?case by fastforce
qed

lemma pulls_split:
  "ok r \<Longrightarrow> pulls nxt r ms1 r1 \<Longrightarrow> pulls nxt (app r1 c) ms2 r2 \<Longrightarrow>
    \<exists>r'. pulls nxt (app r c) (ms1 @ ms2) r' \<and> held r' = held r2"
proof (induction ms1 arbitrary: r)
  case Nil
  then show ?case by auto
next
  case (Cons m ms1)
  then obtain s where s: "nxt r = Some (m, s)" "pulls nxt s ms1 r1" by auto
  have oks: "ok s" and "cut (held r) = Some (m, held s)"
    using nxt_SomeD [OF Cons.prems(1) s(1)] by blast+
  then have "cut (held (app r c)) = Some (m, held (app s c))"
    using cut_append held_app Cons.prems(1) by simp
  then obtain t where t: "nxt (app r c) = Some (m, t)" "ok t" "held t = held (app s c)"
    using nxt_Some ok_app Cons.prems(1) by blast
  obtain s' where s': "pulls nxt (app s c) (ms1 @ ms2) s'" "held s' = held r2"
    using Cons.IH [OF oks s(2) Cons.prems(3)] by blast
  obtain t' where "pulls nxt t (ms1 @ ms2) t'" "held t' = held s'"
    using pulls_same_bytes [OF ok_app [OF oks] t(2) t(3) [symmetric] s'(1)] by blast
  with t(1) s'(2) show ?case by auto
qed

lemma feeds_concat:
  assumes "ok r" "feeds app nxt r cs ms r'" "cs \<noteq> []"
  shows "\<exists>r''. pulls nxt (app r (concat cs)) ms r'' \<and> held r'' = held r'"
  using assms
proof (induction cs arbitrary: r ms)
  case (Cons c cs)
  then obtain ms1 ms2 r1 where ms: "ms = ms1 @ ms2" and p: "pulls nxt (app r c) ms1 r1"
    and f: "feeds app nxt r1 cs ms2 r'" by auto
  have ok1: "ok r1" using pulls_ok ok_app Cons.prems(1) p by blast
  show ?case
  proof (cases "cs = []")
    case True
    with ms p f show ?thesis by auto
  next
    case False
    then obtain r2 where r2: "pulls nxt (app r1 (concat cs)) ms2 r2" "held r2 = held r'"
      using Cons.IH [OF ok1 f] by blast
    obtain s where s: "pulls nxt (app (app r c) (concat cs)) (ms1 @ ms2) s" "held s = held r2"
      using pulls_split [OF ok_app [OF Cons.prems(1)] p r2(1)] by blast
    have "held (app (app r c) (concat cs)) = held (app r (concat (c # cs)))"
      using Cons.prems(1) by (simp add: held_app ok_app)
    then show ?thesis
      using pulls_same_bytes [OF _ _ _ s(1)] ok_app Cons.prems(1) s(2) r2(2) ms by metis
  qed
qed simp

end

definition cutMessage :: "bytes \<Rightarrow> (message \<times> bytes) option" where
  "cutMessage bs =
     (case unframe bs of
        None \<Rightarrow> None
      | Some (pl, seqs, rest) \<Rightarrow>
          Some (\<lparr>payload = pl, first_seq = hd seqs, last_seq = last seqs,
                 wire_size = length bs - length rest\<rparr>, rest))"

interpretation mr: framer reader_ok pending reader_append reader_next cutMessage
proof (unfold_locales, goal_cases)
  case (4 r m bs)
  then show ?case
    by (auto simp: reader_next_unframe cutMessage_def pending_consumed split: option.splits prod.splits)
next
  case (5 bs m rest ys)
  then show ?case by (auto simp: cutMessage_def unframe_append split: option.splits)
next
  case (6 bs m rest)
  then show ?case by (auto simp: cutMessage_def dest: unframe_shrinks split: option.splits)
qed (auto simp: framing_simps reader_next_unframe cutMessage_def split: option.splits)


section \<open>Encoding\<close>

lemma header_bytes:
  "[ucast (of_nat n AND 0xFF :: u64), ucast (drop_bit 8 (of_nat n) AND 0xFF :: u64),
    ucast (drop_bit 16 (of_nat n) AND 0xFF :: u64), seq] = header n seq"
  by (simp add: header_def putBytes_append)

lemma length_header [simp]: "length (header n seq) = 4"
  by (simp add: header_def putBytes_append)

lemma length_packet [simp]: "length (packet p) = 4 + length (snd p)"
  by (cases p) simp

lemma header_le: "n < 2 ^ 24 \<Longrightarrow> le (take 3 (header n seq)) = n"
proof -
  assume n: "n < 2 ^ 24"
  have "take 3 (header n seq) = putBytes [] (of_nat n :: u64) [0..<3]"
    by (simp add: header_def putBytes_append upt_rec)
  then show ?thesis using n by (simp add: le_putBytes unat_of_nat take_bit_nat_eq_self)
qed

lemma unpacket_packet:
  "length body \<le> kMaxPayload \<Longrightarrow> unpacket (packet (seq, body) @ rest) = Some (seq, body, rest)"
  using header_le [of "length body" seq]
  by (simp add: unpacket_def kMaxPayload_def nth_append) (simp add: header_def putBytes_append)

lemma encodeLoop_frames:
  "off \<le> length pl \<Longrightarrow> encodeLoop pl off seq out = out @ concat (map packet (frames seq (drop off pl)))"
proof (induction pl off seq out rule: encodeLoop.induct)
  case (1 pl off seq out)
  show ?case
  proof (cases "length pl - off < kMaxPayload")
    case True
    then show ?thesis
      by (subst encodeLoop.simps, subst frames.simps) (simp add: Let_def header_bytes)
  next
    case False
    then have m: "min (length pl - off) kMaxPayload = kMaxPayload"
      "(if length pl - off > kMaxPayload then kMaxPayload else length pl - off) = kMaxPayload" by auto
    note ih = "1.IH" [OF refl, unfolded m(2), OF refl refl]
    have "kMaxPayload + off \<le> length pl" using False "1.prems" by simp
    then show ?thesis
      using False ih by (subst encodeLoop.simps, subst frames.simps)
        (simp add: Let_def header_bytes m add.commute)
  qed
qed

lemma encodeMessage_frames: "encodeMessage pl seq = concat (map packet (frames seq pl))"
  by (simp add: encodeMessage_def encodeLoop_frames)

lemma frames_bodies: "(s, b) \<in> set (frames seq pl) \<Longrightarrow> length b \<le> kMaxPayload"
proof (induction seq pl rule: frames.induct)
  case (1 seq pl)
  then show ?case by (subst (asm) (2) frames.simps) (auto split: if_splits)
qed

lemma unframe_frames:
  "unframe (concat (map packet (frames seq pl)) @ rest) = Some (pl, map fst (frames seq pl), rest)"
proof (induction seq pl rule: frames.induct)
  case (1 seq pl)
  show ?case
  proof (cases "length pl < kMaxPayload")
    case True
    then show ?thesis
      by (subst unframe.simps, subst (1 2) frames.simps) (simp add: unpacket_packet del: packet.simps)
  next
    case False
    then show ?thesis using 1
      by (subst unframe.simps, subst (1 2) frames.simps) (simp add: unpacket_packet del: packet.simps)
  qed
qed

lemma frames_seqs: "map fst (frames seq pl) = map (\<lambda>i. seq + of_nat i) [0..<Suc (length pl div kMaxPayload)]"
proof (induction seq pl rule: frames.induct)
  case (1 seq pl)
  show ?case
  proof (cases "length pl < kMaxPayload")
    case True
    then show ?thesis by (subst frames.simps) simp
  next
    case False
    then have "length pl div kMaxPayload = Suc (length (drop kMaxPayload pl) div kMaxPayload)"
      using kMaxPayload_pos by (simp add: le_div_geq)
    moreover have "map (\<lambda>i. seq + of_nat i) [0..<Suc (Suc n)] = seq # map (\<lambda>i. seq + 1 + of_nat i) [0..<Suc n]" for n
      by (simp add: upt_conv_Cons map_Suc_upt [symmetric] add_ac del: upt_Suc)
    ultimately show ?thesis using 1 False by (subst frames.simps) simp
  qed
qed

lemma reader_next_encoded:
  assumes "reader_ok r" "pending r = encodeMessage pl seq @ rest"
  shows "\<exists>r'. reader_next r =
      Some (\<lparr>payload = pl, first_seq = seq, last_seq = seq + of_nat (length pl div kMaxPayload),
             wire_size = length (encodeMessage pl seq)\<rparr>, r') \<and> reader_ok r' \<and> pending r' = rest"
proof -
  have uf: "unframe (pending r) = Some (pl, map fst (frames seq pl), rest)"
    using assms(2) by (simp add: encodeMessage_frames unframe_frames)
  have hd: "hd (map fst (frames seq pl)) = seq"
    unfolding frames_seqs by (simp add: upt_conv_Cons del: upt_Suc)
  have last: "last (map fst (frames seq pl)) = seq + of_nat (length pl div kMaxPayload)"
    unfolding frames_seqs by simp
  have size: "length (pending r) - length rest = length (encodeMessage pl seq)"
    using assms(2) by simp
  show ?thesis
    using pending_consumed [OF assms(1) uf]
    unfolding reader_next_unframe [OF assms(1)] uf option.case prod.case hd last size by blast
qed


section \<open>Renumbering\<close>

lemma base256: "a < 256 \<Longrightarrow> (a + 256 * k) mod 256 = a \<and> (a + 256 * k) div 256 = (k::nat)"
  by simp

lemma packet_of_unpacket:
  assumes "unpacket bs = Some (s, body, rest)"
  shows "bs = packet (s, body) @ rest"
proof -
  let ?n = "le (take 3 bs)"
  from assms have bs: "4 \<le> length bs" "s = bs ! 3" "body = take ?n (drop 4 bs)"
    "rest = drop (4 + ?n) bs" "?n \<le> length bs - 4"
    by (auto simp: unpacket_def split: if_splits)
  define a b c where abc: "a = bs ! 0" "b = bs ! 1" "c = bs ! 2"
  have t3: "take 3 bs = [a, b, c]" and t4: "take 4 bs = [a, b, c, s]"
    using take_drop_3 [of 0 bs] take_drop_4 [of 0 bs] bs(1,2) abc by (simp_all add: numeral_2_eq_2)
  have n: "?n = unat a + 256 * (unat b + 256 * unat c)" unfolding t3 by simp
  have "?n < 2 ^ 24" using le_bound [of "take 3 bs"] bs(1) by simp
  define x :: u64 where "x = of_nat ?n"
  have u: "unat x = unat a + 256 * (unat b + 256 * unat c)"
    using \<open>?n < 2 ^ 24\<close> unfolding x_def n [symmetric]
    by (simp add: unat_of_nat take_bit_nat_eq_self)
  have digits: "unat x mod 256 = unat a" "unat x div 256 mod 256 = unat b" "unat x div 65536 mod 256 = unat c"
    using base256 [OF unat_u8_less, of a "unat b + 256 * unat c"] base256 [OF unat_u8_less, of b "unat c"]
      div_mult2_eq [of "unat x" 256 256] unat_u8_less [of c]
    unfolding u by simp_all
  have "ucast (x AND 0xFF) = a"
    using unat_low_byte [of x] by (simp add: word_unat_eq_iff digits)
  moreover have "ucast (drop_bit 8 x AND 0xFF) = b"
    using unat_low_byte [of "drop_bit 8 x"] by (simp add: word_unat_eq_iff unat_drop_bit digits)
  moreover have "ucast (drop_bit 16 x AND 0xFF) = c"
    using unat_low_byte [of "drop_bit 16 x"] by (simp add: word_unat_eq_iff unat_drop_bit digits)
  ultimately have "header ?n s = take 4 bs"
    unfolding t4 by (simp add: header_bytes [symmetric] x_def)
  moreover have "length body = ?n" using bs(3,5) by simp
  moreover have "bs = take 4 bs @ take ?n (drop 4 bs) @ drop (4 + ?n) bs"
    by (metis add.commute append_take_drop_id drop_drop)
  ultimately show ?thesis using bs(3,4) by simp
qed


lemma packets_Cons:
  "length body \<le> kMaxPayload \<Longrightarrow> packets (packet (s, body) @ rest) = map_option (Cons (s, body)) (packets rest)"
  by (subst packets.simps) (auto simp: unpacket_packet simp del: packet.simps simp flip: length_0_conv)

lemma packets_frames:
  "packets (concat (map packet (frames seq pl)) @ rest) = map_option ((@) (frames seq pl)) (packets rest)"
proof -
  have "packets (concat (map packet ps) @ rest) = map_option ((@) ps) (packets rest)"
    if "\<And>s b. (s, b) \<in> set ps \<Longrightarrow> length b \<le> kMaxPayload" for ps
    using that
  proof (induction ps)
    case Nil
    then show ?case by (cases "packets rest") auto
  next
    case (Cons p ps)
    obtain s b where p: "p = (s, b)" by (cases p)
    have "length b \<le> kMaxPayload" using Cons.prems [of s b] p by simp
    moreover have "packets (concat (map packet ps) @ rest) = map_option ((@) ps) (packets rest)"
      by (rule Cons.IH) (use Cons.prems in auto)
    ultimately show ?case
      by (simp add: p packets_Cons option.map_comp comp_def del: packet.simps)
  qed
  then show ?thesis using frames_bodies by blast
qed

lemma renumberLoop_packets:
  "case packets rest of
     None \<Rightarrow> \<not> fst (renumberLoop (d @ rest) (length d) q)
   | Some ps \<Rightarrow> renumberLoop (d @ rest) (length d) q = (True, d @ concat (map packet (restamp q ps)))"
proof (induction rest arbitrary: d q rule: packets.induct)
  case (1 rest)
  have le24: "unat (readU24 (d @ rest) (length d)) = le (take 3 rest)" if "\<not> length rest < 4"
    using that by (subst readU24_le) auto
  show ?case
  proof (cases "rest = []")
    case True
    then show ?thesis by (simp add: renumberLoop.simps packets.simps)
  next
    case False
    show ?thesis
    proof (cases "unpacket rest")
      case None
      with False le24 show ?thesis
        by (subst packets.simps, subst renumberLoop.simps)
          (auto simp: unpacket_def kHeaderLen_def Let_def split: if_splits)
    next
      case (Some a)
      then obtain s body tl where u: "unpacket rest = Some (s, body, tl)" by (cases a) auto
      have rest: "rest = header (length body) s @ body @ tl"
        using packet_of_unpacket [OF u] by simp
      have l: "length rest = 4 + length body + length tl" unfolding rest by simp
      have len: "le (take 3 rest) = length body"
        using u by (auto simp: unpacket_def split: if_splits)
      have upd: "(d @ rest)[length d + 3 := q] = (d @ packet (q, body)) @ tl"
        unfolding rest by (simp add: list_update_append header_def putBytes_append)
      have "renumberLoop (d @ rest) (length d) q =
          renumberLoop ((d @ packet (q, body)) @ tl) (length (d @ packet (q, body))) (q + 1)"
        using le24 len by (subst renumberLoop.simps) (simp add: upd l kHeaderLen_def Let_def add.assoc del: packet.simps)
      moreover note "1.IH" [OF False u refl refl, of "d @ packet (q, body)" "q + 1"]
      ultimately show ?thesis
        using False u by (simp add: packets.simps [of rest] split: option.splits)
    qed
  qed
qed


lemma renumber_packets:
  "packets stream = Some ps \<Longrightarrow> renumber stream q = (True, concat (map packet (restamp q ps)))"
  using renumberLoop_packets [where rest = stream and d = "[]" and q = q]
  by (simp add: renumber_def)

lemma renumber_refuses: "packets stream = None \<Longrightarrow> \<not> fst (renumber stream q)"
  using renumberLoop_packets [where rest = stream and d = "[]" and q = q]
  by (simp add: renumber_def)

lemma restamp_frames: "restamp q (frames s pl) = frames q pl"
proof (induction s pl arbitrary: q rule: frames.induct)
  case (1 s pl)
  then show ?case by (subst (1 2) frames.simps) auto
qed

lemma renumberLoop_length: "length (snd (renumberLoop stream pos q)) = length stream"
proof (induction stream pos q rule: renumberLoop.induct)
  case (1 stream pos q)
  then show ?case by (subst renumberLoop.simps) (simp add: Let_def)
qed


section \<open>Properties\<close>

text \<open>
  C18: a reader that has been fed the encoding of a message hands out exactly that message, with the sequence ids
  of its first and last packet and the number of wire bytes it took, and keeps whatever followed. This holds
  for payloads of any length, those split over several packets included, and whatever the reader had consumed before.
\<close>

theorem message_roundtrip:
  assumes "reader_ok r" "pending r = []"
  shows "\<exists>r'. reader_next (reader_append r (encodeMessage pl seq @ rest)) =
      Some (\<lparr>payload = pl, first_seq = seq, last_seq = seq + of_nat (length pl div kMaxPayload),
             wire_size = length (encodeMessage pl seq)\<rparr>, r') \<and> reader_ok r' \<and> pending r' = rest"
  using reader_next_encoded [of "reader_append r (encodeMessage pl seq @ rest)"] assms by (simp add: framing_simps)

theorem message_roundtrip_witness:
  "\<exists>r'. reader_next (reader_append new_reader (encodeMessage [3, 65] 0 @ [1])) =
      Some (\<lparr>payload = [3, 65], first_seq = 0, last_seq = 0 + of_nat (length [3 :: u8, 65] div kMaxPayload),
             wire_size = length (encodeMessage [3, 65] 0)\<rparr>, r') \<and> reader_ok r' \<and> pending r' = [1]"
  by (rule message_roundtrip) (simp_all add: framing_simps)

text \<open>
  C19: how the bytes of a connection are cut into reads does not matter. Feeding the chunks one by one and
  pulling every complete message after each gives the same messages, in the same order, as feeding
  their concatenation at once, and leaves the same unread bytes.
\<close>

theorem chunking_irrelevant:
  assumes "reader_ok r" "feeds reader_append reader_next r cs ms r'" "cs \<noteq> []"
  shows "\<exists>r''. pulls reader_next (reader_append r (concat cs)) ms r'' \<and> pending r'' = pending r'"
  by (rule mr.feeds_concat [OF assms])

theorem chunking_irrelevant_witness:
  "\<exists>r''. pulls reader_next (reader_append new_reader (concat [[1], [0]])) [] r'' \<and> pending r'' = [1, 0]"
proof -
  have "feeds reader_append reader_next new_reader [[1], [0]] [] \<lparr>buf = [1, 0], consumed = 0\<rparr>"
    by (simp add: reader_append_def compact_def new_reader_def reader_next_def nextLoop.simps kHeaderLen_def)
  from chunking_irrelevant [OF _ this] show ?thesis by (simp add: framing_simps pending_def)
qed

text \<open>
  C20: \<open>renumber\<close> accepts exactly the byte strings that are a whole number of packets; it rewrites their sequence
  ids to count up from the one given and touches nothing else.
\<close>

theorem renumber_exact:
  "(case packets stream of
      None \<Rightarrow> \<not> fst (renumber stream q)
    | Some ps \<Rightarrow> renumber stream q = (True, concat (map packet (restamp q ps))) \<and> stream = concat (map packet ps))"
proof -
  have "packets bs = Some ps \<Longrightarrow> bs = concat (map packet ps)" for bs ps
  proof (induction bs arbitrary: ps rule: packets.induct)
    case (1 bs)
    show ?case
    proof (cases "bs = []")
      case False
      with "1.prems" obtain s b rest qs where u: "unpacket bs = Some (s, b, rest)" and q: "packets rest = Some qs" "ps = (s, b) # qs"
        by (subst (asm) packets.simps) (auto split: option.splits)
      from "1.IH" [OF False u refl refl q(1)] packet_of_unpacket [OF u] q(2) show ?thesis by simp
    qed (use "1.prems" in \<open>simp add: packets.simps\<close>)
  qed
  then show ?thesis
    using renumber_packets [of stream] renumber_refuses [of stream] by (auto split: option.split)
qed

end
