(* ===== verification/Packets.thy ===== *)
theory Packets
  imports Wire
begin

text \<open>
  The packet bodies of \<open>src/src/common/mysql/protocol.{h,cpp}\<close>: the two handshake messages,
  \<open>COM_QUERY\<close>, and the OK, EOF and ERR responses. A parser that returns \<open>false\<close> is \<open>None\<close>; one
  that returns \<open>true\<close> is \<open>Some\<close> of the out parameter, whose fields start from their
  default member initialisers.
\<close>

section \<open>Flags\<close>

definition CLIENT_PROTOCOL_41 :: u32 where "CLIENT_PROTOCOL_41 = 0x00000200"
definition CLIENT_SSL :: u32 where "CLIENT_SSL = 0x00000800"
definition CLIENT_TRANSACTIONS :: u32 where "CLIENT_TRANSACTIONS = 0x00002000"
definition CLIENT_SECURE_CONNECTION :: u32 where "CLIENT_SECURE_CONNECTION = 0x00008000"
definition CLIENT_PLUGIN_AUTH :: u32 where "CLIENT_PLUGIN_AUTH = 0x00080000"
definition CLIENT_DEPRECATE_EOF :: u32 where "CLIENT_DEPRECATE_EOF = 0x01000000"
definition CLIENT_QUERY_ATTRIBUTES :: u32 where "CLIENT_QUERY_ATTRIBUTES = 0x08000000"

definition SERVER_STATUS_IN_TRANS :: u16 where "SERVER_STATUS_IN_TRANS = 0x0001"
definition SERVER_MORE_RESULTS_EXISTS :: u16 where "SERVER_MORE_RESULTS_EXISTS = 0x0008"

definition COM_QUERY :: u8 where "COM_QUERY = 0x03"

lemmas flag_defs =
  CLIENT_PROTOCOL_41_def CLIENT_SSL_def CLIENT_TRANSACTIONS_def CLIENT_SECURE_CONNECTION_def
  CLIENT_PLUGIN_AUTH_def CLIENT_DEPRECATE_EOF_def CLIENT_QUERY_ATTRIBUTES_def
  SERVER_STATUS_IN_TRANS_def SERVER_MORE_RESULTS_EXISTS_def COM_QUERY_def

section \<open>Handshake\<close>

record serverHandshake =
  protocol_version :: u8
  server_version :: bytes
  connection_id :: u32
  scramble :: bytes
  sh_capabilities :: u32
  sh_charset :: u8
  sh_status_flags :: u16
  auth_plugin :: bytes

text \<open>The length of the second part of the scramble, from the length byte before it.\<close>

definition authPart2Len :: "u8 \<Rightarrow> nat" where
  "authPart2Len auth_data_len =
     (let part2 = (if auth_data_len > 8 then unat auth_data_len - 8 else 13)
      in if part2 < 13 then 13 else part2)"

definition parseServerHandshake :: "bytes \<Rightarrow> serverHandshake option" where
  "parseServerHandshake data =
     (let len = length data in
      do {
        bail_if (len < 1);
        let version = data ! 0;
        bail_if (version \<noteq> 10);
        let (sv, pos) = readNulString data 1;
        server \<leftarrow> sv;
        bail_if (pos + 4 > len);
        let conn_id = readU32 data pos;
        let pos = pos + 4;
        bail_if (pos + 9 > len);
        let scr = take 8 (drop pos data);
        let pos = pos + 8;
        let pos = pos + 1;
        bail_if (pos + 2 > len);
        let caps_lo = (ucast (readU16 data pos) :: u32);
        let pos = pos + 2;
        let out = \<lparr>protocol_version = version, server_version = server, connection_id = conn_id,
                   scramble = scr, sh_capabilities = 0, sh_charset = 0, sh_status_flags = 0,
                   auth_plugin = []\<rparr>;
        if pos \<ge> len then Some (out\<lparr>sh_capabilities := caps_lo\<rparr>)
        else do {
          bail_if (pos + 1 > len);
          let out = out\<lparr>sh_charset := data ! pos\<rparr>;
          let pos = pos + 1;
          bail_if (pos + 2 > len);
          let out = out\<lparr>sh_status_flags := readU16 data pos\<rparr>;
          let pos = pos + 2;
          bail_if (pos + 2 > len);
          let caps_hi = (ucast (readU16 data pos) :: u32);
          let pos = pos + 2;
          let caps = caps_lo OR push_bit 16 caps_hi;
          let out = out\<lparr>sh_capabilities := caps\<rparr>;
          bail_if (pos + 1 > len);
          let auth_data_len = data ! pos;
          let pos = pos + 1;
          let pos = pos + 10;
          bail_if (pos > len);
          let part2 = authPart2Len auth_data_len;
          bail_if (has_bits caps CLIENT_SECURE_CONNECTION \<and> pos + part2 > len);
          let (out, pos) =
            (if has_bits caps CLIENT_SECURE_CONNECTION
             then (let copy = (if part2 > 0 then part2 - 1 else 0)
                   in (out\<lparr>scramble := scramble out @ take copy (drop pos data)\<rparr>, pos + part2))
             else (out, pos));
          Some (if has_bits caps CLIENT_PLUGIN_AUTH
                then (case readNulString data pos of
                        (Some plugin, _) \<Rightarrow> out\<lparr>auth_plugin := plugin\<rparr>
                      | (None, pos) \<Rightarrow>
                          if pos < len then out\<lparr>auth_plugin := drop pos data\<rparr> else out)
                else out)
        }
      })"

record clientHandshake =
  ch_capabilities :: u32
  max_packet_size :: u32
  ch_charset :: u8
  ssl_request :: bool
  username :: bytes
  database :: bytes

definition parseClientHandshake :: "bytes \<Rightarrow> clientHandshake option" where
  "parseClientHandshake data =
     (let len = length data in
      if len < 32 then None
      else let caps = readU32 data 0;
               out = \<lparr>ch_capabilities = caps, max_packet_size = readU32 data 4,
                      ch_charset = data ! 8, ssl_request = False, username = [], database = []\<rparr>;
               pos = 4 + 4 + 1 + 23
        in if pos \<ge> len then Some (out\<lparr>ssl_request := True\<rparr>)
           else case readNulString data pos of
             (None, _) \<Rightarrow> Some out
           | (Some user, pos) \<Rightarrow>
               let out = out\<lparr>username := user\<rparr>;
                   stepped =
                     (if has_bits caps CLIENT_SECURE_CONNECTION
                      then (if pos \<ge> len then None else Some (pos + 1 + unat (data ! pos)))
                      else (case readNulString data pos of
                              (None, _) \<Rightarrow> None
                            | (Some _, pos) \<Rightarrow> Some pos))
               in case stepped of
                    None \<Rightarrow> Some out
                  | Some pos \<Rightarrow>
                      if pos < len
                      then (case readNulString data pos of
                              (Some db, _) \<Rightarrow> Some (out\<lparr>database := db\<rparr>)
                            | (None, _) \<Rightarrow> Some out)
                      else Some out)"

definition negotiate :: "u32 \<Rightarrow> u32 \<Rightarrow> u32" where
  "negotiate server_caps client_caps = server_caps AND client_caps"

section \<open>Commands\<close>

definition extractQuery :: "bytes \<Rightarrow> u32 \<Rightarrow> bytes option" where
  "extractQuery data caps =
     (let len = length data in
      do {
        bail_if (len < 1 \<or> data ! 0 \<noteq> COM_QUERY);
        pos \<leftarrow> (if has_bits caps CLIENT_QUERY_ATTRIBUTES
               then do {
                 (param_count, pos) \<leftarrow> readLenEnc data 1;
                 (param_set_count, pos) \<leftarrow> readLenEnc data pos;
                 bail_if (param_count > 0);
                 Some pos
               }
               else Some 1);
        bail_if (pos > len);
        Some (take (len - pos) (drop pos data))
      })"

section \<open>Responses\<close>

datatype responseKind = Ok | Err | Eof | LocalInfile | ResultSetKind | Unknown

definition classifyResponse :: "bytes \<Rightarrow> u32 \<Rightarrow> responseKind" where
  "classifyResponse data caps =
     (if length data < 1 then Unknown
      else let h = data ! 0 in
        if h = 0xFF then Err
        else if h = 0xFB then LocalInfile
        else if h = 0x00 then Ok
        else if h = 0xFE then
          (if length data < 9 then (if has_bits caps CLIENT_DEPRECATE_EOF then Ok else Eof)
           else ResultSetKind)
        else ResultSetKind)"

record okPacket =
  affected_rows :: u64
  last_insert_id :: u64
  ok_status_flags :: u16
  ok_warnings :: u16

definition parseOk :: "bytes \<Rightarrow> u32 \<Rightarrow> okPacket option" where
  "parseOk data caps =
     (let len = length data in
      do {
        bail_if (len < 1);
        bail_if (data ! 0 \<noteq> 0x00 \<and> data ! 0 \<noteq> 0xFE);
        (rows, pos) \<leftarrow> readLenEnc data 1;
        (insert_id, pos) \<leftarrow> readLenEnc data pos;
        (status, pos) \<leftarrow> (if has_bits caps (CLIENT_PROTOCOL_41 OR CLIENT_TRANSACTIONS)
                         then do { bail_if (pos + 2 > len); Some (readU16 data pos, pos + 2) }
                         else Some (0, pos));
        (warns, pos) \<leftarrow> (if has_bits caps CLIENT_PROTOCOL_41
                        then do { bail_if (pos + 2 > len); Some (readU16 data pos, pos + 2) }
                        else Some (0, pos));
        Some \<lparr>affected_rows = rows, last_insert_id = insert_id,
              ok_status_flags = status, ok_warnings = warns\<rparr>
      })"

record eofPacket =
  eof_warnings :: u16
  eof_status_flags :: u16

definition parseEof :: "bytes \<Rightarrow> eofPacket option" where
  "parseEof data =
     do {
       bail_if (length data < 5 \<or> data ! 0 \<noteq> 0xFE);
       Some \<lparr>eof_warnings = readU16 data 1, eof_status_flags = readU16 data 3\<rparr>
     }"

record errPacket =
  error_code :: u16
  sql_state :: bytes
  err_message :: bytes

definition parseErr :: "bytes \<Rightarrow> u32 \<Rightarrow> errPacket option" where
  "parseErr data caps =
     (let len = length data in
      do {
        bail_if (len < 3 \<or> data ! 0 \<noteq> 0xFF);
        let code = readU16 data 1;
        let pos = 3;
        (state, pos) \<leftarrow>
          (if has_bits caps CLIENT_PROTOCOL_41 \<and> pos < len \<and> data ! pos = 0x23
           then do {
             let pos = pos + 1;
             bail_if (pos + 5 > len);
             Some (take 5 (drop pos data), pos + 5)
           }
           else Some ([], pos));
        Some \<lparr>error_code = code, sql_state = state,
              err_message = (if pos \<le> len then drop pos data else [])\<rparr>
      })"


section \<open>The greeting a server sends\<close>

text \<open>
  The layout of \<open>Protocol::HandshakeV10\<close> as the protocol documents it, with the optional
  fields present: what \<open>parseServerHandshake\<close> is meant to take apart.
\<close>

record greetingFields =
  g_server :: bytes
  g_conn :: u32
  g_scr8 :: bytes
  g_filler :: u8
  g_lo :: u16
  g_charset :: u8
  g_status :: u16
  g_hi :: u16
  g_authlen :: u8
  g_reserved :: bytes
  g_part2 :: bytes

definition greeting :: "greetingFields \<Rightarrow> bytes \<Rightarrow> bytes" where
  "greeting g pf = 10 # g_server g @ 0 # putU32 [] (g_conn g) @ g_scr8 g @ g_filler g #
     putU16 [] (g_lo g) @ g_charset g # putU16 [] (g_status g) @ putU16 [] (g_hi g) @
     g_authlen g # g_reserved g @ g_part2 g @ pf"

definition greetingCaps :: "greetingFields \<Rightarrow> u32" where
  "greetingCaps g = ucast (g_lo g) OR push_bit 16 (ucast (g_hi g))"

definition greetingOk :: "greetingFields \<Rightarrow> bool" where
  "greetingOk g \<longleftrightarrow> 0 \<notin> set (g_server g) \<and> length (g_scr8 g) = 8 \<and> length (g_reserved g) = 10
     \<and> length (g_part2 g) = max 13 (unat (g_authlen g) - 8)
     \<and> has_bits (greetingCaps g) CLIENT_SECURE_CONNECTION \<and> has_bits (greetingCaps g) CLIENT_PLUGIN_AUTH"

section \<open>Statement extraction\<close>

lemma extractQuery_plain:
  "\<not> has_bits caps CLIENT_QUERY_ATTRIBUTES \<Longrightarrow> extractQuery (COM_QUERY # sql) caps = Some sql"
  by (simp add: extractQuery_def)

lemma extractQuery_attributes:
  assumes "has_bits caps CLIENT_QUERY_ATTRIBUTES"
  shows "extractQuery (COM_QUERY # putLenEnc [] n @ putLenEnc [] sets @ sql) caps =
    (if n > 0 then None else Some sql)"
proof -
  let ?d = "COM_QUERY # putLenEnc [] n @ putLenEnc [] sets @ sql"
  have d: "drop 1 ?d = putLenEnc [] n @ putLenEnc [] sets @ sql" by simp
  note r1 = readLenEnc_at [OF d] and d2 = drop_next [OF d]
  note r2 = readLenEnc_at [OF d2] and d3 = drop_next [OF d2]
  show ?thesis using assms d3 by (simp add: extractQuery_def r1 [simplified] r2 [simplified] add_ac)
qed

lemma extractQuery_command: "extractQuery data caps = Some q \<Longrightarrow> data \<noteq> [] \<and> hd data = COM_QUERY"
  by (auto simp: extractQuery_def bind_eq_Some_conv hd_conv_nth)

section \<open>Terminators\<close>

lemma parseOk_rejects_eof:
  assumes "length data = 5" "has_bits caps CLIENT_PROTOCOL_41"
  shows "parseOk data caps = None"
proof (rule ccontr)
  assume "parseOk data caps \<noteq> None"
  then obtain r p i q where r1: "readLenEnc data 1 = Some (r, p)" and r2: "readLenEnc data p = Some (i, q)"
    and q: "q + 4 \<le> 5"
    using assms by (auto simp: parseOk_def bind_eq_Some_conv split: if_splits)
  then show False using readLenEnc_bounds [OF r1] readLenEnc_bounds [OF r2] by simp
qed


section \<open>The greeting is taken apart\<close>

lemma parseServerHandshake_fields:
  fixes g :: greetingFields
  assumes "greetingOk g"
  shows "parseServerHandshake (greeting g pf) =
    Some \<lparr>protocol_version = 10, server_version = g_server g, connection_id = g_conn g,
          scramble = g_scr8 g @ butlast (g_part2 g), sh_capabilities = greetingCaps g,
          sh_charset = g_charset g, sh_status_flags = g_status g,
          auth_plugin = (if 0 \<in> set pf then takeWhile (\<lambda>b. b \<noteq> 0) pf else [])\<rparr>"
proof -
  let ?d = "greeting g pf"
  from assms have srv: "0 \<notin> set (g_server g)" and scr: "length (g_scr8 g) = 8" and res: "length (g_reserved g) = 10"
    and p2: "length (g_part2 g) = max 13 (unat (g_authlen g) - 8)"
    and sec: "has_bits (greetingCaps g) CLIENT_SECURE_CONNECTION" and plg: "has_bits (greetingCaps g) CLIENT_PLUGIN_AUTH"
    by (auto simp: greetingOk_def)
  let ?R10 = "g_part2 g @ pf"
  let ?R5 = "g_charset g # putU16 [] (g_status g) @ putU16 [] (g_hi g) @ g_authlen g # g_reserved g @ ?R10"
  let ?R1 = "putU32 [] (g_conn g) @ g_scr8 g @ g_filler g # putU16 [] (g_lo g) @ ?R5"
  define p where "p = 1 + length (g_server g) + 1"
  have "drop 1 ?d = g_server g @ 0 # ?R1" by (simp add: greeting_def)
  from readNulString_at [OF this srv] have f1: "readNulString ?d 1 = (Some (g_server g), p)"
    and d1: "drop p ?d = ?R1" by (simp_all add: p_def)
  from readU32_at [OF d1] have f2: "readU32 ?d p = g_conn g" and d2: "drop (p + 4) ?d = g_scr8 g @ g_filler g # putU16 [] (g_lo g) @ ?R5"
    by simp_all
  from drop_next [OF d2] scr have d3: "drop (p + 12) ?d = g_filler g # putU16 [] (g_lo g) @ ?R5" by (simp add: add_ac)
  from d2 scr have f3: "take 8 (drop (p + 4) ?d) = g_scr8 g" by simp
  from byte_at [OF d3] have d4: "drop (p + 13) ?d = putU16 [] (g_lo g) @ ?R5" by (simp add: add_ac)
  from readU16_at [OF d4] have f4: "readU16 ?d (p + 13) = g_lo g" and d5: "drop (p + 15) ?d = ?R5" by (simp_all add: add_ac)
  from byte_at [OF d5] have f5: "?d ! (p + 15) = g_charset g"
    and d6: "drop (p + 16) ?d = putU16 [] (g_status g) @ putU16 [] (g_hi g) @ g_authlen g # g_reserved g @ ?R10" by (simp_all add: add_ac)
  from readU16_at [OF d6] have f6: "readU16 ?d (p + 16) = g_status g"
    and d7: "drop (p + 18) ?d = putU16 [] (g_hi g) @ g_authlen g # g_reserved g @ ?R10" by (simp_all add: add_ac)
  from readU16_at [OF d7] have f7: "readU16 ?d (p + 18) = g_hi g"
    and d8: "drop (p + 20) ?d = g_authlen g # g_reserved g @ ?R10" by (simp_all add: add_ac)
  from byte_at [OF d8] have f8: "?d ! (p + 20) = g_authlen g" and d9: "drop (p + 21) ?d = g_reserved g @ ?R10" by (simp_all add: add_ac)
  from drop_next [OF d9] res have d10: "drop (p + 31) ?d = ?R10" by (simp add: add_ac)
  have len: "length ?d = p + 31 + length (g_part2 g) + length pf"
    by (simp add: greeting_def p_def scr res)
  have f10: "authPart2Len (g_authlen g) = length (g_part2 g)"
    using p2 by (auto simp: authPart2Len_def Let_def word_less_nat_alt)
  have "drop (p + 31 + length (g_part2 g)) ?d = pf" using drop_next [OF d10] by (simp add: add_ac)
  from readNulString_first [OF this] len have f11: "readNulString ?d (p + 31 + length (g_part2 g)) =
      (if 0 \<in> set pf then (Some (takeWhile (\<lambda>b. b \<noteq> 0) pf), p + 31 + length (g_part2 g) + length (takeWhile (\<lambda>b. b \<noteq> 0) pf) + 1)
       else (None, p + 31 + length (g_part2 g) + length pf))" by simp
  have f12: "take (length (g_part2 g) - 1) (drop (p + 31) ?d) = butlast (g_part2 g)"
    by (simp add: d10 butlast_conv_take)
  have f13: "?d ! 0 = 10" by (simp add: greeting_def)
  have f14: "ucast (g_lo g) OR push_bit 16 (ucast (g_hi g)) = greetingCaps g" by (simp add: greetingCaps_def)
  have p0: "length (g_part2 g) \<noteq> 0" using p2 by simp
  have suc: "Suc (12 + p) = 13 + p" "Suc (15 + p) = 16 + p" "Suc (20 + p) = 21 + p" by simp_all
  note walk = f2 f3 f4 f5 f6 f7 f8 f11 f12
  note walk' = walk [unfolded add.commute [of p]]
  show ?thesis
    using sec plg p0 unfolding parseServerHandshake_def
    by (simp add: Let_def f1 [unfolded One_nat_def] walk walk' f11 [unfolded add.assoc add.left_commute [of p]]
        f12 [unfolded One_nat_def add.commute [of p]] f10 f13 f14 len suc add.assoc)
qed


section \<open>The reply a client sends\<close>

text \<open>\<open>Protocol::HandshakeResponse41\<close> with a length-prefixed authentication field.\<close>

definition clientReply :: "u32 \<Rightarrow> u32 \<Rightarrow> u8 \<Rightarrow> bytes \<Rightarrow> bytes \<Rightarrow> bytes \<Rightarrow> bytes \<Rightarrow> bytes" where
  "clientReply caps maxp cs fill user auth rest =
     putU32 [] caps @ putU32 [] maxp @ cs # fill @ user @ 0 # of_nat (length auth) # auth @ rest"

lemma clientReply_walk:
  assumes "length fill = 23" "0 \<notin> set user" "length auth < 256"
  shows "readU32 (clientReply caps maxp cs fill user auth rest) 0 = caps"
    "readU32 (clientReply caps maxp cs fill user auth rest) 4 = maxp"
    "clientReply caps maxp cs fill user auth rest ! 8 = cs"
    "readNulString (clientReply caps maxp cs fill user auth rest) 32 = (Some user, 33 + length user)"
    "unat (clientReply caps maxp cs fill user auth rest ! (33 + length user)) = length auth"
    "drop (34 + length user + length auth) (clientReply caps maxp cs fill user auth rest) = rest"
    "length (clientReply caps maxp cs fill user auth rest) = 34 + length user + length auth + length rest"
proof -
  let ?d = "clientReply caps maxp cs fill user auth rest"
  have d0: "drop 0 ?d = putU32 [] caps @ putU32 [] maxp @ cs # fill @ user @ 0 # of_nat (length auth) # auth @ rest"
    by (simp add: clientReply_def)
  from readU32_at [OF d0] show "readU32 ?d 0 = caps" by blast
  from readU32_at [OF d0] have d4: "drop 4 ?d = putU32 [] maxp @ cs # fill @ user @ 0 # of_nat (length auth) # auth @ rest" by simp
  from readU32_at [OF d4] show "readU32 ?d 4 = maxp" by blast
  from readU32_at [OF d4] have d8: "drop 8 ?d = cs # fill @ user @ 0 # of_nat (length auth) # auth @ rest" by simp
  from byte_at [OF d8] show "?d ! 8 = cs" by blast
  from byte_at [OF d8] have "drop 9 ?d = fill @ user @ 0 # of_nat (length auth) # auth @ rest" by simp
  from drop_next [OF this] assms(1) have d32: "drop 32 ?d = user @ 0 # of_nat (length auth) # auth @ rest" by simp
  from readNulString_at [OF d32 assms(2)] show "readNulString ?d 32 = (Some user, 33 + length user)" by simp
  from readNulString_at [OF d32 assms(2)] have da: "drop (33 + length user) ?d = of_nat (length auth) # auth @ rest" by simp
  from byte_at [OF da] assms(3) show "unat (?d ! (33 + length user)) = length auth"
    by (simp add: unat_of_nat take_bit_nat_eq_self)
  from byte_at [OF da] have "drop (34 + length user) ?d = auth @ rest" by simp
  from drop_next [OF this] show "drop (34 + length user + length auth) ?d = rest" .
  show "length ?d = 34 + length user + length auth + length rest" using assms(1) by (simp add: clientReply_def)
qed

lemma parseClientHandshake_reply:
  assumes "length fill = 23" "0 \<notin> set user" "length auth < 256" "0 \<notin> set db" "has_bits caps CLIENT_SECURE_CONNECTION"
  shows "parseClientHandshake (clientReply caps maxp cs fill user auth (db @ 0 # rest)) =
    Some \<lparr>ch_capabilities = caps, max_packet_size = maxp, ch_charset = cs, ssl_request = False,
          username = user, database = db\<rparr>"
proof -
  let ?d = "clientReply caps maxp cs fill user auth (db @ 0 # rest)"
  note w = clientReply_walk [OF assms(1-3), where rest = "db @ 0 # rest"]
  from readNulString_at [OF w(6) assms(4)]
  have db: "readNulString ?d (34 + length user + length auth) = (Some db, 34 + length user + length auth + length db + 1)" by blast
  show ?thesis
    using assms(5) db [unfolded add.assoc, simplified]
    by (simp add: parseClientHandshake_def Let_def w(1-5,7) w(5) [unfolded add.commute [of 33]] add_ac)
qed

section \<open>Properties\<close>

definition demoGreeting :: greetingFields where
  "demoGreeting = \<lparr>g_server = [56, 46, 48], g_conn = 9, g_scr8 = replicate 8 1, g_filler = 0, g_lo = 0xFFFF,
     g_charset = 33, g_status = 2, g_hi = 0xDFFF, g_authlen = 21, g_reserved = replicate 10 0,
     g_part2 = replicate 12 2 @ [0]\<rparr>"

text \<open>
  A server greeting laid out as the protocol documents it is taken apart field by field: version,
  connection id, both halves of the scramble without its closing NUL, capabilities from both halves, charset
  and status. The plugin name is read up to its NUL; when the server omits that NUL the name is lost, since the
  search has already moved the position to the end of the packet before the fallback tests it.
\<close>

theorem greeting_parsed:
  assumes "greetingOk g"
  shows "parseServerHandshake (greeting g pf) =
    Some \<lparr>protocol_version = 10, server_version = g_server g, connection_id = g_conn g,
          scramble = g_scr8 g @ butlast (g_part2 g), sh_capabilities = greetingCaps g,
          sh_charset = g_charset g, sh_status_flags = g_status g,
          auth_plugin = (if 0 \<in> set pf then takeWhile (\<lambda>b. b \<noteq> 0) pf else [])\<rparr>"
  by (rule parseServerHandshake_fields [OF assms])

theorem greeting_parsed_witness:
  "greetingOk demoGreeting \<and> map_option auth_plugin (parseServerHandshake (greeting demoGreeting [109, 110])) = Some []
    \<and> map_option auth_plugin (parseServerHandshake (greeting demoGreeting [109, 110, 0])) = Some [109, 110]"
proof -
  have ok: "greetingOk demoGreeting"
    by (simp add: greetingOk_def demoGreeting_def greetingCaps_def has_bits_def flag_defs)
  then show ?thesis using greeting_parsed [OF ok, of "[109, 110]"] greeting_parsed [OF ok, of "[109, 110, 0]"] by simp
qed

text \<open>
  A handshake response with a length-prefixed authentication field gives its capabilities, packet limit,
  charset, user and database.
\<close>

theorem client_reply_parsed:
  assumes "length fill = 23" "0 \<notin> set user" "length auth < 256" "0 \<notin> set db" "has_bits caps CLIENT_SECURE_CONNECTION"
  shows "parseClientHandshake (clientReply caps maxp cs fill user auth (db @ 0 # rest)) =
    Some \<lparr>ch_capabilities = caps, max_packet_size = maxp, ch_charset = cs, ssl_request = False,
          username = user, database = db\<rparr>"
  by (rule parseClientHandshake_reply [OF assms])

theorem client_reply_parsed_witness:
  "parseClientHandshake (clientReply 0x8200 64 33 (replicate 23 0) [98, 111] [1, 2] ([116] @ 0 # [])) =
    Some \<lparr>ch_capabilities = 0x8200, max_packet_size = 64, ch_charset = 33, ssl_request = False,
          username = [98, 111], database = [116]\<rparr>"
  by (rule client_reply_parsed) (simp_all add: has_bits_def flag_defs)

text \<open>
  The statement of a \<open>COM_QUERY\<close> is found under either layout. With query attributes negotiated the two
  counts are skipped and a query that carries parameters is refused; without them the text starts right after
  the command byte.
\<close>

theorem statement_extracted:
  "extractQuery (COM_QUERY # (if has_bits caps CLIENT_QUERY_ATTRIBUTES then putLenEnc [] n @ putLenEnc [] sets else []) @ sql) caps =
    (if has_bits caps CLIENT_QUERY_ATTRIBUTES \<and> n > 0 then None else Some sql)"
  using extractQuery_plain [of caps sql] extractQuery_attributes [of caps n sets sql] by simp

end
