(* ===== verification/ResultSet.thy ===== *)
theory ResultSet
  imports Framing Packets
begin

text \<open>
  A response as data: \<open>src/src/common/mysql/resultset.{h,cpp}\<close>. \<open>parseResultSet\<close> reads a captured
  response under the capabilities of the connection it was captured on; \<open>encodeResultSet\<close> writes
  it for the connection that asks, with that connection's capabilities and sequence ids.
  The writers append to the vector they are given, so each takes it and returns it.
\<close>

section \<open>Data\<close>

record column =
  catalog :: bytes
  schema :: bytes
  tbl :: bytes
  org_table :: bytes
  col_name :: bytes
  org_name :: bytes
  col_charset :: u16
  col_length :: u32
  col_type :: u8
  col_flags :: u16
  decimals :: u8

type_synonym val = "bytes option"
type_synonym row = "val list"

record resultSet =
  cols :: "column list"
  rows :: "row list"
  status :: u16
  warnings :: u16

section \<open>Writing\<close>

text \<open>\<open>emit\<close> takes the output and the sequence id by reference and advances the id by one.\<close>

definition emit :: "bytes \<times> u8 \<Rightarrow> bytes \<Rightarrow> bytes \<times> u8" where
  "emit s pl = (let (out, seq) = s; pkt = encodeMessage pl seq in (out @ pkt, seq + 1))"

definition columnPayload :: "column \<Rightarrow> bytes" where
  "columnPayload c =
     (let p = [];
          p = putLenEncStr p (catalog c);
          p = putLenEncStr p (schema c);
          p = putLenEncStr p (tbl c);
          p = putLenEncStr p (org_table c);
          p = putLenEncStr p (col_name c);
          p = putLenEncStr p (org_name c);
          p = putLenEnc p 0x0c;
          p = putU16 p (col_charset c);
          p = putU32 p (col_length c);
          p = p @ [col_type c];
          p = putU16 p (col_flags c);
          p = p @ [decimals c]
      in putU16 p 0)"

fun putValue :: "bytes \<Rightarrow> val \<Rightarrow> bytes" where
  "putValue p None = p @ [0xFB]"
| "putValue p (Some s) = putLenEncStr p s"

definition rowPayload :: "row \<Rightarrow> bytes" where
  "rowPayload r = foldl putValue [] r"

definition terminator :: "resultSet \<Rightarrow> u32 \<Rightarrow> bytes" where
  "terminator rs caps =
     (let p = [0xFE]
      in if has_bits caps CLIENT_DEPRECATE_EOF
         then putU16 (putU16 (putLenEnc (putLenEnc p 0) 0) (status rs)) (warnings rs)
         else putU16 (putU16 p (warnings rs)) (status rs))"

definition encodeResultSet :: "resultSet \<Rightarrow> u32 \<Rightarrow> u8 \<Rightarrow> bytes" where
  "encodeResultSet rs caps seq =
     (let s = emit ([], seq) (putLenEnc [] (of_nat (length (cols rs))));
          s = foldl (\<lambda>s c. emit s (columnPayload c)) s (cols rs);
          s = (if \<not> has_bits caps CLIENT_DEPRECATE_EOF
               then emit s (putU16 (putU16 [0xFE] (warnings rs)) (status rs)) else s);
          s = foldl (\<lambda>s r. emit s (rowPayload r)) s (rows rs)
      in fst (emit s (terminator rs caps)))"

section \<open>Reading\<close>

definition getLenEncStr :: "bytes \<Rightarrow> nat \<Rightarrow> (bytes \<times> nat) option" where
  "getLenEncStr d pos = readLenEncString d pos"

definition parseColumn :: "message \<Rightarrow> column option" where
  "parseColumn m =
     (let d = payload m; len = length d in
      do {
        (cat, pos) \<leftarrow> getLenEncStr d 0;
        (sch, pos) \<leftarrow> getLenEncStr d pos;
        (tb, pos) \<leftarrow> getLenEncStr d pos;
        (otb, pos) \<leftarrow> getLenEncStr d pos;
        (nm, pos) \<leftarrow> getLenEncStr d pos;
        (onm, pos) \<leftarrow> getLenEncStr d pos;
        (fixed, pos) \<leftarrow> readLenEnc d pos;
        bail_if (pos + 10 > len);
        let charset = readU16 d pos;
        let pos = pos + 2;
        let length = readU32 d pos;
        let pos = pos + 4;
        let type = d ! pos;
        let pos = pos + 1;
        let flags = readU16 d pos;
        let pos = pos + 2;
        Some \<lparr>catalog = cat, schema = sch, tbl = tb, org_table = otb, col_name = nm,
              org_name = onm, col_charset = charset, col_length = length, col_type = type,
              col_flags = flags, decimals = d ! pos\<rparr>
      })"

fun parseRowLoop :: "bytes \<Rightarrow> nat \<Rightarrow> nat \<Rightarrow> row \<Rightarrow> row option" where
  "parseRowLoop d pos 0 r = Some r"
| "parseRowLoop d pos (Suc n) r =
     (if pos \<ge> length d then None
      else if d ! pos = 0xFB then parseRowLoop d (pos + 1) n (r @ [None])
      else (case getLenEncStr d pos of
              None \<Rightarrow> None
            | Some (s, pos) \<Rightarrow> parseRowLoop d pos n (r @ [Some s])))"

definition parseRow :: "message \<Rightarrow> nat \<Rightarrow> row option" where
  "parseRow m ncols = parseRowLoop (payload m) 0 ncols []"

fun parseCols :: "nat \<Rightarrow> reader \<Rightarrow> column list \<Rightarrow> (column list \<times> reader) option" where
  "parseCols 0 rd cs = Some (cs, rd)"
| "parseCols (Suc n) rd cs =
     (case reader_next rd of
        None \<Rightarrow> None
      | Some (m, rd) \<Rightarrow>
          (case parseColumn m of None \<Rightarrow> None | Some c \<Rightarrow> parseCols n rd (cs @ [c])))"

text \<open>The status and warnings of a short \<open>0xFE\<close> packet; they keep their zeros when it is too short.\<close>

definition readTerminator :: "u32 \<Rightarrow> bytes \<Rightarrow> u16 \<times> u16" where
  "readTerminator caps d =
     (if has_bits caps CLIENT_DEPRECATE_EOF then
        (let skip = (\<lambda>p. case readLenEnc d p of None \<Rightarrow> p | Some (_, p) \<Rightarrow> p);
             p = skip (skip 1)
         in if p + 4 \<le> length d then (readU16 d p, readU16 d (p + 2)) else (0, 0))
      else if length d \<ge> 5 then (readU16 d 3, readU16 d 1)
      else (0, 0))"

lemma reader_next_shrinks: "reader_next r = Some (m, r') \<Longrightarrow> buffered r' < buffered r"
proof (cases "reader_ok r")
  case True
  moreover assume "reader_next r = Some (m, r')"
  ultimately have "cutMessage (pending r) = Some (m, pending r')" by (simp add: mr.nxt_SomeD)
  then show ?thesis
    by (auto simp: cutMessage_def buffered_pending dest: unframe_shrinks split: option.splits)
next
  case False
  moreover assume "reader_next r = Some (m, r')"
  ultimately show ?thesis
    by (simp add: reader_next_def reader_ok_def nextLoop.simps kHeaderLen_def)
qed

function parseRows :: "u32 \<Rightarrow> nat \<Rightarrow> reader \<Rightarrow> row list \<Rightarrow> (row list \<times> u16 \<times> u16) option" where
  "parseRows caps ncols rd rs =
     (case reader_next rd of
        None \<Rightarrow> None
      | Some (m, rd) \<Rightarrow>
          let d = payload m; n = length d in
          if d = [] then None
          else if d ! 0 = 0xFF then None
          else if d ! 0 = 0xFE \<and> n < 9 then Some (rs, readTerminator caps d)
          else (case parseRow m ncols of
                  None \<Rightarrow> None
                | Some r \<Rightarrow> parseRows caps ncols rd (rs @ [r])))"
  by pat_completeness auto
termination
  by (relation "measure (\<lambda>(_, _, rd, _). buffered rd)") (auto dest: reader_next_shrinks)

declare parseRows.simps [simp del]

definition parseResultSet :: "bytes \<Rightarrow> u32 \<Rightarrow> resultSet option" where
  "parseResultSet data caps =
     do {
       let rd = reader_append new_reader data;
       (m, rd) \<leftarrow> reader_next rd;
       bail_if (payload m = []);
       bail_if (classifyResponse (payload m) caps \<noteq> ResultSetKind);
       (ncols, pos) \<leftarrow> readLenEnc (payload m) 0;
       bail_if (ncols = 0);
       (cs, rd) \<leftarrow> parseCols (unat ncols) rd [];
       rd \<leftarrow> (if \<not> has_bits caps CLIENT_DEPRECATE_EOF
             then map_option snd (reader_next rd) else Some rd);
       (rs, st, wn) \<leftarrow> parseRows caps (length cs) rd [];
       Some \<lparr>cols = cs, rows = rs, status = st, warnings = wn\<rparr>
     }"

section \<open>The packets of a result set\<close>

text \<open>
  What the encoder puts on the wire, packet body by packet body, and the stream it makes
  of a list of bodies.
\<close>

definition payloads :: "resultSet \<Rightarrow> u32 \<Rightarrow> bytes list" where
  "payloads rs caps =
     putLenEnc [] (of_nat (length (cols rs))) # map columnPayload (cols rs)
     @ (if has_bits caps CLIENT_DEPRECATE_EOF then [] else [putU16 (putU16 [0xFE] (warnings rs)) (status rs)])
     @ map rowPayload (rows rs) @ [terminator rs caps]"

fun stream :: "u8 \<Rightarrow> bytes list \<Rightarrow> bytes" where
  "stream seq [] = []"
| "stream seq (pl # pls) = encodeMessage pl seq @ stream (seq + 1) pls"

text \<open>A result set the protocol can carry: every row has a value per column, and no string is longer than a length field can say.\<close>

definition fits :: "bytes \<Rightarrow> bool" where
  "fits s \<longleftrightarrow> length s < 2 ^ 64"

definition column_ok :: "column \<Rightarrow> bool" where
  "column_ok c \<longleftrightarrow> fits (catalog c) \<and> fits (schema c) \<and> fits (tbl c) \<and> fits (org_table c)
     \<and> fits (col_name c) \<and> fits (org_name c)"

definition value_ok :: "val \<Rightarrow> bool" where
  "value_ok v = (case v of None \<Rightarrow> True | Some s \<Rightarrow> fits s)"

definition row_ok :: "nat \<Rightarrow> row \<Rightarrow> bool" where
  "row_ok n r \<longleftrightarrow> length r = n \<and> list_all value_ok r"

definition resultSet_ok :: "resultSet \<Rightarrow> bool" where
  "resultSet_ok rs \<longleftrightarrow> cols rs \<noteq> [] \<and> length (cols rs) < 2 ^ 64 \<and> list_all column_ok (cols rs)
     \<and> list_all (row_ok (length (cols rs))) (rows rs)"

section \<open>Encoding produces the packets\<close>

lemma emit_pair: "emit (out, seq) pl = (out @ encodeMessage pl seq, seq + 1)"
  by (simp add: emit_def)

lemma foldl_emit:
  "foldl (\<lambda>s x. emit s (f x)) (out, seq) xs = (out @ stream seq (map f xs), seq + of_nat (length xs))"
  by (induction xs arbitrary: out seq) (simp_all add: emit_pair add.assoc)

lemma stream_append: "stream seq (xs @ ys) = stream seq xs @ stream (seq + of_nat (length xs)) ys"
  by (induction xs arbitrary: seq) (simp_all add: add.assoc)

lemma encodeResultSet_stream: "encodeResultSet rs caps seq = stream seq (payloads rs caps)"
  by (simp add: encodeResultSet_def payloads_def foldl_emit emit_pair Let_def stream_append add_ac)

lemma reader_next_stream:
  assumes "reader_ok r" "pending r = stream seq (pl # pls) @ rest"
  obtains m r' where "reader_next r = Some (m, r')" "payload m = pl" "reader_ok r'"
    "pending r' = stream (seq + 1) pls @ rest" "last_seq m = seq + of_nat (length pl div kMaxPayload)"
    "wire_size m = length (encodeMessage pl seq)"
  using reader_next_encoded [OF assms(1), of pl seq "stream (seq + 1) pls @ rest"] assms(2) that
  by fastforce

section \<open>Reading what was written\<close>

lemma columnPayload_eq:
  "columnPayload c = putLenEncStr [] (catalog c) @ putLenEncStr [] (schema c) @ putLenEncStr [] (tbl c)
     @ putLenEncStr [] (org_table c) @ putLenEncStr [] (col_name c) @ putLenEncStr [] (org_name c)
     @ putLenEnc [] 0x0c @ putU16 [] (col_charset c) @ putU32 [] (col_length c) @ [col_type c]
     @ putU16 [] (col_flags c) @ [decimals c] @ putU16 [] 0"
proof -
  define f g h k where fghk: "f s = putLenEncStr [] s" "g x = putU16 [] x" "h y = putU32 [] y" "k z = putLenEnc [] z"
    for s x y z
  have p: "putLenEncStr v s = v @ f s" "putU16 v x = v @ g x" "putU32 v y = v @ h y" "putLenEnc v z = v @ k z"
    for v s x y z unfolding fghk by (rule put_appends)+
  show ?thesis unfolding columnPayload_def Let_def p by simp
qed


lemma parseColumn_written:
  assumes "column_ok c" "payload m = columnPayload c"
  shows "parseColumn m = Some c"
proof -
  let ?d = "payload m"
  from assms(1) have f: "length (catalog c) < 2 ^ 64" "length (schema c) < 2 ^ 64" "length (tbl c) < 2 ^ 64"
    "length (org_table c) < 2 ^ 64" "length (col_name c) < 2 ^ 64" "length (org_name c) < 2 ^ 64"
    unfolding column_ok_def fits_def by auto
  have d0: "drop 0 ?d = columnPayload c" using assms(2) by simp
  note d1 = d0 [unfolded columnPayload_eq]
  note d2 = drop_next [OF d1] and r1 = readLenEncString_at [OF d1 f(1)]
  note d3 = drop_next [OF d2] and r2 = readLenEncString_at [OF d2 f(2)]
  note d4 = drop_next [OF d3] and r3 = readLenEncString_at [OF d3 f(3)]
  note d5 = drop_next [OF d4] and r4 = readLenEncString_at [OF d4 f(4)]
  note d6 = drop_next [OF d5] and r5 = readLenEncString_at [OF d5 f(5)]
  note d7 = drop_next [OF d6] and r6 = readLenEncString_at [OF d6 f(6)]
  note d8 = drop_next [OF d7] and r7 = readLenEnc_at [OF d7]
  define p where "p = 0 + length (putLenEncStr [] (catalog c)) + length (putLenEncStr [] (schema c))
    + length (putLenEncStr [] (tbl c)) + length (putLenEncStr [] (org_table c)) + length (putLenEncStr [] (col_name c))
    + length (putLenEncStr [] (org_name c)) + length (putLenEnc [] 0x0c)"
  note d8 = d8 [folded p_def]
  from readU16_at [OF d8] have r8: "readU16 ?d p = col_charset c"
    and d9: "drop (p + 2) ?d = putU32 [] (col_length c) @ [col_type c] @ putU16 [] (col_flags c) @ [decimals c] @ putU16 [] 0" by auto
  from readU32_at [OF d9] have r9: "readU32 ?d (p + 2) = col_length c"
    and d10: "drop (p + 6) ?d = col_type c # putU16 [] (col_flags c) @ [decimals c] @ putU16 [] 0" by (auto simp: add_ac)
  from byte_at [OF d10] have r10: "?d ! (p + 6) = col_type c"
    and d11: "drop (p + 7) ?d = putU16 [] (col_flags c) @ [decimals c] @ putU16 [] 0" by (auto simp: add_ac)
  from readU16_at [OF d11] have r11: "readU16 ?d (p + 7) = col_flags c"
    and d12: "drop (p + 9) ?d = decimals c # putU16 [] 0" by (auto simp: add_ac)
  from byte_at [OF d12] have r12: "?d ! (p + 9) = decimals c" and len: "p + 10 \<le> length ?d" by auto
  note tail = r8 r9 r10 r11 r12
  show ?thesis
    unfolding parseColumn_def getLenEncStr_def Let_def r1 bind.bind_lunit prod.case r2 r3 r4 r5 r6 r7 p_def [symmetric]
    using len r9 by (simp add: tail tail [unfolded add.commute [of p]])
qed


lemma hd_putLenEnc:
  "hd (putLenEnc [] x) \<noteq> 0xFB \<and> hd (putLenEnc [] x) \<noteq> 0xFF
    \<and> (hd (putLenEnc [] x) = 0xFE \<longrightarrow> length (putLenEnc [] x) = 9)
    \<and> (hd (putLenEnc [] x) = 0 \<longrightarrow> x = 0)"
proof (cases "x < 0xFB")
  case True
  then have x: "unat x < 251" by (simp add: word_less_nat_alt)
  then have "unat (ucast x :: u8) = unat x" by (simp add: ucast_small_word)
  with True x show ?thesis by (auto simp: putLenEnc_def word_unat_eq_iff)
next
  case False
  then show ?thesis by (auto simp: putLenEnc_def putBytes_append putU16_def)
qed

lemma putValue_append: "putValue p v = p @ putValue [] v"
  by (cases v) (auto intro: putLenEncStr_append)

lemma rowPayload_concat: "rowPayload r = concat (map (putValue []) r)"
proof -
  have "foldl putValue p r = p @ concat (map (putValue []) r)" for p
  proof (induction r arbitrary: p)
    case (Cons v r)
    then show ?case using putValue_append [of p v] by simp
  qed simp
  then show ?thesis by (simp add: rowPayload_def)
qed

lemma hd_putValue: "hd (putValue [] v) \<noteq> 0xFF" "putValue [] v \<noteq> []" "hd (putValue [] v) = 0xFB \<longleftrightarrow> v = None"
  using hd_putLenEnc by (cases v; simp add: putLenEncStr_def)+

lemma parseRowLoop_written:
  "drop pos d = concat (map (putValue []) r) @ w \<Longrightarrow> list_all value_ok r \<Longrightarrow>
    parseRowLoop d pos (length r) acc = Some (acc @ r)"
proof (induction r arbitrary: pos acc)
  case (Cons v r)
  then have d: "drop pos d = putValue [] v @ concat (map (putValue []) r) @ w" by simp
  note d' = drop_next [OF d]
  have ih: "parseRowLoop d (pos + length (putValue [] v)) (length r) (acc @ [v]) = Some (acc @ v # r)"
    using Cons.IH [OF d'] Cons.prems(2) by simp
  have pos: "pos < length d" using drop_length [OF d hd_putValue(2)] hd_putValue(2) [of v]
    by (simp flip: length_greater_0_conv)
  have b: "d ! pos = hd (putValue [] v)"
    using d hd_putValue(2) [of v] by (metis hd_append2 hd_drop_conv_nth pos)
  show ?case
  proof (cases v)
    case None
    with ih pos b show ?thesis by simp
  next
    case (Some s)
    with Cons.prems(2) have "length s < 2 ^ 64" by (simp add: value_ok_def fits_def)
    from readLenEncString_at [OF _ this, of pos d] d Some
    have "getLenEncStr d pos = Some (s, pos + length (putValue [] v))" by (simp add: getLenEncStr_def)
    moreover have "d ! pos \<noteq> 0xFB" using b hd_putValue(3) [of v] Some by simp
    ultimately show ?thesis using ih pos Some by simp
  qed
qed simp

lemma parseRow_written:
  "row_ok n r \<Longrightarrow> payload m = rowPayload r \<Longrightarrow> parseRow m n = Some r"
  using parseRowLoop_written [of 0 "payload m" r "[]" "[]"]
  by (auto simp: parseRow_def row_ok_def rowPayload_concat)

text \<open>A row is never mistaken for an error or a terminator, whatever its first value is.\<close>

lemma rowPayload_is_row:
  assumes "row_ok n r" "0 < n"
  shows "rowPayload r \<noteq> []" "rowPayload r ! 0 \<noteq> 0xFF" "rowPayload r ! 0 = 0xFE \<Longrightarrow> 9 \<le> length (rowPayload r)"
proof -
  from assms obtain v r' where r: "r = v # r'" by (cases r) (auto simp: row_ok_def)
  have h: "rowPayload r ! 0 = hd (putValue [] v)" "length (putValue [] v) \<le> length (rowPayload r)"
    using hd_putValue(2) [of v] by (auto simp: r rowPayload_concat hd_conv_nth nth_append)
  show "rowPayload r \<noteq> []" using hd_putValue(2) [of v] by (simp add: r rowPayload_concat)
  show "rowPayload r ! 0 \<noteq> 0xFF" using h hd_putValue(1) by simp
  show "9 \<le> length (rowPayload r)" if "rowPayload r ! 0 = 0xFE"
  proof (cases v)
    case (Some s)
    then have "hd (putLenEnc [] (of_nat (length s))) = 0xFE" using that h(1) by (simp add: putLenEncStr_def)
    then have "length (putLenEnc [] (of_nat (length s))) = 9" using hd_putLenEnc by blast
    with h(2) Some show ?thesis by (simp add: putLenEncStr_def)
  qed (use that h(1) in simp)
qed

lemma terminator_shape:
  "terminator rs caps ! 0 = 0xFE" "length (terminator rs caps) < 9" "terminator rs caps \<noteq> []"
  "readTerminator caps (terminator rs caps) = (status rs, warnings rs)"
proof -
  let ?t = "terminator rs caps"
  show "?t ! 0 = 0xFE" "length ?t < 9" "?t \<noteq> []" by (auto simp: terminator_def Let_def putU16_def putLenEnc_def)
  have dep: "?t = [0xFE, 0, 0] @ putU16 [] (status rs) @ putU16 [] (warnings rs)" if "has_bits caps CLIENT_DEPRECATE_EOF"
    using that by (simp add: terminator_def Let_def putU16_def putLenEnc_def)
  have eof: "?t = [0xFE] @ putU16 [] (warnings rs) @ putU16 [] (status rs)" if "\<not> has_bits caps CLIENT_DEPRECATE_EOF"
    using that by (simp add: terminator_def Let_def putU16_def)
  show "readTerminator caps ?t = (status rs, warnings rs)"
  proof (cases "has_bits caps CLIENT_DEPRECATE_EOF")
    case True
    have "drop 3 ?t = putU16 [] (status rs) @ putU16 [] (warnings rs)" using dep [OF True] by simp
    from readU16_at [OF this] have r: "readU16 ?t 3 = status rs" "drop 5 ?t = putU16 [] (warnings rs) @ []" by auto
    have "readLenEnc ?t 1 = Some (0, 2)" "readLenEnc ?t 2 = Some (0, 3)" "length ?t = 7"
      using dep [OF True] by (auto simp: readLenEnc_def)
    with True r readU16_at [OF r(2)] show ?thesis by (simp add: readTerminator_def Let_def)
  next
    case False
    have "drop 1 ?t = putU16 [] (warnings rs) @ putU16 [] (status rs)" using eof [OF False] by simp
    from readU16_at [OF this] have r: "readU16 ?t 1 = warnings rs" "drop 3 ?t = putU16 [] (status rs) @ []"
      by (auto simp: numeral_3_eq_3)
    with False readU16_at [OF r(2)] eof [OF False] show ?thesis by (simp add: readTerminator_def)
  qed
qed


section \<open>Round trip\<close>

lemma parseCols_written:
  "reader_ok rd \<Longrightarrow> pending rd = stream seq (map columnPayload cs @ pls) @ rest \<Longrightarrow> list_all column_ok cs \<Longrightarrow>
    \<exists>rd'. parseCols (length cs) rd acc = Some (acc @ cs, rd') \<and> reader_ok rd'
      \<and> pending rd' = stream (seq + of_nat (length cs)) pls @ rest"
proof (induction cs arbitrary: rd seq acc)
  case (Cons c cs)
  have p: "pending rd = stream seq (columnPayload c # map columnPayload cs @ pls) @ rest" using Cons.prems(2) by simp
  obtain m rd1 where n: "reader_next rd = Some (m, rd1)" "payload m = columnPayload c" "reader_ok rd1"
    "pending rd1 = stream (seq + 1) (map columnPayload cs @ pls) @ rest"
    using reader_next_stream [OF Cons.prems(1) p] by metis
  have "parseColumn m = Some c" using parseColumn_written n(2) Cons.prems(3) by simp
  with Cons.IH [OF n(3,4), of "acc @ [c]"] Cons.prems(3) n(1) show ?case by (simp add: add.assoc)
qed auto

text \<open>The rows are read whatever framing the reader expects; only the terminator's fields depend on it.\<close>

lemma parseRows_written:
  assumes "reader_ok rd" "pending rd = stream seq (map rowPayload rws @ [terminator rs caps]) @ rest"
    "list_all (row_ok n) rws" "0 < n"
  shows "parseRows caps' n rd acc = Some (acc @ rws, readTerminator caps' (terminator rs caps))"
  using assms
proof (induction rws arbitrary: rd seq acc)
  case Nil
  then have p: "pending rd = stream seq [terminator rs caps] @ rest" by simp
  obtain m rd1 where "reader_next rd = Some (m, rd1)" "payload m = terminator rs caps"
    using reader_next_stream [OF Nil.prems(1) p] by metis
  then show ?case by (simp add: parseRows.simps [of _ _ rd] terminator_shape Let_def)
next
  case (Cons r rws)
  have p: "pending rd = stream seq (rowPayload r # map rowPayload rws @ [terminator rs caps]) @ rest"
    using Cons.prems(2) by simp
  obtain m rd1 where m: "reader_next rd = Some (m, rd1)" "payload m = rowPayload r" "reader_ok rd1"
    "pending rd1 = stream (seq + 1) (map rowPayload rws @ [terminator rs caps]) @ rest"
    using reader_next_stream [OF Cons.prems(1) p] by metis
  have r: "row_ok n r" "list_all (row_ok n) rws" using Cons.prems(3) by auto
  note row = rowPayload_is_row [OF r(1) Cons.prems(4)]
  have "parseRow m n = Some r" using parseRow_written r(1) m(2) by blast
  moreover have "\<not> (payload m ! 0 = 0xFE \<and> length (payload m) < 9)" using row(3) m(2) by auto
  ultimately show ?case
    using Cons.IH [OF m(3,4) r(2) Cons.prems(4), of "acc @ [r]"] m(1,2) row(1,2)
    by (simp add: parseRows.simps [of _ _ rd] Let_def)
qed

lemma classify_count:
  "x \<noteq> 0 \<Longrightarrow> classifyResponse (putLenEnc [] x) caps = ResultSetKind"
  using hd_putLenEnc [of x] putLenEnc_nonempty [of x]
  by (auto simp: classifyResponse_def Let_def hd_conv_nth)

abbreviation separator :: "resultSet \<Rightarrow> u32 \<Rightarrow> bytes list" where
  "separator rs caps \<equiv> if has_bits caps CLIENT_DEPRECATE_EOF then [] else [putU16 (putU16 [0xFE] (warnings rs)) (status rs)]"

text \<open>Up to the end of the columns, an encoded response reads the same under any capabilities.\<close>

lemma parse_head:
  assumes "resultSet_ok rs"
  obtains rd s where "reader_ok rd" "pending rd = stream s (separator rs caps @ map rowPayload (rows rs) @ [terminator rs caps]) @ rest"
    "\<And>caps'. parseResultSet (encodeResultSet rs caps seq @ rest) caps' =
       do {
         rd \<leftarrow> (if \<not> has_bits caps' CLIENT_DEPRECATE_EOF then map_option snd (reader_next rd) else Some rd);
         (rws, st, wn) \<leftarrow> parseRows caps' (length (cols rs)) rd [];
         Some \<lparr>cols = cols rs, rows = rws, status = st, warnings = wn\<rparr>
       }"
proof -
  let ?n = "of_nat (length (cols rs)) :: u64"
  let ?rd = "reader_append new_reader (encodeResultSet rs caps seq @ rest)"
  let ?tail = "separator rs caps @ map rowPayload (rows rs) @ [terminator rs caps]"
  have ok: "cols rs \<noteq> []" "list_all column_ok (cols rs)" and n: "unat ?n = length (cols rs)"
    using assms by (auto simp: resultSet_ok_def unat_of_nat take_bit_nat_eq_self)
  then have n0: "?n \<noteq> 0" by (metis length_0_conv unsigned_0)
  have p: "pending ?rd = stream seq (putLenEnc [] ?n # map columnPayload (cols rs) @ ?tail) @ rest" "reader_ok ?rd"
    by (simp_all add: framing_simps encodeResultSet_stream payloads_def)
  obtain m rd1 where m: "reader_next ?rd = Some (m, rd1)" "payload m = putLenEnc [] ?n" "reader_ok rd1"
    "pending rd1 = stream (seq + 1) (map columnPayload (cols rs) @ ?tail) @ rest"
    using reader_next_stream [OF p(2,1)] by metis
  obtain rd2 where c: "parseCols (length (cols rs)) rd1 [] = Some (cols rs, rd2)" "reader_ok rd2"
    "pending rd2 = stream (seq + 1 + of_nat (length (cols rs))) ?tail @ rest"
    using parseCols_written [OF m(3,4) ok(2), of "[]"] by auto
  have cnt: "readLenEnc (payload m) 0 = Some (?n, length (putLenEnc [] ?n))"
    using readLenEnc_put [of "[]" ?n "[]"] m(2) by simp
  show thesis
    by (rule that [OF c(2,3)])
      (use n n0 ok(1) c(1) in \<open>simp add: parseResultSet_def m(1,2) cnt [unfolded m(2)] classify_count split del: if_split\<close>)
qed

lemma parse_encoded:
  assumes "resultSet_ok rs"
  shows "parseResultSet (encodeResultSet rs caps seq @ rest) caps = Some rs"
proof -
  let ?tail = "map rowPayload (rows rs) @ [terminator rs caps]"
  have ok: "list_all (row_ok (length (cols rs))) (rows rs)" "0 < length (cols rs)" using assms by (auto simp: resultSet_ok_def)
  obtain rd s where h: "reader_ok rd" "pending rd = stream s (separator rs caps @ ?tail) @ rest"
    "\<And>caps'. parseResultSet (encodeResultSet rs caps seq @ rest) caps' =
       do {
         rd \<leftarrow> (if \<not> has_bits caps' CLIENT_DEPRECATE_EOF then map_option snd (reader_next rd) else Some rd);
         (rws, st, wn) \<leftarrow> parseRows caps' (length (cols rs)) rd [];
         Some \<lparr>cols = cols rs, rows = rws, status = st, warnings = wn\<rparr>
       }"
    by (rule parse_head [OF assms]) blast
  have "parseRows caps (length (cols rs)) r [] = Some (rows rs, status rs, warnings rs)"
    if "reader_ok r" "pending r = stream q ?tail @ rest" for r q
    using parseRows_written [OF that ok, of caps "[]"] by (simp add: terminator_shape)
  moreover obtain rd3 q where "(if \<not> has_bits caps CLIENT_DEPRECATE_EOF then map_option snd (reader_next rd) else Some rd) = Some rd3"
    "reader_ok rd3" "pending rd3 = stream q ?tail @ rest"
  proof (cases "has_bits caps CLIENT_DEPRECATE_EOF")
    case True
    with h(1,2) that show ?thesis by simp
  next
    case False
    then have "pending rd = stream s (putU16 (putU16 [0xFE] (warnings rs)) (status rs) # ?tail) @ rest" using h(2) by simp
    from reader_next_stream [OF h(1) this] obtain m r where "reader_next rd = Some (m, r)" "reader_ok r" "pending r = stream (s + 1) ?tail @ rest" by metis
    with False that [of r] show ?thesis by simp
  qed
  ultimately show ?thesis by (simp add: h(3) split del: if_split)
qed


section \<open>Whatever parses can be carried again\<close>

lemma unpacket_body: "unpacket bs = Some (q, body, rest) \<Longrightarrow> length body + length rest \<le> length bs"
  by (auto simp: unpacket_def split: if_splits)

lemma reader_next_bound: "reader_next r = Some (m, r') \<Longrightarrow> reader_ok r \<Longrightarrow>
    length (payload m) \<le> length (pending r) \<and> length (pending r') \<le> length (pending r) \<and> reader_ok r'"
  using mr.nxt_SomeD [of r m r'] by (auto simp: cutMessage_def split: option.splits dest!: unframe_split)

lemma getLenEncStr_fits: "getLenEncStr d pos = Some (s, pos') \<Longrightarrow> length d < 2 ^ 64 \<Longrightarrow> fits s"
  by (auto simp: getLenEncStr_def fits_def dest!: readLenEncString_bounds)

lemma parseColumn_ok: "parseColumn m = Some c \<Longrightarrow> length (payload m) < 2 ^ 64 \<Longrightarrow> column_ok c"
  by (auto simp: parseColumn_def Let_def bind_eq_Some_conv column_ok_def dest: getLenEncStr_fits)

lemma parseCols_ok:
  "parseCols n rd acc = Some (cs, rd') \<Longrightarrow> reader_ok rd \<Longrightarrow> length (pending rd) < 2 ^ 64 \<Longrightarrow> list_all column_ok acc \<Longrightarrow>
    length cs = length acc + n \<and> list_all column_ok cs \<and> reader_ok rd' \<and> length (pending rd') < 2 ^ 64"
proof (induction n arbitrary: rd acc)
  case (Suc n)
  then obtain m rd1 c where m: "reader_next rd = Some (m, rd1)" "parseColumn m = Some c" "parseCols n rd1 (acc @ [c]) = Some (cs, rd')"
    by (auto split: option.splits)
  note b = reader_next_bound [OF m(1) Suc.prems(2)]
  then have "column_ok c" using parseColumn_ok [OF m(2)] Suc.prems(3) by simp
  with Suc.IH [OF m(3)] b Suc.prems(3,4) show ?case by simp
qed simp

lemma parseRowLoop_ok:
  "parseRowLoop d pos n acc = Some r \<Longrightarrow> length d < 2 ^ 64 \<Longrightarrow> list_all value_ok acc \<Longrightarrow>
    length r = length acc + n \<and> list_all value_ok r"
proof (induction n arbitrary: pos acc)
  case (Suc n)
  show ?case
  proof (cases "d ! pos = 0xFB")
    case True
    with Suc.prems Suc.IH [of "pos + 1" "acc @ [None]"] show ?thesis by (simp add: value_ok_def split: if_splits)
  next
    case False
    with Suc.prems obtain s pos' where g: "getLenEncStr d pos = Some (s, pos')" "parseRowLoop d pos' n (acc @ [Some s]) = Some r"
      by (auto split: if_splits option.splits)
    with Suc.IH [OF g(2)] Suc.prems show ?thesis by (simp add: value_ok_def getLenEncStr_fits)
  qed
qed simp

lemma parseRows_ok:
  "parseRows caps n rd acc = Some (rws, st, wn) \<Longrightarrow> reader_ok rd \<Longrightarrow> length (pending rd) < 2 ^ 64 \<Longrightarrow>
    list_all (row_ok n) acc \<Longrightarrow> list_all (row_ok n) rws"
proof (induction caps n rd acc rule: parseRows.induct)
  case (1 caps n rd acc)
  from "1.prems"(1) obtain m rd1 where m: "reader_next rd = Some (m, rd1)" "payload m \<noteq> []" "payload m ! 0 \<noteq> 0xFF"
    by (subst (asm) parseRows.simps) (auto simp: Let_def split: option.splits if_splits)
  note b = reader_next_bound [OF m(1) "1.prems"(2)]
  show ?case
  proof (cases "payload m ! 0 = 0xFE \<and> length (payload m) < 9")
    case True
    with "1.prems" m show ?thesis by (simp add: parseRows.simps [of _ _ rd] Let_def)
  next
    case False
    with "1.prems"(1) m obtain r where r: "parseRow m n = Some r" "parseRows caps n rd1 (acc @ [r]) = Some (rws, st, wn)"
      by (subst (asm) parseRows.simps) (auto simp: Let_def split: option.splits)
    have "row_ok n r" using parseRowLoop_ok [of "payload m" 0 n "[]" r] r(1) b "1.prems"(3)
      by (simp add: parseRow_def row_ok_def)
    with "1.IH" [OF m(1) refl refl refl m(2,3) False r(1) r(2)] b "1.prems" show ?thesis by simp
  qed
qed

lemma parseResultSet_ok:
  assumes "parseResultSet data caps = Some rs" "length data < 2 ^ 64"
  shows "resultSet_ok rs"
proof -
  let ?rd = "reader_append new_reader data"
  have rd: "reader_ok ?rd" "pending ?rd = data" by (simp_all add: framing_simps)
  from assms(1) obtain m rd1 cs rd2 rd3 rws st wn and n :: u64 where
    p: "reader_next ?rd = Some (m, rd1)" "n \<noteq> 0" "parseCols (unat n) rd1 [] = Some (cs, rd2)"
      "(if \<not> has_bits caps CLIENT_DEPRECATE_EOF then map_option snd (reader_next rd2) else Some rd2) = Some rd3"
      "parseRows caps (length cs) rd3 [] = Some (rws, st, wn)"
    and rs: "rs = \<lparr>cols = cs, rows = rws, status = st, warnings = wn\<rparr>"
    by (auto simp: parseResultSet_def bind_eq_Some_conv split del: if_split)
  note b1 = reader_next_bound [OF p(1) rd(1)]
  have c: "length cs = unat n" "list_all column_ok cs" "reader_ok rd2" "length (pending rd2) < 2 ^ 64"
    using parseCols_ok [OF p(3)] b1 rd(2) assms(2) by auto
  have b3: "reader_ok rd3 \<and> length (pending rd3) < 2 ^ 64"
    using p(4) c(3,4) by (auto split: if_splits dest!: reader_next_bound)
  then have "list_all (row_ok (length cs)) rws" using parseRows_ok [OF p(5)] by simp
  moreover have "cs \<noteq> []" using c(1) p(2) by (auto simp: unat_eq_0)
  moreover have "length cs < 2 ^ 64" using c(1) unsigned_less [of n, where 'a = nat] by simp
  ultimately show ?thesis using c(2) by (simp add: rs resultSet_ok_def)
qed

section \<open>Sequence ids\<close>

definition numbered :: "u8 \<Rightarrow> bytes list \<Rightarrow> (u8 \<times> bytes) list" where
  "numbered seq pls = map (\<lambda>i. (seq + of_nat i, pls ! i)) [0..<length pls]"

lemma numbered_Cons: "numbered seq (p # pls) = (seq, p) # numbered (seq + 1) pls"
  by (simp add: numbered_def upt_conv_Cons map_Suc_upt [symmetric] add_ac del: upt_Suc)

lemma packets_stream:
  "list_all (\<lambda>p. length p < kMaxPayload) pls \<Longrightarrow> packets (stream seq pls) = Some (numbered seq pls)"
proof (induction pls arbitrary: seq)
  case Nil
  then show ?case by (simp add: packets.simps numbered_def)
next
  case (Cons p pls)
  then show ?case
    using packets_frames [of seq p "stream (seq + 1) pls"]
    by (simp add: encodeMessage_frames frames.simps [of seq p] numbered_Cons)
qed

lemma packets_emit2:
  "packets (fst (emit (emit ([], seq) p) q)) = Some (frames seq p @ frames (seq + 1) q)"
  using packets_frames [of seq p "concat (map packet (frames (seq + 1) q))"] packets_frames [of "seq + 1" q "[]"]
  by (simp add: emit_pair encodeMessage_frames packets.simps [of "[]"])


section \<open>Properties\<close>

definition demoColumn :: column where
  "demoColumn = \<lparr>catalog = [100, 101, 102], schema = [], tbl = [116], org_table = [116], col_name = [97],
     org_name = [97], col_charset = 33, col_length = 11, col_type = 3, col_flags = 0, decimals = 0\<rparr>"

definition demoResult :: resultSet where
  "demoResult = \<lparr>cols = [demoColumn], rows = [[Some [49]], [None]], status = 2, warnings = 0\<rparr>"

lemma demoResult_ok [simp]: "resultSet_ok demoResult"
  by (simp add: resultSet_ok_def demoResult_def demoColumn_def column_ok_def row_ok_def value_ok_def fits_def)

text \<open>
  Whatever a result set holds, encoding it for a connection and parsing the bytes under the same
  capabilities gives the result set back, with or without an EOF separator and for every starting
  sequence id; bytes after the terminator are not read.
\<close>

theorem resultset_roundtrip:
  assumes "resultSet_ok rs"
  shows "parseResultSet (encodeResultSet rs caps seq @ rest) caps = Some rs"
  by (rule parse_encoded [OF assms])

theorem resultset_roundtrip_witness:
  "parseResultSet (encodeResultSet demoResult 0 1 @ [7]) 0 = Some demoResult"
  by (rule resultset_roundtrip) simp

text \<open>
  C8: a response captured on one connection can be served on any other. Whatever \<open>parseResultSet\<close>
  accepts under the capturing connection's capabilities, the encoding for a connection with other
  capabilities and another sequence number parses there to the very same columns, rows, status and
  warnings.
\<close>

theorem resultset_reframing:
  assumes "parseResultSet data caps = Some rs" "length data < 2 ^ 64"
  shows "parseResultSet (encodeResultSet rs caps' seq) caps' = Some rs"
  using parse_encoded [OF parseResultSet_ok [OF assms], of caps' seq "[]"] by simp

theorem resultset_reframing_witness:
  "parseResultSet (encodeResultSet demoResult CLIENT_DEPRECATE_EOF 9) CLIENT_DEPRECATE_EOF = Some demoResult"
proof (rule resultset_reframing)
  show "parseResultSet (encodeResultSet demoResult 0 1) 0 = Some demoResult"
    using parse_encoded [of demoResult 0 1 "[]"] by simp
  show "length (encodeResultSet demoResult 0 1) < 2 ^ 64"
    by (simp add: encodeResultSet_stream payloads_def demoResult_def demoColumn_def columnPayload_def rowPayload_def
        terminator_def encodeMessage_frames frames.simps kMaxPayload_def putLenEncStr_def putU32_def putBytes_append
        putLenEnc_def header_def has_bits_def)
qed

text \<open>
  As long as no packet body reaches the maximum payload, the encoded response is a sequence of
  packets numbered one by one from the id it was asked to start at, in the order column count, columns,
  separator, rows, terminator; renumbering it from another id gives exactly the encoding from that id.
\<close>

theorem resultset_numbering:
  assumes "list_all (\<lambda>p. length p < kMaxPayload) (payloads rs caps)"
  shows "packets (encodeResultSet rs caps seq) = Some (numbered seq (payloads rs caps))
    \<and> renumber (encodeResultSet rs caps seq) seq' = (True, encodeResultSet rs caps seq')"
proof -
  let ?ps = "payloads rs caps"
  have restamp: "restamp q (numbered s pls) = numbered q pls" for q s pls
  proof (induction pls arbitrary: q s)
    case Nil
    then show ?case by (simp add: numbered_def)
  qed (simp add: numbered_Cons)
  have stream: "list_all (\<lambda>p. length p < kMaxPayload) pls \<Longrightarrow> concat (map packet (numbered q pls)) = stream q pls" for q pls
  proof (induction pls arbitrary: q)
    case Nil
    then show ?case by (simp add: numbered_def)
  qed (simp add: numbered_Cons encodeMessage_frames frames.simps [of _ "_ :: bytes"])
  have p: "packets (encodeResultSet rs caps seq) = Some (numbered seq ?ps)"
    using packets_stream [OF assms] by (simp add: encodeResultSet_stream)
  then show ?thesis
    using renumber_packets [OF p, of seq'] stream [OF assms] by (simp add: restamp encodeResultSet_stream)
qed

theorem resultset_numbering_witness:
  "packets (encodeResultSet demoResult 0 1) = Some (numbered 1 (payloads demoResult 0))
    \<and> renumber (encodeResultSet demoResult 0 1) 5 = (True, encodeResultSet demoResult 0 5)"
  by (rule resultset_numbering)
    (simp add: payloads_def demoResult_def demoColumn_def columnPayload_def rowPayload_def
        terminator_def kMaxPayload_def putLenEncStr_def putLenEnc_def has_bits_def)

text \<open>
  Beyond that size the numbering breaks. \<open>emit\<close> advances the sequence id by one whatever the body
  needed, so after a body that is split over several packets the next packet reuses the id of a
  continuation packet: two packets of one response carry the same id.
\<close>

theorem emit_reuses_sequence_id:
  assumes "kMaxPayload \<le> length big"
  shows "\<exists>ps k. packets (fst (emit (emit ([], seq) big) body)) = Some ps
    \<and> 1 < k \<and> k < length ps \<and> fst (ps ! 1) = seq + 1 \<and> fst (ps ! k) = seq + 1"
proof (intro exI conjI)
  have b: "frames seq big = (seq, take kMaxPayload big) # frames (seq + 1) (drop kMaxPayload big)"
    using assms by (subst frames.simps) simp
  have first: "\<exists>x xs. frames q pl = (q, x) # xs" for q pl by (subst frames.simps) auto
  show "packets (fst (emit (emit ([], seq) big) body)) = Some (frames seq big @ frames (seq + 1) body)"
    by (rule packets_emit2)
  show "1 < length (frames seq big)" "fst ((frames seq big @ frames (seq + 1) body) ! 1) = seq + 1"
    using b first [of "seq + 1" "drop kMaxPayload big"] by auto
  show "length (frames seq big) < length (frames seq big @ frames (seq + 1) body)"
    "fst ((frames seq big @ frames (seq + 1) body) ! length (frames seq big)) = seq + 1"
    using first [of "seq + 1" body] by auto
qed

theorem emit_reuses_sequence_id_witness:
  "\<exists>ps k. packets (fst (emit (emit ([], 1) (replicate kMaxPayload 0)) [0xFE])) = Some ps
    \<and> 1 < k \<and> k < length ps \<and> fst (ps ! 1) = 1 + 1 \<and> fst (ps ! k) = 1 + 1"
  by (rule emit_reuses_sequence_id) simp

end
