(* ===== verification/Session.thy ===== *)
theory Session
  imports ResultSet
begin

text \<open>
  The per-connection state machines of \<open>src/src/common/session.{h,cpp}\<close>: the request side, which
  assembles commands from the bytes handed to \<open>SSL_write\<close>, the response side, which finds where a
  response ends and whether it may be cached, and the connection record that holds both.
\<close>

section \<open>RequestTracker\<close>

record requestTracker =
  rq_reader :: reader
  rq_caps :: u32
  last_cmd :: u8
  rq_last_seq :: u8

definition new_request :: requestTracker where
  "new_request = \<lparr>rq_reader = new_reader, rq_caps = 0, last_cmd = 0, rq_last_seq = 0\<rparr>"

definition request_begin :: "requestTracker \<Rightarrow> u32 \<Rightarrow> requestTracker" where
  "request_begin t c = t\<lparr>rq_caps := c, last_cmd := 0, rq_last_seq := 0, rq_reader := reader_reset (rq_reader t)\<rparr>"

definition request_reset :: "requestTracker \<Rightarrow> requestTracker" where
  "request_reset t = t\<lparr>last_cmd := 0, rq_last_seq := 0, rq_reader := reader_reset (rq_reader t)\<rparr>"

function request_next :: "requestTracker \<Rightarrow> bytes option \<times> requestTracker" where
  "request_next t =
     (case reader_next (rq_reader t) of
        None \<Rightarrow> (None, t)
      | Some (m, rd) \<Rightarrow>
          let t = t\<lparr>rq_reader := rd\<rparr> in
          if payload m = [] then request_next t
          else let t = t\<lparr>last_cmd := payload m ! 0, rq_last_seq := last_seq m\<rparr> in
            if payload m ! 0 \<noteq> COM_QUERY then request_next t
            else (case extractQuery (payload m) (rq_caps t) of
                    None \<Rightarrow> request_next t
                  | Some q \<Rightarrow> (Some q, t)))"
  by pat_completeness auto
termination
  by (relation "measure (\<lambda>t. buffered (rq_reader t))") (auto dest: reader_next_shrinks)

definition request_feed :: "requestTracker \<Rightarrow> bytes \<Rightarrow> bytes option \<times> requestTracker" where
  "request_feed t data =
     (let t = (if length data > 0 then t\<lparr>rq_reader := reader_append (rq_reader t) data\<rparr> else t)
      in request_next t)"

definition request_buffered :: "requestTracker \<Rightarrow> nat" where
  "request_buffered t = buffered (rq_reader t)"

section \<open>ResponseTracker\<close>

datatype respState = Init | ColumnDefs | ColumnEof | Rows | Done

record responseTracker =
  rt_state :: respState
  rt_caps :: u32
  columns_left :: u64
  rt_poisoned :: bool
  rt_in_transaction :: bool

definition new_response :: responseTracker where
  "new_response = \<lparr>rt_state = Init, rt_caps = 0, columns_left = 0, rt_poisoned = False, rt_in_transaction = False\<rparr>"

definition response_begin :: "responseTracker \<Rightarrow> u32 \<Rightarrow> responseTracker" where
  "response_begin t caps = t\<lparr>rt_state := Init, rt_caps := caps, columns_left := 0,
     rt_poisoned := False, rt_in_transaction := False\<rparr>"

text \<open>\<open>got\<close> and \<open>status\<close> of \<open>finish\<close> are one option here: a packet that did not parse leaves no status.\<close>

definition finish :: "responseTracker \<Rightarrow> message \<Rightarrow> responseTracker" where
  "finish t msg =
     (let p = payload msg; n = length p;
          got = (if n \<ge> 1 \<and> p ! 0 = 0xFE \<and> n < 9 \<and> \<not> has_bits (rt_caps t) CLIENT_DEPRECATE_EOF
                 then map_option eof_status_flags (parseEof p)
                 else map_option ok_status_flags (parseOk p (rt_caps t)));
          t = (case got of
                 None \<Rightarrow> t
               | Some st \<Rightarrow>
                   let t = t\<lparr>rt_in_transaction := has_bits st SERVER_STATUS_IN_TRANS\<rparr>
                   in if has_bits st SERVER_MORE_RESULTS_EXISTS then t\<lparr>rt_poisoned := True\<rparr> else t)
      in t\<lparr>rt_state := Done\<rparr>)"

definition poison :: "responseTracker \<Rightarrow> responseTracker" where
  "poison t = t\<lparr>rt_poisoned := True, rt_state := Done\<rparr>"

definition response_feed :: "responseTracker \<Rightarrow> message \<Rightarrow> bool \<times> responseTracker" where
  "response_feed t msg =
     (let p = payload msg; n = length p in
      if rt_state t = Done then (True, t)
      else if n = 0 then (False, t)
      else case rt_state t of
        Init \<Rightarrow>
          (case classifyResponse p (rt_caps t) of
             Ok \<Rightarrow> (True, finish t msg)
           | Err \<Rightarrow> (True, poison t)
           | LocalInfile \<Rightarrow> (True, poison t)
           | Eof \<Rightarrow> (True, finish t msg)
           | ResultSetKind \<Rightarrow>
               (case readLenEnc p 0 of
                  None \<Rightarrow> (True, poison t)
                | Some (ncols, _) \<Rightarrow>
                    if ncols = 0 then (True, poison t)
                    else (False, t\<lparr>columns_left := ncols, rt_state := ColumnDefs\<rparr>))
           | Unknown \<Rightarrow> (True, poison t))
      | ColumnDefs \<Rightarrow>
          (let t = (if columns_left t > 0 then t\<lparr>columns_left := columns_left t - 1\<rparr> else t);
               t = (if columns_left t = 0
                    then t\<lparr>rt_state := (if has_bits (rt_caps t) CLIENT_DEPRECATE_EOF then Rows else ColumnEof)\<rparr>
                    else t)
           in (False, t))
      | ColumnEof \<Rightarrow> (False, t\<lparr>rt_state := Rows\<rparr>)
      | Rows \<Rightarrow>
          (let h = p ! 0 in
           if h = 0xFF then (True, poison t)
           else if h = 0xFE \<and> n < 9 then (True, finish t msg)
           else (False, t))
      | Done \<Rightarrow> (True, t))"

definition complete :: "responseTracker \<Rightarrow> bool" where
  "complete t \<longleftrightarrow> rt_state t = Done"

section \<open>Connection\<close>

record connection =
  server_caps :: u32
  con_caps :: u32
  handshake_done :: bool
  tls :: bool
  in_transaction :: bool
  awaiting_response :: bool
  pending_query :: bytes
  capturing :: bool
  response_reader :: reader
  tracker :: responseTracker
  captured :: bytes

definition connection_reset :: "connection \<Rightarrow> connection" where
  "connection_reset c = c\<lparr>awaiting_response := False, pending_query := [], capturing := False,
     captured := [], response_reader := reader_reset (response_reader c)\<rparr>"

declare request_next.simps [simp del]

section \<open>Draining requests\<close>

text \<open>
  The callers feed one buffer and then call \<open>next\<close> until it returns false; \<open>request_run\<close> does this for
  a sequence of buffers. The specification is per command: what one command payload says.
\<close>

definition statement :: "u32 \<Rightarrow> bytes \<Rightarrow> bytes option" where
  "statement caps p = (if p = [] \<or> p ! 0 \<noteq> COM_QUERY then None else extractQuery p caps)"

definition noted :: "requestTracker \<Rightarrow> message \<Rightarrow> reader \<Rightarrow> requestTracker" where
  "noted t m rd = (if payload m = [] then t\<lparr>rq_reader := rd\<rparr>
     else t\<lparr>rq_reader := rd, last_cmd := payload m ! 0, rq_last_seq := last_seq m\<rparr>)"

lemma request_next_step:
  "request_next t =
     (case reader_next (rq_reader t) of
        None \<Rightarrow> (None, t)
      | Some (m, rd) \<Rightarrow>
          (case statement (rq_caps t) (payload m) of
             None \<Rightarrow> request_next (noted t m rd)
           | Some q \<Rightarrow> (Some q, noted t m rd)))"
  by (subst request_next.simps) (auto simp: statement_def noted_def Let_def split: option.splits)

lemma noted_simps [simp]: "rq_reader (noted t m rd) = rd" "rq_caps (noted t m rd) = rq_caps t"
  by (simp_all add: noted_def)

lemma request_next_buffered:
  "request_next t = (q, t') \<Longrightarrow> buffered (rq_reader t') \<le> buffered (rq_reader t) \<and>
    (q \<noteq> None \<longrightarrow> buffered (rq_reader t') < buffered (rq_reader t))"
proof (induction "buffered (rq_reader t)" arbitrary: t rule: less_induct)
  case less
  show ?case
  proof (cases "reader_next (rq_reader t)")
    case None
    with less.prems show ?thesis by (simp add: request_next_step [of t])
  next
    case (Some a)
    then obtain m rd where a: "reader_next (rq_reader t) = Some (m, rd)" by (cases a) auto
    note sh = reader_next_shrinks [OF a]
    show ?thesis
    proof (cases "statement (rq_caps t) (payload m)")
      case None
      then have "request_next (noted t m rd) = (q, t')" using less.prems a by (simp add: request_next_step [of t])
      from less.hyps [OF _ this] sh show ?thesis by auto
    qed (use less.prems a sh in \<open>auto simp: request_next_step [of t]\<close>)
  qed
qed

function request_drain :: "requestTracker \<Rightarrow> bytes list \<times> requestTracker" where
  "request_drain t =
     (case request_next t of
        (None, t') \<Rightarrow> ([], t')
      | (Some q, t') \<Rightarrow> (case request_drain t' of (qs, t'') \<Rightarrow> (q # qs, t'')))"
  by pat_completeness auto
termination
  by (relation "measure (\<lambda>t. buffered (rq_reader t))") (auto dest!: request_next_buffered [OF sym])

declare request_drain.simps [simp del]

fun request_run :: "requestTracker \<Rightarrow> bytes list \<Rightarrow> bytes list \<times> requestTracker" where
  "request_run t [] = ([], t)"
| "request_run t (c # cs) =
     (case request_feed t c of
        (None, t) \<Rightarrow> request_run t cs
      | (Some q, t) \<Rightarrow>
          (case request_drain t of (qs, t) \<Rightarrow> (case request_run t cs of (qs', t) \<Rightarrow> (q # qs @ qs', t))))"

lemma request_drain_step:
  "request_drain t =
     (case reader_next (rq_reader t) of
        None \<Rightarrow> ([], t)
      | Some (m, rd) \<Rightarrow>
          (case statement (rq_caps t) (payload m) of
             None \<Rightarrow> request_drain (noted t m rd)
           | Some q \<Rightarrow> (case request_drain (noted t m rd) of (qs, t') \<Rightarrow> (q # qs, t'))))"
  by (subst request_drain.simps, subst request_next_step)
     (auto simp: request_drain.simps [of "noted _ _ _"] split: option.split prod.split)

lemma request_run_Cons:
  "request_run t (c # cs) =
    (case request_drain (t\<lparr>rq_reader := reader_append (rq_reader t) c\<rparr>) of
       (qs, t) \<Rightarrow> (case request_run t cs of (qs', t) \<Rightarrow> (qs @ qs', t)))"
proof -
  have "(if length c > 0 then t\<lparr>rq_reader := reader_append (rq_reader t) c\<rparr> else t)
      = t\<lparr>rq_reader := reader_append (rq_reader t) c\<rparr>"
    by (simp add: reader_append_def)
  then show ?thesis
    by (simp add: request_feed_def request_drain.simps [of "t\<lparr>rq_reader := _\<rparr>"] split: option.split prod.split)
qed

lemma request_drain_pulls:
  "pulls reader_next (rq_reader t) ms r' \<Longrightarrow>
    fst (request_drain t) = List.map_filter (\<lambda>m. statement (rq_caps t) (payload m)) ms
    \<and> rq_reader (snd (request_drain t)) = r' \<and> rq_caps (snd (request_drain t)) = rq_caps t"
proof (induction ms arbitrary: t)
  case Nil
  then show ?case by (simp add: request_drain_step [of t] map_filter_simps)
next
  case (Cons m ms)
  then obtain r1 where r1: "reader_next (rq_reader t) = Some (m, r1)" "pulls reader_next r1 ms r'" by auto
  with Cons.IH [of "noted t m r1"] show ?case
    by (auto simp: request_drain_step [of t] map_filter_simps split: option.split prod.splits)
qed

lemma request_run_feeds:
  "reader_ok (rq_reader t) \<Longrightarrow> \<exists>ms r'. feeds reader_append reader_next (rq_reader t) cs ms r'
    \<and> fst (request_run t cs) = List.map_filter (\<lambda>m. statement (rq_caps t) (payload m)) ms
    \<and> rq_reader (snd (request_run t cs)) = r'"
proof (induction cs arbitrary: t)
  case Nil
  then show ?case by (simp add: map_filter_simps)
next
  case (Cons c cs)
  let ?t = "t\<lparr>rq_reader := reader_append (rq_reader t) c\<rparr>"
  obtain ms1 r1 where p: "pulls reader_next (rq_reader ?t) ms1 r1" and ok1: "reader_ok r1"
    using mr.pulls_total [of "rq_reader ?t"] Cons.prems by (auto simp: framing_simps)
  note d = request_drain_pulls [OF p]
  obtain ms2 r2 where "feeds reader_append reader_next r1 cs ms2 r2"
    "fst (request_run (snd (request_drain ?t)) cs) = List.map_filter (\<lambda>m. statement (rq_caps t) (payload m)) ms2"
    "rq_reader (snd (request_run (snd (request_drain ?t)) cs)) = r2"
    using Cons.IH [of "snd (request_drain ?t)"] d ok1 by auto
  with p d show ?case
    unfolding request_run_Cons
    by (intro exI [of _ "ms1 @ ms2"] exI [of _ r2])
       (auto simp: map_filter_def split: prod.split)
qed

lemma pulls_stream0:
  "reader_ok r \<Longrightarrow> pending r = concat (map (\<lambda>p. encodeMessage p q) pls) \<Longrightarrow>
    \<exists>ms r'. pulls reader_next r ms r' \<and> map payload ms = pls \<and> pending r' = []"
proof (induction pls arbitrary: r)
  case Nil
  then have "reader_next r = None"
    by (simp add: reader_next_unframe unframe.simps [of "[]"] unpacket_def)
  with Nil show ?case by (intro exI [of _ "[]"]) auto
next
  case (Cons p pls)
  then have "pending r = encodeMessage p q @ concat (map (\<lambda>p. encodeMessage p q) pls)" by simp
  from reader_next_encoded [OF Cons.prems(1) this] obtain m r1 where
    m: "reader_next r = Some (m, r1)" "payload m = p" "reader_ok r1"
      "pending r1 = concat (map (\<lambda>p. encodeMessage p q) pls)" by force
  from Cons.IH [OF m(3,4)] obtain ms r' where "pulls reader_next r1 ms r'" "map payload ms = pls" "pending r' = []" by blast
  with m show ?case by (intro exI [of _ "m # ms"]) auto
qed

lemma pulls_unique: "pulls nxt r ms r1 \<Longrightarrow> pulls nxt r ms' r2 \<Longrightarrow> ms = ms' \<and> r1 = r2"
proof (induction ms arbitrary: r ms')
  case Nil
  then show ?case by (cases ms') auto
next
  case (Cons m ms)
  then show ?case by (cases ms') fastforce+
qed


lemma request_run_stream:
  assumes "reader_ok (rq_reader t)" "pending (rq_reader t) = []" "cs \<noteq> []"
    "concat cs = concat (map (\<lambda>p. encodeMessage p q) cmds)"
  shows "fst (request_run t cs) = List.map_filter (statement (rq_caps t)) cmds
    \<and> pending (rq_reader (snd (request_run t cs))) = []"
proof -
  obtain ms r' where f: "feeds reader_append reader_next (rq_reader t) cs ms r'"
    and out: "fst (request_run t cs) = List.map_filter (\<lambda>m. statement (rq_caps t) (payload m)) ms"
      "rq_reader (snd (request_run t cs)) = r'"
    using request_run_feeds [OF assms(1)] by blast
  obtain r'' where p: "pulls reader_next (reader_append (rq_reader t) (concat cs)) ms r''" "pending r'' = pending r'"
    using mr.feeds_concat [OF assms(1) f assms(3)] by blast
  have "pending (reader_append (rq_reader t) (concat cs)) = concat (map (\<lambda>p. encodeMessage p q) cmds)"
    "reader_ok (reader_append (rq_reader t) (concat cs))"
    using assms by (simp_all add: framing_simps)
  from pulls_stream0 [OF this(2,1)] obtain ms' r3
    where q: "pulls reader_next (reader_append (rq_reader t) (concat cs)) ms' r3" "map payload ms' = cmds" "pending r3 = []"
    by blast
  moreover have "ms = ms'" "r'' = r3" using pulls_unique [OF p(1) q(1)] by simp_all
  ultimately show ?thesis using out p(2) by (auto simp: map_filter_def comp_def filter_map)
qed

section \<open>Walking a response\<close>

text \<open>Feeding a list of messages, stopping at the one that completes the response.\<close>

fun walk :: "responseTracker \<Rightarrow> message list \<Rightarrow> (responseTracker \<times> message list) option" where
  "walk t [] = None"
| "walk t (m # ms) = (case response_feed t m of (True, t) \<Rightarrow> Some (t, ms) | (False, t) \<Rightarrow> walk t ms)"

definition tracker_ok :: "responseTracker \<Rightarrow> bool" where
  "tracker_ok t \<longleftrightarrow> (rt_state t = ColumnDefs \<longrightarrow> columns_left t \<noteq> 0)"

lemma finish_simps [simp]: "rt_state (finish t m) = Done" "rt_caps (finish t m) = rt_caps t"
  "rt_state (poison t) = Done" "rt_poisoned (poison t)" "rt_caps (poison t) = rt_caps t"
  by (auto simp: finish_def poison_def Let_def split: option.split)

lemma response_feed_complete: "fst (response_feed t m) = complete (snd (response_feed t m))"
  by (auto simp: response_feed_def complete_def Let_def
      split: if_splits respState.splits responseKind.splits option.splits prod.splits)

lemma response_feed_done: "complete t \<Longrightarrow> response_feed t m = (True, t)"
  by (simp add: response_feed_def complete_def)

lemma tracker_ok_feed: "tracker_ok t \<Longrightarrow> tracker_ok (snd (response_feed t m))"
  by (cases "rt_state t") (auto simp: response_feed_def tracker_ok_def Let_def
      split: if_splits responseKind.splits option.splits prod.splits)

lemma response_feed_caps: "rt_caps (snd (response_feed t m)) = rt_caps t"
  by (auto simp: response_feed_def Let_def
      split: if_splits respState.splits responseKind.splits option.splits prod.splits)

lemma walk_columns:
  "rt_state t = ColumnDefs \<Longrightarrow> unat (columns_left t) = length cms \<Longrightarrow> cms \<noteq> [] \<Longrightarrow>
    list_all (\<lambda>m. payload m \<noteq> []) cms \<Longrightarrow>
    walk t (cms @ ms) = walk (t\<lparr>columns_left := 0,
      rt_state := (if has_bits (rt_caps t) CLIENT_DEPRECATE_EOF then Rows else ColumnEof)\<rparr>) ms"
proof (induction cms arbitrary: t)
  case (Cons m cms)
  have pos: "columns_left t > 0" using Cons.prems(2) by (simp add: word_less_nat_alt)
  then have left: "unat (columns_left t - 1) = length cms"
    using Cons.prems(2) by (simp add: unat_minus_one word_neq_0_conv)
  show ?case
  proof (cases "cms = []")
    case True
    then have "columns_left t - 1 = 0" using left by (simp add: unat_eq_0)
    then show ?thesis using True Cons.prems pos by (simp add: response_feed_def Let_def)
  next
    case False
    then have "columns_left t - 1 \<noteq> 0" using left by (metis length_0_conv unsigned_0)
    then have "response_feed t m = (False, t\<lparr>columns_left := columns_left t - 1\<rparr>)"
      using Cons.prems pos by (simp add: response_feed_def Let_def)
    with Cons.IH [of "t\<lparr>columns_left := columns_left t - 1\<rparr>"] Cons.prems left False show ?thesis by simp
  qed
qed simp

lemma walk_rows:
  "rt_state t = Rows \<Longrightarrow> list_all (\<lambda>m. payload m \<noteq> [] \<and> payload m ! 0 \<noteq> 0xFF
      \<and> \<not> (payload m ! 0 = 0xFE \<and> length (payload m) < 9)) rms \<Longrightarrow>
    walk t (rms @ ms) = walk t ms"
  by (induction rms) (auto simp: response_feed_def Let_def)

lemma finish_terminator:
  assumes "payload m = terminator rs caps" "rt_caps t = caps"
    "has_bits caps CLIENT_DEPRECATE_EOF \<longrightarrow> has_bits caps (CLIENT_PROTOCOL_41 OR CLIENT_TRANSACTIONS)"
  shows "finish t m = t\<lparr>rt_in_transaction := has_bits (status rs) SERVER_STATUS_IN_TRANS,
    rt_poisoned := rt_poisoned t \<or> has_bits (status rs) SERVER_MORE_RESULTS_EXISTS, rt_state := Done\<rparr>"
proof (cases "has_bits caps CLIENT_DEPRECATE_EOF")
  case True
  let ?d = "terminator rs caps"
  have d: "?d = [0xFE, 0, 0] @ putU16 [] (status rs) @ putU16 [] (warnings rs)"
    using True by (simp add: terminator_def Let_def putU16_def putLenEnc_def)
  have r: "readLenEnc ?d 1 = Some (0, 2)" "readLenEnc ?d 2 = Some (0, 3)" "length ?d = 7"
    by (auto simp: readLenEnc_def d)
  have "drop 3 ?d = putU16 [] (status rs) @ putU16 [] (warnings rs)" by (simp add: d)
  from readU16_at [OF this] have "readU16 ?d 3 = status rs" by blast
  then obtain z where "parseOk ?d caps = Some z" "ok_status_flags z = status rs"
    using assms(3) True r terminator_shape(1,3) [where rs = rs and caps = caps]
    by (cases "has_bits caps CLIENT_PROTOCOL_41") (auto simp: parseOk_def Let_def)
  then show ?thesis using True assms(1,2) by (simp add: finish_def Let_def)
next
  case False
  obtain z where "parseEof (terminator rs caps) = Some z" "eof_status_flags z = status rs"
    using terminator_shape [where rs = rs and caps = caps] False
    by (auto simp: parseEof_def readTerminator_def split: if_splits)
       (auto simp: terminator_def Let_def putU16_def)
  then show ?thesis using False assms(1,2) terminator_shape [where rs = rs and caps = caps]
    by (simp add: finish_def Let_def Suc_le_eq)
qed

abbreviation tracking :: "u32 \<Rightarrow> respState \<Rightarrow> responseTracker" where
  "tracking caps st \<equiv> \<lparr>rt_state = st, rt_caps = caps, columns_left = 0, rt_poisoned = False, rt_in_transaction = False\<rparr>"

lemma response_begin_tracking: "response_begin t caps = tracking caps Init"
  by (rule responseTracker.equality) (simp_all add: response_begin_def)

text \<open>Up to the end of the columns, the tracker follows an encoded response whatever framing it expects.\<close>

lemma walk_head:
  assumes "resultSet_ok rs" "map payload ms = payloads rs caps"
  obtains ems rms tm where "map payload ems = separator rs caps" "map payload rms = map rowPayload (rows rs)" "payload tm = terminator rs caps"
    "\<And>t tcaps tl_ms. walk (response_begin t tcaps) (ms @ tl_ms) =
       walk (tracking tcaps (if has_bits tcaps CLIENT_DEPRECATE_EOF then Rows else ColumnEof)) (ems @ rms @ tm # tl_ms)"
proof -
  let ?n = "of_nat (length (cols rs)) :: u64"
  from assms(2) obtain m0 cms ems rms tm where ms: "ms = m0 # cms @ ems @ rms @ [tm]"
    and p: "payload m0 = putLenEnc [] ?n" "map payload cms = map columnPayload (cols rs)"
      "map payload ems = separator rs caps" "map payload rms = map rowPayload (rows rs)" "payload tm = terminator rs caps"
    by (auto simp: payloads_def map_eq_Cons_conv map_eq_append_conv append_eq_map_conv split del: if_split)
  have ok: "cols rs \<noteq> []" and n: "unat ?n = length (cols rs)"
    using assms(1) by (auto simp: resultSet_ok_def unat_of_nat take_bit_nat_eq_self)
  then have n0: "?n \<noteq> 0" by (metis length_0_conv unsigned_0)
  have cnt: "readLenEnc (payload m0) 0 = Some (?n, length (putLenEnc [] ?n))"
    using readLenEnc_put [of "[]" ?n "[]"] p(1) by simp
  have lc: "length cms = length (cols rs)" using p(2) map_eq_imp_length_eq by blast
  have "columnPayload c \<noteq> []" for c by (simp add: columnPayload_def Let_def putU16_def)
  then have ne: "list_all (\<lambda>m. payload m \<noteq> []) cms"
    using p(2) unfolding list_all_iff by (metis (no_types, opaque_lifting) imageE list.set_map image_eqI)
  have "cms \<noteq> []" using lc ok by auto
  then have "walk (response_begin t tcaps) (ms @ tl_ms) =
       walk (tracking tcaps (if has_bits tcaps CLIENT_DEPRECATE_EOF then Rows else ColumnEof)) (ems @ rms @ tm # tl_ms)" for t tcaps tl_ms
    using walk_columns [of "(tracking tcaps ColumnDefs)\<lparr>columns_left := ?n\<rparr>" cms] cnt n0 p(1) lc n ne
    by (simp add: ms response_feed_def response_begin_tracking classify_count Let_def)
  then show thesis by (rule that [OF p(3-5)])
qed

lemma walk_row_messages:
  assumes "resultSet_ok rs" "map payload rms = map rowPayload rws" "set rws \<subseteq> set (rows rs)" "rt_state t = Rows"
  shows "walk t (rms @ ms) = walk t ms"
proof -
  have ok: "cols rs \<noteq> []" "list_all (row_ok (length (cols rs))) rws" using assms(1,3) by (auto simp: resultSet_ok_def list_all_iff)
  have "list_all (\<lambda>p. p \<noteq> [] \<and> p ! 0 \<noteq> 0xFF \<and> \<not> (p ! 0 = 0xFE \<and> length p < 9)) (map rowPayload rws)"
    using ok rowPayload_is_row by (fastforce simp: list_all_iff)
  then have "list_all (\<lambda>m. payload m \<noteq> [] \<and> payload m ! 0 \<noteq> 0xFF \<and> \<not> (payload m ! 0 = 0xFE \<and> length (payload m) < 9)) rms"
    unfolding assms(2) [symmetric] by (simp add: list_all_iff)
  then show ?thesis by (rule walk_rows [OF assms(4)])
qed

lemma walk_terminator:
  assumes "payload tm = terminator rs caps" "rt_state t = Rows"
  shows "walk t (tm # ms) = Some (finish t tm, ms)"
  using assms terminator_shape [where rs = rs and caps = caps] by (simp add: response_feed_def Let_def)

lemma walk_payloads:
  assumes "resultSet_ok rs" "map payload ms = payloads rs caps"
    "has_bits caps CLIENT_DEPRECATE_EOF \<longrightarrow> has_bits caps (CLIENT_PROTOCOL_41 OR CLIENT_TRANSACTIONS)"
  shows "walk (response_begin t caps) (ms @ tl_ms) =
    Some (\<lparr>rt_state = Done, rt_caps = caps, columns_left = 0,
           rt_poisoned = has_bits (status rs) SERVER_MORE_RESULTS_EXISTS,
           rt_in_transaction = has_bits (status rs) SERVER_STATUS_IN_TRANS\<rparr>, tl_ms)"
proof -
  obtain ems rms tm where p: "map payload ems = separator rs caps" "map payload rms = map rowPayload (rows rs)" "payload tm = terminator rs caps"
    "\<And>t tcaps tl_ms. walk (response_begin t tcaps) (ms @ tl_ms) =
       walk (tracking tcaps (if has_bits tcaps CLIENT_DEPRECATE_EOF then Rows else ColumnEof)) (ems @ rms @ tm # tl_ms)"
    by (rule walk_head [OF assms(1,2)]) blast
  let ?t = "tracking caps Rows"
  have "walk (response_begin t caps) (ms @ tl_ms) = walk ?t (rms @ tm # tl_ms)"
    using p(1) by (cases "has_bits caps CLIENT_DEPRECATE_EOF") (auto simp: p(4) response_feed_def putU16_def Let_def)
  also have "\<dots> = walk ?t (tm # tl_ms)" by (rule walk_row_messages [OF assms(1) p(2)]) simp_all
  also have "\<dots> = Some (finish ?t tm, tl_ms)" by (rule walk_terminator [OF p(3)]) simp
  finally show ?thesis using finish_terminator [OF p(3) _ assms(3), of ?t] by simp
qed

text \<open>
  A tracker that does not know yet that the connection has no separator takes the first row for it; the terminator it finds is still the right one, and its
  status flags are where it looks for them.
\<close>

lemma walk_unseparated:
  assumes "resultSet_ok rs" "map payload ms = payloads rs caps" "has_bits caps CLIENT_DEPRECATE_EOF" "\<not> has_bits tcaps CLIENT_DEPRECATE_EOF" "rows rs \<noteq> []"
  shows "walk (response_begin t tcaps) (ms @ tl_ms) =
    Some (\<lparr>rt_state = Done, rt_caps = tcaps, columns_left = 0,
           rt_poisoned = has_bits (status rs) SERVER_MORE_RESULTS_EXISTS,
           rt_in_transaction = has_bits (status rs) SERVER_STATUS_IN_TRANS\<rparr>, tl_ms)"
proof -
  obtain ems rms tm where p: "map payload ems = separator rs caps" "map payload rms = map rowPayload (rows rs)" "payload tm = terminator rs caps"
    "\<And>t tcaps tl_ms. walk (response_begin t tcaps) (ms @ tl_ms) =
       walk (tracking tcaps (if has_bits tcaps CLIENT_DEPRECATE_EOF then Rows else ColumnEof)) (ems @ rms @ tm # tl_ms)"
    by (rule walk_head [OF assms(1,2)]) blast
  obtain x rws m rms' where r: "rows rs = x # rws" "rms = m # rms'" "payload m = rowPayload x" "map payload rms' = map rowPayload rws"
    using assms(5) p(2) by (cases "rows rs"; cases rms) auto
  have "row_ok (length (cols rs)) x" "0 < length (cols rs)" using assms(1) r(1) by (auto simp: resultSet_ok_def)
  then have "payload m \<noteq> []" using rowPayload_is_row(1) r(3) by metis
  let ?t = "tracking tcaps Rows"
  have "walk (response_begin t tcaps) (ms @ tl_ms) = walk ?t (rms' @ tm # tl_ms)"
    using p(1) assms(3,4) r(2) \<open>payload m \<noteq> []\<close> by (simp add: p(4) response_feed_def Let_def)
  also have "\<dots> = walk ?t (tm # tl_ms)" by (rule walk_row_messages [OF assms(1) r(4)]) (use r(1) in auto)
  also have "\<dots> = Some (finish ?t tm, tl_ms)" by (rule walk_terminator [OF p(3)]) simp
  finally have w: "walk (response_begin t tcaps) (ms @ tl_ms) = Some (finish ?t tm, tl_ms)" .
  have d: "payload tm = [0xFE, 0, 0] @ putU16 [] (status rs) @ putU16 [] (warnings rs)"
    using assms(3) p(3) by (simp add: terminator_def Let_def putU16_def putLenEnc_def)
  have "drop 3 (payload tm) = putU16 [] (status rs) @ putU16 [] (warnings rs)" by (simp add: d)
  from readU16_at [OF this] have "readU16 (payload tm) 3 = status rs" by blast
  then have "parseEof (payload tm) = Some \<lparr>eof_warnings = readU16 (payload tm) 1, eof_status_flags = status rs\<rparr>"
    by (simp add: parseEof_def d putU16_def)
  then have "finish ?t tm = ?t\<lparr>rt_in_transaction := has_bits (status rs) SERVER_STATUS_IN_TRANS,
    rt_poisoned := has_bits (status rs) SERVER_MORE_RESULTS_EXISTS, rt_state := Done\<rparr>"
    using assms(4) by (simp add: finish_def Let_def d putU16_def)
  then show ?thesis using w by simp
qed


section \<open>The tracker as a state machine\<close>

inductive tracked :: "u32 \<Rightarrow> responseTracker \<Rightarrow> bool" where
  tracked_begin: "tracked caps (response_begin t caps)"
| tracked_feed: "tracked caps t \<Longrightarrow> tracked caps (snd (response_feed t m))"

lemma tracked_invariant:
  "tracked caps t \<Longrightarrow> rt_caps t = caps \<and> tracker_ok t \<and> (rt_poisoned t \<or> rt_in_transaction t \<longrightarrow> complete t)"
proof (induction rule: tracked.induct)
  case (tracked_begin caps t)
  then show ?case by (simp add: response_begin_def tracker_ok_def)
next
  case (tracked_feed caps t m)
  then have "rt_poisoned (snd (response_feed t m)) \<or> rt_in_transaction (snd (response_feed t m)) \<longrightarrow> complete (snd (response_feed t m))"
    by (cases "rt_state t") (auto simp: response_feed_def complete_def Let_def
      split: if_splits responseKind.splits option.splits prod.splits)
  with tracked_feed show ?case by (simp add: tracker_ok_feed response_feed_caps)
qed

section \<open>Properties\<close>

text \<open>
  C9: the request side finds every statement. However the bytes of a sequence of commands are cut into
  \<open>SSL_write\<close> calls, feeding them and draining after each yields exactly the statements of the \<open>COM_QUERY\<close>
  commands among them, in order, other commands being parsed and skipped; nothing stays buffered.
\<close>

theorem request_statements:
  assumes "cs \<noteq> []" "concat cs = concat (map (\<lambda>p. encodeMessage p 0) cmds)"
  shows "fst (request_run (request_begin t caps) cs) = List.map_filter (statement caps) cmds
    \<and> request_buffered (snd (request_run (request_begin t caps) cs)) = 0"
  using request_run_stream [of "request_begin t caps" cs 0 cmds] assms
  by (simp add: request_begin_def request_buffered_def buffered_pending framing_simps)

theorem request_statements_witness:
  "fst (request_run (request_begin new_request 0) [[2, 0], [0, 0, 3], [65, 1, 0, 0, 0, 14]]) = [[65]]"
proof -
  have e: "encodeMessage [3, 65] 0 = [2, 0, 0, 0, 3, 65]" "encodeMessage [14] 0 = [1, 0, 0, 0, 14]"
    by (simp_all add: encodeMessage_frames frames.simps kMaxPayload_def header_def putBytes_append)
  from request_statements [of "[[2, 0], [0, 0, 3], [65, 1, 0, 0, 0, 14]]" "[[3, 65], [14]]" new_request 0]
  show ?thesis
    by (simp add: e) (simp add: map_filter_simps statement_def extractQuery_def COM_QUERY_def has_bits_def)
qed

text \<open>
  C7: the response side recognises the end of a result set. Fed the packets of any result set, under
  capabilities that let the terminator carry a status, it completes on the terminator and on no
  earlier packet, leaves the packets after it unread, reports an open transaction exactly when the status says so,
  and is poisoned exactly when more result sets follow (an open transaction alone does not poison it).
\<close>

theorem response_ends_at_terminator:
  assumes "resultSet_ok rs" "map payload ms = payloads rs caps"
    "has_bits caps CLIENT_DEPRECATE_EOF \<longrightarrow> has_bits caps (CLIENT_PROTOCOL_41 OR CLIENT_TRANSACTIONS)"
  shows "walk (response_begin t caps) (ms @ later) =
    Some (\<lparr>rt_state = Done, rt_caps = caps, columns_left = 0,
           rt_poisoned = has_bits (status rs) SERVER_MORE_RESULTS_EXISTS,
           rt_in_transaction = has_bits (status rs) SERVER_STATUS_IN_TRANS\<rparr>, later)"
  by (rule walk_payloads [OF assms])

theorem response_ends_at_terminator_witness:
  "map_option snd (walk (response_begin new_response 0)
     (map (\<lambda>p. \<lparr>payload = p, first_seq = 0, last_seq = 0, wire_size = 0\<rparr>) (payloads demoResult 0) @ [])) = Some []"
proof -
  let ?ms = "map (\<lambda>p. \<lparr>payload = p, first_seq = 0, last_seq = 0, wire_size = 0\<rparr>) (payloads demoResult 0)"
  have "map payload ?ms = payloads demoResult 0" by (simp add: comp_def)
  from response_ends_at_terminator [OF demoResult_ok this, of new_response "[]"]
  show ?thesis by (simp add: has_bits_def)
qed

text \<open>
  In every state the response tracker can reach, its return value is whether the response is complete,
  a complete response absorbs every further message, columns are still expected while column definitions are
  read, and only a complete response is poisoned or in a transaction.
\<close>

theorem tracker_states:
  assumes "tracked caps t"
  shows "rt_caps t = caps \<and> (rt_state t = ColumnDefs \<longrightarrow> columns_left t \<noteq> 0)
    \<and> (rt_poisoned t \<or> rt_in_transaction t \<longrightarrow> complete t)
    \<and> fst (response_feed t m) = complete (snd (response_feed t m))
    \<and> (complete t \<longrightarrow> response_feed t m = (True, t))"
  using tracked_invariant [OF assms] response_feed_complete [of t m] response_feed_done [of t m]
  by (simp add: tracker_ok_def)

theorem tracker_states_witness:
  "fst (response_feed (response_begin new_response 0) \<lparr>payload = [0xFF, 1, 2], first_seq = 1, last_seq = 1, wire_size = 7\<rparr>)
    \<and> tracked 0 (response_begin new_response 0)"
proof -
  have t: "tracked 0 (response_begin new_response 0)" by (rule tracked_begin)
  from tracker_states [OF t, of "\<lparr>payload = [0xFF, 1, 2], first_seq = 1, last_seq = 1, wire_size = 7\<rparr>"] t show ?thesis
    by (simp add: response_feed_def response_begin_def new_response_def classifyResponse_def complete_def)
qed

text \<open>
  A terminator whose status cannot be read completes the response as if no transaction were open: the
  tracker neither poisons it nor reports a transaction, whatever the capabilities.
\<close>

theorem unreadable_terminator_passes:
  assumes "rt_state t = Rows" "payload m = [0xFE]"
  shows "response_feed t m = (True, t\<lparr>rt_state := Done\<rparr>)"
  using assms by (simp add: response_feed_def finish_def parseEof_def parseOk_def readLenEnc_def Let_def)

theorem unreadable_terminator_passes_witness:
  "response_feed (new_response\<lparr>rt_state := Rows\<rparr>) \<lparr>payload = [0xFE], first_seq = 4, last_seq = 4, wire_size = 5\<rparr>
    = (True, new_response\<lparr>rt_state := Done\<rparr>)"
  using unreadable_terminator_passes [of "new_response\<lparr>rt_state := Rows\<rparr>"
      "\<lparr>payload = [0xFE], first_seq = 4, last_seq = 4, wire_size = 5\<rparr>"] by simp

end
