(* ===== verification/StmtList.thy ===== *)
theory StmtList
  imports Prelude
begin

text \<open>
  The administrator's list of cacheable statements: \<open>src/src/common/stmtlist.{h,cpp}\<close>. The file
  is \<open>None\<close> when it cannot be opened and its bytes otherwise.
\<close>

section \<open>Model\<close>

record stmtList =
  stmts :: "bytes list"
  sl_index :: "bytes set"

definition empty_list :: stmtList where
  "empty_list = \<lparr>stmts = [], sl_index = {}\<rparr>"

definition blank :: "u8 \<Rightarrow> bool" where
  "blank b \<longleftrightarrow> b = 0x20 \<or> b = 0x09 \<or> b = 0x0D \<or> b = 0x0A"

fun find_first_not_of :: "bytes \<Rightarrow> nat option" where
  "find_first_not_of [] = None"
| "find_first_not_of (b # bs) = (if blank b then map_option Suc (find_first_not_of bs) else Some 0)"

fun find_last_not_of :: "bytes \<Rightarrow> nat option" where
  "find_last_not_of [] = None"
| "find_last_not_of (b # bs) =
     (case find_last_not_of bs of Some i \<Rightarrow> Some (Suc i) | None \<Rightarrow> if blank b then None else Some 0)"

definition trim :: "bytes \<Rightarrow> bytes" where
  "trim s =
     (case find_first_not_of s of
        None \<Rightarrow> []
      | Some a \<Rightarrow> (case find_last_not_of s of
                    None \<Rightarrow> []
                  | Some b \<Rightarrow> take (b - a + 1) (drop a s)))"

definition add :: "stmtList \<Rightarrow> bytes \<Rightarrow> stmtList" where
  "add l sql =
     (if sql = [] then l
      else if sql \<in> sl_index l then l
      else l\<lparr>sl_index := insert sql (sl_index l), stmts := stmts l @ [sql]\<rparr>)"

text \<open>\<open>std::getline\<close> until it fails: a last line without a newline is still a line.\<close>

function getlines :: "bytes \<Rightarrow> bytes list" where
  "getlines s =
     (if s = [] then []
      else takeWhile (\<lambda>b. b \<noteq> 0x0A) s # getlines (drop 1 (dropWhile (\<lambda>b. b \<noteq> 0x0A) s)))"
  by pat_completeness auto
termination
proof (relation "measure length")
  show "s \<noteq> [] \<Longrightarrow> (drop 1 (dropWhile (\<lambda>b. b \<noteq> 0x0A) s), s) \<in> measure length" for s :: bytes
    using length_dropWhile_le [of "\<lambda>b. b \<noteq> 0x0A" s] by (cases s) (auto simp: le_diff_conv)
qed simp

fun loadLines :: "stmtList \<Rightarrow> bytes list \<Rightarrow> stmtList" where
  "loadLines l [] = l"
| "loadLines l (line # rest) =
     (let t = trim line
      in if t = [] \<or> t ! 0 = 0x23 then loadLines l rest else loadLines (add l t) rest)"

definition load :: "stmtList \<Rightarrow> bytes \<Rightarrow> bytes option \<Rightarrow> bytes + stmtList" where
  "load l path file =
     (case file of
        None \<Rightarrow> Inl (lit ''cannot open '' @ path)
      | Some contents \<Rightarrow> Inr (loadLines l (getlines contents)))"

definition contains :: "stmtList \<Rightarrow> bytes \<Rightarrow> bool" where
  "contains l sql \<longleftrightarrow> sql \<in> sl_index l"

definition list_size :: "stmtList \<Rightarrow> nat" where
  "list_size l = length (stmts l)"

declare getlines.simps [simp del]

section \<open>Trimming\<close>

lemma first_None: "find_first_not_of s = None \<longleftrightarrow> list_all blank s"
  by (induction s) auto

lemma first_Some: "find_first_not_of s = Some a \<Longrightarrow> a < length s \<and> \<not> blank (s ! a) \<and> list_all blank (take a s)"
  by (induction s arbitrary: a) (auto split: if_splits)

lemma last_None: "find_last_not_of s = None \<longleftrightarrow> list_all blank s"
  by (induction s) (auto split: option.splits)

lemma last_Some: "find_last_not_of s = Some b \<Longrightarrow> b < length s \<and> \<not> blank (s ! b) \<and> list_all blank (drop (b + 1) s)"
proof (induction s arbitrary: b)
  case (Cons c s)
  then show ?case by (cases "find_last_not_of s") (auto simp: last_None split: if_splits)
qed simp

lemma trim_frame:
  "\<exists>pre post. s = pre @ trim s @ post \<and> list_all blank pre \<and> list_all blank post
    \<and> (trim s \<noteq> [] \<longrightarrow> \<not> blank (hd (trim s)) \<and> \<not> blank (last (trim s)))"
proof (cases "find_first_not_of s")
  case None
  then have "trim s = []" "list_all blank s" by (simp_all add: trim_def) (simp add: first_None)
  then show ?thesis by (rule_tac x = s in exI, rule_tac x = "[]" in exI) simp
next
  case (Some a)
  then have a: "a < length s" "\<not> blank (s ! a)" "list_all blank (take a s)" by (auto dest: first_Some)
  then have "find_last_not_of s \<noteq> None" by (auto simp: last_None list_all_iff)
  then obtain b where b: "find_last_not_of s = Some b" by auto
  then have b': "b < length s" "\<not> blank (s ! b)" "list_all blank (drop (b + 1) s)" by (auto dest: last_Some)
  have ab: "a \<le> b"
  proof (rule ccontr)
    assume "\<not> a \<le> b"
    then have "take a s ! b = s ! b" "b < length (take a s)" using a(1) by auto
    then have "blank (s ! b)" using a(3) by (metis list_all_length)
    with b'(2) show False by simp
  qed
  have t: "trim s = take (b - a + 1) (drop a s)" using Some b by (simp add: trim_def)
  have l: "length (trim s) = b - a + 1" using t ab b'(1) by simp
  have "drop (b - a + 1) (drop a s) = drop (b + 1) s" using ab by simp
  then have "drop a s = trim s @ drop (b + 1) s" unfolding t by (metis append_take_drop_id)
  then have "s = take a s @ trim s @ drop (b + 1) s" by (metis append_take_drop_id)
  moreover have "hd (trim s) = s ! a" using t a(1) by (simp add: hd_drop_conv_nth)
  moreover have "last (trim s) = s ! b"
  proof -
    have "last (trim s) = trim s ! (b - a)" using l by (subst last_conv_nth) (simp_all flip: length_0_conv)
    then show ?thesis using t ab b'(1) by simp
  qed
  ultimately have "s = take a s @ trim s @ drop (b + 1) s \<and> list_all blank (take a s) \<and> list_all blank (drop (b + 1) s)
    \<and> (trim s \<noteq> [] \<longrightarrow> \<not> blank (hd (trim s)) \<and> \<not> blank (last (trim s)))"
    using a b' by auto
  then show ?thesis by (intro exI)
qed

section \<open>Loading\<close>

definition stmtList_ok :: "stmtList \<Rightarrow> bool" where
  "stmtList_ok l \<longleftrightarrow> sl_index l = set (stmts l) \<and> distinct (stmts l) \<and> [] \<notin> set (stmts l)"

definition keeps :: "bytes \<Rightarrow> bool" where
  "keeps t \<longleftrightarrow> t \<noteq> [] \<and> hd t \<noteq> 0x23"

lemma add_ok: "stmtList_ok l \<Longrightarrow> stmtList_ok (add l sql)"
  by (auto simp: stmtList_ok_def add_def)

lemma contains_add: "contains (add l sql) q \<longleftrightarrow> contains l q \<or> sql = q \<and> q \<noteq> []"
  by (auto simp: contains_def add_def)

lemma loadLines_spec:
  "stmtList_ok l \<Longrightarrow> stmtList_ok (loadLines l ls)
    \<and> (\<forall>q. contains (loadLines l ls) q \<longleftrightarrow> contains l q \<or> keeps q \<and> q \<in> trim ` set ls)
    \<and> (\<exists>ys. stmts (loadLines l ls) = stmts l @ ys)"
proof (induction ls arbitrary: l)
  case (Cons line ls)
  show ?case
  proof (cases "keeps (trim line)")
    case True
    then have "loadLines l (line # ls) = loadLines (add l (trim line)) ls"
      by (auto simp: keeps_def hd_conv_nth Let_def)
    moreover have "\<exists>ys. stmts (add l (trim line)) = stmts l @ ys" by (auto simp: add_def)
    ultimately show ?thesis
      using Cons.IH [OF add_ok [OF Cons.prems], of "trim line"] True contains_add [of l "trim line"]
      by (auto simp: keeps_def)
  next
    case False
    then have "loadLines l (line # ls) = loadLines l ls" by (auto simp: keeps_def hd_conv_nth Let_def)
    with Cons.IH [OF Cons.prems] False show ?thesis by auto
  qed
qed simp

section \<open>Properties\<close>



text \<open>
  Trimming removes blanks at both ends and nothing else: what remains starts and ends with a byte that is not blank.
\<close>

theorem trim_exact:
  "\<exists>pre post. s = pre @ trim s @ post \<and> list_all blank pre \<and> list_all blank post
    \<and> (trim s = [] \<or> \<not> blank (hd (trim s)) \<and> \<not> blank (last (trim s)))"
  using trim_frame [of s] by blast

end
