(* ===== verification/Memory.thy ===== *)
theory Memory
  imports Wire
begin

text \<open>
  Byte-addressed shared memory, as the daemon and its clients map it: a byte at every
  offset from the base of the arena, with the 32-bit and 64-bit little-endian accesses the
  code makes through its struct pointers. A field is a \<open>nat\<close> below \<open>2 ^ 32\<close> (or \<open>2 ^ 64\<close>); storing wraps.
\<close>

type_synonym mem = "nat \<Rightarrow> u8"

definition wrap32 :: "nat \<Rightarrow> nat" where
  "wrap32 x = x mod 2 ^ 32"

definition wrap64 :: "nat \<Rightarrow> nat" where
  "wrap64 x = x mod 2 ^ 64"

definition byte :: "nat \<Rightarrow> nat \<Rightarrow> u8" where
  "byte i v = of_nat (v div 256 ^ i)"

definition read32 :: "mem \<Rightarrow> nat \<Rightarrow> nat" where
  "read32 m a = le [m a, m (a + 1), m (a + 2), m (a + 3)]"

definition write32 :: "mem \<Rightarrow> nat \<Rightarrow> nat \<Rightarrow> mem" where
  "write32 m a v = m(a := byte 0 v, a + 1 := byte 1 v, a + 2 := byte 2 v, a + 3 := byte 3 v)"

definition read64 :: "mem \<Rightarrow> nat \<Rightarrow> nat" where
  "read64 m a = read32 m a + 2 ^ 32 * read32 m (a + 4)"

definition write64 :: "mem \<Rightarrow> nat \<Rightarrow> nat \<Rightarrow> mem" where
  "write64 m a v = write32 (write32 m a v) (a + 4) (v div 2 ^ 32)"

text \<open>\<open>memcpy\<close> into the memory, and the bytes at an offset.\<close>

fun writeBytes :: "mem \<Rightarrow> nat \<Rightarrow> bytes \<Rightarrow> mem" where
  "writeBytes m a [] = m"
| "writeBytes m a (b # bs) = writeBytes (m(a := b)) (a + 1) bs"

definition readBytes :: "mem \<Rightarrow> nat \<Rightarrow> nat \<Rightarrow> bytes" where
  "readBytes m a n = map (\<lambda>i. m (a + i)) [0..<n]"

section \<open>Reading back\<close>

named_theorems mem_simps \<open>reads after writes\<close>

lemma unat_byte: "unat (byte i v) = v div 256 ^ i mod 256"
  by (simp add: byte_def unat_of_nat take_bit_eq_mod)

lemma digits4: "v mod 4294967296 = v mod 256 + 256 * (v div 256 mod 256 + 256 * (v div 65536 mod 256 + 256 * (v div 16777216 mod 256)))"
  for v :: nat
proof -
  have "v mod (256 * 16777216) = v mod 256 + 256 * (v div 256 mod 16777216)" by (simp only: mod_mult2_eq add.commute mult.commute)
  moreover have "v div 256 mod (256 * 65536) = v div 256 mod 256 + 256 * (v div 256 div 256 mod 65536)" by (simp only: mod_mult2_eq add.commute mult.commute)
  moreover have "v div 256 div 256 mod (256 * 256) = v div 256 div 256 mod 256 + 256 * (v div 256 div 256 div 256 mod 256)"
    by (simp only: mod_mult2_eq add.commute mult.commute)
  ultimately show ?thesis by (simp add: div_mult2_eq [symmetric])
qed

lemma read32_write32 [mem_simps]: "read32 (write32 m a v) a = wrap32 v"
  by (simp add: read32_def write32_def unat_byte wrap32_def digits4)

lemma write32_other: "y < a \<or> a + 4 \<le> y \<Longrightarrow> write32 m a v y = m y"
  by (auto simp: write32_def)

lemma read32_cong: "(\<And>y. a \<le> y \<Longrightarrow> y < a + 4 \<Longrightarrow> m' y = m y) \<Longrightarrow> read32 m' a = read32 m a"
  by (simp add: read32_def)

lemma read32_write32_other [mem_simps]: "a + 4 \<le> b \<or> b + 4 \<le> a \<Longrightarrow> read32 (write32 m b v) a = read32 m a"
  by (intro read32_cong write32_other) auto

lemma read32_bound: "read32 m a < 2 ^ 32"
  using le_bound [of "[m a, m (a + 1), m (a + 2), m (a + 3)]"] by (simp add: read32_def)

lemma read64_cong: "(\<And>y. a \<le> y \<Longrightarrow> y < a + 8 \<Longrightarrow> m' y = m y) \<Longrightarrow> read64 m' a = read64 m a"
  using read32_cong [of a m' m] read32_cong [of "a + 4" m' m] by (simp add: read64_def)

lemma write64_other: "y < a \<or> a + 8 \<le> y \<Longrightarrow> write64 m a v y = m y"
  by (auto simp: write64_def write32_other)

lemma read64_write64 [mem_simps]: "read64 (write64 m a v) a = wrap64 v"
proof -
  have "v mod (2 ^ 32 * 2 ^ 32) = v mod 2 ^ 32 + 2 ^ 32 * (v div 2 ^ 32 mod 2 ^ 32)"
    by (simp only: mod_mult2_eq add.commute mult.commute)
  then show ?thesis by (simp add: read64_def write64_def mem_simps wrap32_def wrap64_def)
qed

lemma wrap32_id [simp]: "v < 2 ^ 32 \<Longrightarrow> wrap32 v = v"
  by (simp add: wrap32_def)

lemma wrap64_id [simp]: "v < 2 ^ 64 \<Longrightarrow> wrap64 v = v"
  by (simp add: wrap64_def)

lemma writeBytes_other: "y < a \<or> a + length bs \<le> y \<Longrightarrow> writeBytes m a bs y = m y"
  by (induction bs arbitrary: m a) auto

lemma writeBytes_in: "i < length bs \<Longrightarrow> writeBytes m a bs (a + i) = bs ! i"
proof (induction bs arbitrary: m a i)
  case (Cons b bs)
  show ?case
  proof (cases i)
    case 0
    then show ?thesis using writeBytes_other [of a "a + 1" bs "m(a := b)"] by simp
  next
    case (Suc j)
    then show ?thesis using Cons.IH [of j _ "Suc a"] Cons.prems by simp
  qed
qed simp

lemma readBytes_writeBytes [mem_simps]: "readBytes (writeBytes m a bs) a (length bs) = bs"
  by (intro nth_equalityI) (simp_all add: readBytes_def writeBytes_in)

lemma readBytes_cong: "(\<And>y. a \<le> y \<Longrightarrow> y < a + n \<Longrightarrow> m' y = m y) \<Longrightarrow> readBytes m' a n = readBytes m a n"
  by (simp add: readBytes_def)

end
