(* ===== verification/Arena.thy ===== *)
theory Arena
  imports Memory
begin

text \<open>
  The shared heap of \<open>src/src/daemon/arena.{h,cpp}\<close>: a first-fit free-list allocator over the arena, and the
  retirement list that delays reuse. A pointer into the arena is its offset from the base, \<open>None\<close> is
  \<open>nullptr\<close>; block fields live in the byte memory, the control block \<open>bncl_ctl\<close> at the front of the arena
  is a record. The loops over the lists are partial functions: \<open>None\<close> is a loop that never ends.
\<close>

section \<open>Layout\<close>

definition BNCL_CTL_BYTES :: nat where "BNCL_CTL_BYTES = 64"
definition HDR :: nat where "HDR = 16"
definition FTR :: nat where "FTR = 4"

definition align8 :: "nat \<Rightarrow> nat" where
  "align8 n = wrap64 (n + 7) div 8 * 8"

definition MIN_BLOCK :: nat where "MIN_BLOCK = align8 (HDR + FTR)"
definition RETIRED_BYTES :: nat where "RETIRED_BYTES = 16"
definition RETIRE_GRACE_NS :: nat where "RETIRE_GRACE_NS = 5 * 1000 * 1000 * 1000"

record ctl =
  lock :: nat
  taken_ns :: nat
  heap :: nat
  heap_end :: nat
  free_head :: nat
  retire_head :: nat
  used :: nat

record arena =
  opened :: bool
  cap :: nat
  ctl :: ctl
  mem :: mem

definition blk_size :: "mem \<Rightarrow> nat \<Rightarrow> nat" where "blk_size m off = read32 m off"
definition blk_free :: "mem \<Rightarrow> nat \<Rightarrow> nat" where "blk_free m off = read32 m (off + 4)"
definition blk_next :: "mem \<Rightarrow> nat \<Rightarrow> nat" where "blk_next m off = read32 m (off + 8)"
definition blk_prev :: "mem \<Rightarrow> nat \<Rightarrow> nat" where "blk_prev m off = read32 m (off + 12)"

definition set_size :: "nat \<Rightarrow> nat \<Rightarrow> mem \<Rightarrow> mem" where "set_size off v m = write32 m off v"
definition set_free :: "nat \<Rightarrow> nat \<Rightarrow> mem \<Rightarrow> mem" where "set_free off v m = write32 m (off + 4) v"
definition set_next :: "nat \<Rightarrow> nat \<Rightarrow> mem \<Rightarrow> mem" where "set_next off v m = write32 m (off + 8) v"
definition set_prev :: "nat \<Rightarrow> nat \<Rightarrow> mem \<Rightarrow> mem" where "set_prev off v m = write32 m (off + 12) v"

text \<open>\<open>FOOT(off)\<close> finds the footer through the size in the header.\<close>

definition set_foot :: "nat \<Rightarrow> nat \<Rightarrow> mem \<Rightarrow> mem" where
  "set_foot off v m = write32 m (off + blk_size m off - FTR) v"

section \<open>Laying out the heap\<close>

definition arena_init :: "mem option \<Rightarrow> nat \<Rightarrow> arena \<Rightarrow> bool \<times> arena" where
  "arena_init memory len a =
     (case memory of
        None \<Rightarrow> (False, a)
      | Some m \<Rightarrow>
          if len \<le> BNCL_CTL_BYTES + MIN_BLOCK then (False, a)
          else let start = BNCL_CTL_BYTES;
                   size = wrap32 (len - BNCL_CTL_BYTES);
                   c = \<lparr>lock = 0, taken_ns = 0, heap = start, heap_end = wrap32 (start + size),
                        free_head = start, retire_head = 0, used = 0\<rparr>;
                   m = set_prev start 0 (set_next start 0 (set_free start 1 (set_size start size m)));
                   m = set_foot start size m
            in (True, \<lparr>opened = True, cap = len, ctl = c, mem = m\<rparr>))"

definition arena_close :: "arena \<Rightarrow> arena" where
  "arena_close a = a\<lparr>opened := False, cap := 0\<rparr>"

section \<open>The free list\<close>

text \<open>Taking a block off the list, the same three statements in \<open>alloc\<close> and twice in \<open>free\<close>.\<close>

definition unlink :: "nat \<Rightarrow> arena \<Rightarrow> arena" where
  "unlink off a =
     (let a = (if blk_prev (mem a) off \<noteq> 0
               then a\<lparr>mem := set_next (blk_prev (mem a) off) (blk_next (mem a) off) (mem a)\<rparr>
               else a\<lparr>ctl := (ctl a)\<lparr>free_head := blk_next (mem a) off\<rparr>\<rparr>)
      in if blk_next (mem a) off \<noteq> 0
         then a\<lparr>mem := set_prev (blk_next (mem a) off) (blk_prev (mem a) off) (mem a)\<rparr>
         else a)"

text \<open>Putting a block at the head of the list, in \<open>alloc\<close> for the remainder of a split and at the end of \<open>free\<close>.\<close>

definition push_front :: "nat \<Rightarrow> arena \<Rightarrow> arena" where
  "push_front off a =
     (let m = set_next off (free_head (ctl a)) (set_prev off 0 (mem a));
          m = (if free_head (ctl a) \<noteq> 0 then set_prev (free_head (ctl a)) off m else m)
      in a\<lparr>mem := m, ctl := (ctl a)\<lparr>free_head := off\<rparr>\<rparr>)"

partial_function (option) find_fit :: "mem \<Rightarrow> nat \<Rightarrow> nat \<Rightarrow> nat option" where
  "find_fit m want off =
     (if off = 0 then Some 0
      else if blk_size m off < want then find_fit m want (blk_next m off)
      else Some off)"

text \<open>What \<open>alloc\<close> does with the block it found: unlink it, split it when the remainder is a usable block, hand it out.\<close>

definition carve :: "nat \<Rightarrow> nat \<Rightarrow> arena \<Rightarrow> arena" where
  "carve off want a =
     (let a = unlink off a;
          sz = blk_size (mem a) off;
          a = (if sz - want \<ge> MIN_BLOCK
               then let rest_off = wrap32 (off + wrap32 want);
                        a = a\<lparr>mem := set_free rest_off 1 (set_size rest_off (sz - wrap32 want) (mem a))\<rparr>;
                        a = push_front rest_off a;
                        a = a\<lparr>mem := set_foot rest_off (blk_size (mem a) rest_off) (mem a)\<rparr>;
                        a = a\<lparr>mem := set_size off (wrap32 want) (mem a)\<rparr>
                    in a\<lparr>mem := set_foot off (blk_size (mem a) off) (mem a)\<rparr>
               else a);
          a = a\<lparr>mem := set_free off 0 (mem a)\<rparr>
      in a\<lparr>ctl := (ctl a)\<lparr>used := wrap64 (used (ctl a) + blk_size (mem a) off + 2 ^ 64 - HDR - FTR)\<rparr>\<rparr>)"

definition block_for :: "nat \<Rightarrow> nat" where
  "block_for n =
     (let want = align8 (wrap64 (align8 n + HDR + FTR))
      in if want < MIN_BLOCK then MIN_BLOCK else want)"

definition alloc :: "nat \<Rightarrow> arena \<Rightarrow> (nat option \<times> arena) option" where
  "alloc n a =
     (if \<not> opened a \<or> n = 0 then Some (None, a)
      else let want = block_for n in
        if want > cap a then Some (None, a)
        else (case find_fit (mem a) want (free_head (ctl a)) of
                None \<Rightarrow> None
              | Some off \<Rightarrow>
                  if off = 0 then Some (None, a) else Some (Some (off + HDR), carve off want a)))"

definition put :: "bytes \<Rightarrow> arena \<Rightarrow> (nat option \<times> arena) option" where
  "put src a =
     (case alloc (length src) a of
        None \<Rightarrow> None
      | Some (None, a) \<Rightarrow> Some (None, a)
      | Some (Some p, a) \<Rightarrow> Some (Some p, a\<lparr>mem := writeBytes (mem a) p src\<rparr>))"

section \<open>Freeing\<close>

definition merge_forward :: "nat \<Rightarrow> arena \<Rightarrow> arena" where
  "merge_forward off a =
     (let after = wrap32 (off + blk_size (mem a) off)
      in if after < heap_end (ctl a) \<and> blk_free (mem a) after \<noteq> 0
         then let a = unlink after a
              in a\<lparr>mem := set_size off (blk_size (mem a) off + blk_size (mem a) after) (mem a)\<rparr>
         else a)"

definition merge_backward :: "nat \<Rightarrow> arena \<Rightarrow> nat \<times> arena" where
  "merge_backward off a =
     (if off > heap (ctl a)
      then let prev_off = wrap32 (off + 2 ^ 32 - read32 (mem a) (off - FTR))
        in if prev_off \<ge> heap (ctl a) \<and> blk_free (mem a) prev_off \<noteq> 0
           then let a = unlink prev_off a
                in (prev_off, a\<lparr>mem := set_size prev_off (blk_size (mem a) prev_off + blk_size (mem a) off) (mem a)\<rparr>)
           else (off, a)
      else (off, a))"

definition free :: "nat option \<Rightarrow> arena \<Rightarrow> arena" where
  "free ptr a =
     (case ptr of
        None \<Rightarrow> a
      | Some p \<Rightarrow>
          if \<not> opened a then a
          else let off = wrap32 (p + 2 ^ 32 - HDR) in
            if blk_free (mem a) off \<noteq> 0 then a
            else let a = a\<lparr>ctl := (ctl a)\<lparr>used := wrap64 (used (ctl a) + 2 ^ 64 + HDR + FTR - blk_size (mem a) off)\<rparr>\<rparr>;
                     a = merge_forward off a;
                     (off, a) = merge_backward off a;
                     a = a\<lparr>mem := set_free off 1 (mem a)\<rparr>;
                     a = push_front off a
              in a\<lparr>mem := set_foot off (blk_size (mem a) off) (mem a)\<rparr>)"

section \<open>Retiring\<close>

definition ret_at :: "mem \<Rightarrow> nat \<Rightarrow> nat" where "ret_at m off = read64 m (off + HDR)"
definition ret_next :: "mem \<Rightarrow> nat \<Rightarrow> nat" where "ret_next m off = read32 m (off + HDR + 8)"
definition set_ret_next :: "nat \<Rightarrow> nat \<Rightarrow> mem \<Rightarrow> mem" where "set_ret_next off v m = write32 m (off + HDR + 8) v"

definition retire :: "nat option \<Rightarrow> nat \<Rightarrow> arena \<Rightarrow> arena" where
  "retire ptr now a =
     (case ptr of
        None \<Rightarrow> a
      | Some p \<Rightarrow>
          if \<not> opened a then a
          else let off = wrap32 (p + 2 ^ 32 - HDR) in
            if blk_free (mem a) off \<noteq> 0 then a
            else if blk_size (mem a) off < HDR + RETIRED_BYTES + FTR then free (Some p) a
            else a\<lparr>mem := set_ret_next off (retire_head (ctl a)) (write64 (mem a) (off + HDR) now),
                   ctl := (ctl a)\<lparr>retire_head := off\<rparr>\<rparr>)"

partial_function (option) reclaimLoop :: "nat \<Rightarrow> nat \<Rightarrow> nat \<Rightarrow> arena \<Rightarrow> (nat \<times> arena) option" where
  "reclaimLoop now off keep a =
     (if off = 0 then Some (keep, a)
      else let at = ret_at (mem a) off; next = ret_next (mem a) off
        in if now \<ge> at \<and> now - at \<ge> RETIRE_GRACE_NS
           then reclaimLoop now next keep (free (Some (off + HDR)) a)
           else reclaimLoop now next off (a\<lparr>mem := set_ret_next off keep (mem a)\<rparr>))"

definition reclaim :: "nat \<Rightarrow> arena \<Rightarrow> arena option" where
  "reclaim now a =
     (if \<not> opened a then Some a
      else case reclaimLoop now (retire_head (ctl a)) 0 (a\<lparr>ctl := (ctl a)\<lparr>retire_head := 0\<rparr>\<rparr>) of
             None \<Rightarrow> None
           | Some (keep, a) \<Rightarrow> Some (a\<lparr>ctl := (ctl a)\<lparr>retire_head := keep\<rparr>\<rparr>))"

partial_function (option) retiredLoop :: "mem \<Rightarrow> nat \<Rightarrow> nat \<Rightarrow> nat option" where
  "retiredLoop m off n = (if off = 0 then Some n else retiredLoop m (ret_next m off) (n + 1))"

definition retired :: "arena \<Rightarrow> nat option" where
  "retired a = (if \<not> opened a then Some 0 else retiredLoop (mem a) (retire_head (ctl a)) 0)"

definition arena_used :: "arena \<Rightarrow> nat" where
  "arena_used a = (if opened a then used (ctl a) else 0)"

lemmas field_defs = blk_size_def blk_free_def blk_next_def blk_prev_def
  set_size_def set_free_def set_next_def set_prev_def
lemmas arena_consts = HDR_def FTR_def BNCL_CTL_BYTES_def RETIRED_BYTES_def

lemma MIN_BLOCK_24: "MIN_BLOCK = 24"
  by (simp add: MIN_BLOCK_def align8_def arena_consts)

end
