(* ===== verification/FreeList.thy ===== *)
theory FreeList
  imports Arena
begin

text \<open>
  The doubly linked free list of the arena as a list of block offsets: what \<open>unlink\<close> and \<open>push_front\<close> do to
  that list, and that they write nothing but link fields.
\<close>

section \<open>Linked segments\<close>

definition hd_or :: "nat \<Rightarrow> nat list \<Rightarrow> nat" where
  "hd_or n xs = (case xs of [] \<Rightarrow> n | x # _ \<Rightarrow> x)"

definition last_or :: "nat \<Rightarrow> nat list \<Rightarrow> nat" where
  "last_or p xs = (if xs = [] then p else last xs)"

fun dseg :: "mem \<Rightarrow> nat \<Rightarrow> nat list \<Rightarrow> nat \<Rightarrow> bool" where
  "dseg m p [] n \<longleftrightarrow> True"
| "dseg m p (x # xs) n \<longleftrightarrow> blk_prev m x = p \<and> blk_next m x = hd_or n xs \<and> dseg m x xs n"

definition links :: "nat \<Rightarrow> nat set" where
  "links off = {off + 8..<off + 16}"

text \<open>Headers of distinct blocks do not overlap, and every block has a nonzero 32-bit offset.\<close>

definition spaced :: "nat set \<Rightarrow> bool" where
  "spaced X \<longleftrightarrow> (\<forall>x\<in>X. 0 < x \<and> x < 2 ^ 32) \<and> (\<forall>x\<in>X. \<forall>y\<in>X. x < y \<longrightarrow> x + 16 \<le> y)"

definition linked :: "arena \<Rightarrow> nat list \<Rightarrow> bool" where
  "linked a fl \<longleftrightarrow> distinct fl \<and> dseg (mem a) 0 fl 0 \<and> free_head (ctl a) = hd_or 0 fl"

lemma hd_or_simps [simp]: "hd_or n [] = n" "hd_or n (x # xs) = x" "hd_or n (xs @ ys) = hd_or (hd_or n ys) xs"
  by (simp_all add: hd_or_def split: list.split)

lemma last_or_simps [simp]: "last_or p [] = p" "last_or p (x # xs) = last_or x xs" "last_or p (xs @ [y]) = y"
  by (auto simp: last_or_def)

lemma dseg_append: "dseg m p (xs @ ys) n \<longleftrightarrow> dseg m p xs (hd_or n ys) \<and> dseg m (last_or p xs) ys n"
  by (induction xs arbitrary: p) auto

lemma links_cong:
  assumes "\<And>y. y \<in> links x \<Longrightarrow> m' y = m y"
  shows "blk_next m' x = blk_next m x" "blk_prev m' x = blk_prev m x"
  using assms unfolding blk_next_def blk_prev_def links_def by (auto intro!: read32_cong)

lemma dseg_cong: "(\<And>x y. x \<in> set xs \<Longrightarrow> y \<in> links x \<Longrightarrow> m' y = m y) \<Longrightarrow> dseg m' p xs n = dseg m p xs n"
proof (induction xs arbitrary: p)
  case (Cons x xs)
  then have "blk_next m' x = blk_next m x" "blk_prev m' x = blk_prev m x" by (auto intro: links_cong)
  moreover have "dseg m' x xs n = dseg m x xs n" by (rule Cons.IH) (use Cons.prems in auto)
  ultimately show ?case by simp
qed simp

lemma spacedD: "spaced X \<Longrightarrow> x \<in> X \<Longrightarrow> y \<in> X \<Longrightarrow> x \<noteq> y \<Longrightarrow> x + 16 \<le> y \<or> y + 16 \<le> x"
  unfolding spaced_def by (metis nat_neq_iff)

lemma spaced_bounds: "spaced X \<Longrightarrow> x \<in> X \<Longrightarrow> 0 < x \<and> x < 2 ^ 32"
  by (auto simp: spaced_def)

lemma spaced_mono: "spaced X \<Longrightarrow> Y \<subseteq> X \<Longrightarrow> spaced Y"
  unfolding spaced_def by (meson subset_iff)

lemma set_next_spec:
  "set_next x v m y = m y" if "y \<notin> links x" for x y v m
  using that by (auto simp: set_next_def links_def write32_other)

lemma set_prev_spec:
  "set_prev x v m y = m y" if "y \<notin> links x" for x y v m
  using that by (auto simp: set_prev_def links_def write32_other)

lemma links_disjoint: "spaced X \<Longrightarrow> x \<in> X \<Longrightarrow> y \<in> X \<Longrightarrow> x \<noteq> y \<Longrightarrow> z \<in> links x \<Longrightarrow> z \<notin> links y"
  using spacedD [of X x y] by (auto simp: links_def)

lemma set_links:
  "v < 2 ^ 32 \<Longrightarrow> blk_next (set_next x v m) x = v" "blk_prev (set_next x v m) x = blk_prev m x"
  "v < 2 ^ 32 \<Longrightarrow> blk_prev (set_prev x v m) x = v" "blk_next (set_prev x v m) x = blk_next m x"
  by (simp_all add: field_defs mem_simps)

lemma dseg_set_next_last:
  assumes "spaced (set (xs @ [x]))" "distinct (xs @ [x])" "v < 2 ^ 32" "dseg m p (xs @ [x]) n"
  shows "dseg (set_next x v m) p (xs @ [x]) v"
proof -
  have "dseg (set_next x v m) p xs x = dseg m p xs x"
    using assms(1,2) by (intro dseg_cong set_next_spec links_disjoint [OF assms(1)]) auto
  with assms(3,4) show ?thesis by (simp add: dseg_append set_links)
qed

lemma dseg_set_prev_first:
  assumes "spaced (set (x # xs))" "distinct (x # xs)" "v < 2 ^ 32" "dseg m p (x # xs) n"
  shows "dseg (set_prev x v m) v (x # xs) n"
proof -
  have "dseg (set_prev x v m) x xs n = dseg m x xs n"
    using assms(1,2) by (intro dseg_cong set_prev_spec links_disjoint [OF assms(1)]) auto
  with assms(3,4) show ?thesis by (simp add: set_links)
qed

section \<open>Unlinking\<close>

text \<open>The two stores of \<open>unlink\<close>, on the memory alone.\<close>

definition unlink_mem :: "nat \<Rightarrow> nat \<Rightarrow> mem \<Rightarrow> mem" where
  "unlink_mem p n m =
     (let m = (if p \<noteq> 0 then set_next p n m else m) in if n \<noteq> 0 then set_prev n p m else m)"

lemma unlink_mem_other: "y \<notin> links p \<Longrightarrow> y \<notin> links n \<Longrightarrow> unlink_mem p n m y = m y"
  by (simp add: unlink_mem_def Let_def set_next_spec set_prev_spec)

lemma dseg_unlink_mem:
  assumes sp: "spaced (set (xs @ x # ys))" and ds: "distinct (xs @ x # ys)" and d: "dseg m 0 (xs @ x # ys) 0"
  shows "dseg (unlink_mem (last_or 0 xs) (hd_or 0 ys) m) 0 (xs @ ys) 0"
proof -
  let ?p = "last_or 0 xs" and ?n = "hd_or 0 ys"
  have dx: "dseg m 0 xs x" and dy: "dseg m x ys 0"
    using d by (simp_all add: dseg_append)
  have n32: "?n < 2 ^ 32" and p32: "?p < 2 ^ 32"
    using spaced_bounds [OF sp] by (auto simp: hd_or_def last_or_def split: list.split)
  define m1 where "m1 = (if ?p \<noteq> 0 then set_next ?p ?n m else m)"
  have x1: "dseg m1 0 xs ?n \<and> dseg m1 x ys 0"
  proof (cases xs rule: rev_cases)
    case Nil
    then show ?thesis using dy by (simp add: m1_def)
  next
    case (snoc as q)
    then have q: "?p = q" "q \<noteq> 0" using spaced_bounds [OF sp, of q] by auto
    have "dseg (set_next q ?n m) 0 (as @ [q]) ?n"
      using dx sp ds n32 snoc by (intro dseg_set_next_last [where n = x]) (auto intro: spaced_mono)
    moreover have "dseg (set_next q ?n m) x ys 0 = dseg m x ys 0"
      using ds snoc by (intro dseg_cong set_next_spec links_disjoint [OF sp]) auto
    ultimately show ?thesis using dy snoc q by (simp add: m1_def)
  qed
  have "dseg (if ?n \<noteq> 0 then set_prev ?n ?p m1 else m1) 0 xs ?n \<and>
    dseg (if ?n \<noteq> 0 then set_prev ?n ?p m1 else m1) ?p ys 0"
  proof (cases ys)
    case Nil
    then show ?thesis using x1 by simp
  next
    case (Cons z zs)
    then have z: "?n = z" "z \<noteq> 0" using spaced_bounds [OF sp, of z] by auto
    have "dseg (set_prev z ?p m1) ?p (z # zs) 0"
      using x1 sp ds p32 Cons by (intro dseg_set_prev_first [where p = x]) (auto intro: spaced_mono)
    moreover have "dseg (set_prev z ?p m1) 0 xs z = dseg m1 0 xs z"
      using ds Cons by (intro dseg_cong set_prev_spec links_disjoint [OF sp]) auto
    ultimately show ?thesis using x1 Cons z by simp
  qed
  moreover have "unlink_mem ?p ?n m = (if ?n \<noteq> 0 then set_prev ?n ?p m1 else m1)"
    unfolding unlink_mem_def m1_def Let_def by simp
  ultimately show ?thesis unfolding dseg_append by argo
qed

lemma unlink_eq:
  assumes sp: "spaced (set (xs @ x # ys))" and l: "linked a (xs @ x # ys)"
  shows "unlink x a = a\<lparr>mem := unlink_mem (last_or 0 xs) (hd_or 0 ys) (mem a),
    ctl := (ctl a)\<lparr>free_head := hd_or 0 (xs @ ys)\<rparr>\<rparr>"
proof -
  let ?m = "mem a" and ?p = "last_or 0 xs" and ?n = "hd_or 0 ys"
  have px: "blk_prev ?m x = ?p" and nx: "blk_next ?m x = ?n"
    using l by (auto simp: linked_def dseg_append)
  have ds: "distinct (xs @ x # ys)" using l by (simp add: linked_def)
  have p0: "?p = 0 \<longleftrightarrow> xs = []" using spaced_bounds [OF sp] by (force simp: last_or_def)
  have keep: "blk_next (set_next ?p ?n ?m) x = ?n" "blk_prev (set_next ?p ?n ?m) x = ?p" if "?p \<noteq> 0"
  proof -
    have "?p \<in> set (xs @ x # ys)" "?p \<noteq> x" using that ds p0 by (auto simp: last_or_def)
    then have "\<And>y. y \<in> links x \<Longrightarrow> set_next ?p ?n ?m y = ?m y"
      by (intro set_next_spec links_disjoint [OF sp, of x]) auto
    from links_cong [OF this] px nx show "blk_next (set_next ?p ?n ?m) x = ?n" "blk_prev (set_next ?p ?n ?m) x = ?p" by simp_all
  qed
  have fh: "free_head (ctl a) = hd_or 0 (xs @ ys)" if "xs \<noteq> []"
    using l that by (cases xs) (auto simp: linked_def)
  then show ?thesis
    using p0 keep by (auto simp: unlink_def unlink_mem_def Let_def px nx)
qed

lemma unlink_spec:
  assumes sp: "spaced (set (xs @ x # ys))" and l: "linked a (xs @ x # ys)"
  shows "linked (unlink x a) (xs @ ys)"
    "\<And>y. (\<forall>z\<in>set (xs @ ys). y \<notin> links z) \<Longrightarrow> mem (unlink x a) y = mem a y"
    "ctl (unlink x a) = (ctl a)\<lparr>free_head := hd_or 0 (xs @ ys)\<rparr>"
    "opened (unlink x a) = opened a" "cap (unlink x a) = cap a"
proof -
  note u = unlink_eq [OF assms]
  show "linked (unlink x a) (xs @ ys)"
    using dseg_unlink_mem [OF sp, of "mem a"] l unfolding u by (simp add: linked_def)
  show "mem (unlink x a) y = mem a y" if "\<forall>z\<in>set (xs @ ys). y \<notin> links z" for y
  proof -
    have "unlink_mem (last_or 0 xs) (hd_or 0 ys) (mem a) y = mem a y"
      using that
      by (cases xs rule: rev_cases; cases ys) (auto simp: unlink_mem_def Let_def set_next_spec set_prev_spec)
    then show ?thesis by (simp add: u)
  qed
qed (simp_all add: unlink_eq [OF assms])

section \<open>Pushing\<close>

lemma push_front_spec:
  assumes sp: "spaced (set (x # fl))" and l: "linked a fl" and x: "x \<notin> set fl"
  shows "linked (push_front x a) (x # fl)"
    "\<And>y. (\<forall>z\<in>set (x # fl). y \<notin> links z) \<Longrightarrow> mem (push_front x a) y = mem a y"
    "ctl (push_front x a) = (ctl a)\<lparr>free_head := x\<rparr>"
    "opened (push_front x a) = opened a" "cap (push_front x a) = cap a"
proof -
  let ?h = "hd_or 0 fl"
  let ?m1 = "set_next x ?h (set_prev x 0 (mem a))"
  have fh: "free_head (ctl a) = ?h" and d: "dseg (mem a) 0 fl 0" and ds: "distinct fl"
    using l by (auto simp: linked_def)
  have h32: "?h < 2 ^ 32" and x32: "x < 2 ^ 32"
    using spaced_bounds [OF sp] by (auto simp: hd_or_def split: list.split)
  have "dseg ?m1 0 fl 0 = dseg (set_prev x 0 (mem a)) 0 fl 0"
    using x by (intro dseg_cong set_next_spec links_disjoint [OF sp]) auto
  also have "\<dots> = dseg (mem a) 0 fl 0"
    using x by (intro dseg_cong set_prev_spec links_disjoint [OF sp]) auto
  finally have d1: "dseg ?m1 0 fl 0" using d by simp
  have l1: "blk_prev ?m1 x = 0" "blk_next ?m1 x = ?h" using h32 by (simp_all add: set_links)
  have mem: "mem (push_front x a) = (if ?h \<noteq> 0 then set_prev ?h x ?m1 else ?m1)"
    by (simp add: push_front_def Let_def fh)
  show "linked (push_front x a) (x # fl)"
  proof (cases fl)
    case Nil
    then show ?thesis using l1 by (simp add: linked_def mem) (simp add: push_front_def Let_def)
  next
    case (Cons z zs)
    then have z: "?h = z" "z \<noteq> 0" using spaced_bounds [OF sp, of z] by auto
    have "dseg (set_prev z x ?m1) x (z # zs) 0"
      using d1 sp ds x32 Cons by (intro dseg_set_prev_first [where p = 0]) (auto intro: spaced_mono)
    moreover have "\<And>y. y \<in> links x \<Longrightarrow> set_prev z x ?m1 y = ?m1 y"
      using x Cons by (intro set_prev_spec links_disjoint [OF sp, of x]) auto
    from links_cong [OF this] have "blk_next (set_prev z x ?m1) x = z" "blk_prev (set_prev z x ?m1) x = 0"
      using l1 z(1) by simp_all
    ultimately show ?thesis using x ds Cons z by (simp add: linked_def mem) (simp add: push_front_def Let_def)
  qed
  show "mem (push_front x a) y = mem a y" if "\<forall>z\<in>set (x # fl). y \<notin> links z" for y
    unfolding mem using that by (cases fl) (auto simp: set_next_spec set_prev_spec)
qed (simp_all add: push_front_def Let_def)

section \<open>First fit\<close>

lemma find_fit_list:
  "dseg m p fl 0 \<Longrightarrow> 0 \<notin> set fl \<Longrightarrow> find_fit m want (hd_or 0 fl) =
    Some (case filter (\<lambda>x. want \<le> blk_size m x) fl of [] \<Rightarrow> 0 | x # _ \<Rightarrow> x)"
proof (induction fl arbitrary: p)
  case Nil
  then show ?case by (simp add: find_fit.simps)
next
  case (Cons x fl)
  then show ?case by (subst find_fit.simps) auto
qed

end
