(* ===== verification/ArenaHeap.thy ===== *)
theory ArenaHeap
  imports FreeList
begin

text \<open>
  The heap invariant of the arena and that every operation keeps it. The abstract heap is a map from block
  offsets to block sizes that tiles the arena behind the control block, and the list of its free blocks.
\<close>

section \<open>Invariant\<close>

type_synonym blocks = "nat \<rightharpoonup> nat"

text \<open>The blocks tile the range: no overlap, and each one starts where another ends.\<close>

definition layout :: "nat \<Rightarrow> blocks \<Rightarrow> bool" where
  "layout c B \<longleftrightarrow> finite (dom B) \<and> 64 \<in> dom B
     \<and> (\<forall>x s. B x = Some s \<longrightarrow> 64 \<le> x \<and> 24 \<le> s \<and> 8 dvd x \<and> 8 dvd s \<and> x + s \<le> c
          \<and> (x + s = c \<or> x + s \<in> dom B) \<and> (x = 64 \<or> (\<exists>y t. B y = Some t \<and> y + t = x)))
     \<and> (\<forall>x s y t. B x = Some s \<longrightarrow> B y = Some t \<longrightarrow> x < y \<longrightarrow> x + s \<le> y)"

text \<open>What the header and the footer of a block say.\<close>

definition tag :: "mem \<Rightarrow> nat \<Rightarrow> nat \<Rightarrow> bool \<Rightarrow> bool" where
  "tag m x s f \<longleftrightarrow> blk_size m x = s \<and> read32 m (x + s - 4) = s \<and> (blk_free m x \<noteq> 0) = f"

definition tagged :: "mem \<Rightarrow> blocks \<Rightarrow> nat set \<Rightarrow> bool" where
  "tagged m B F \<longleftrightarrow> (\<forall>x s. B x = Some s \<longrightarrow> tag m x s (x \<in> F))"

definition usedOf :: "blocks \<Rightarrow> nat set \<Rightarrow> nat" where
  "usedOf B F = (\<Sum>x\<in>dom B - F. the (B x) - 20)"

definition apart :: "blocks \<Rightarrow> nat set \<Rightarrow> bool" where
  "apart B F \<longleftrightarrow> (\<forall>x s. B x = Some s \<longrightarrow> x \<in> F \<longrightarrow> x + s \<notin> F)"

definition heap_inv :: "arena \<Rightarrow> blocks \<Rightarrow> nat list \<Rightarrow> bool" where
  "heap_inv a B fl \<longleftrightarrow> opened a \<and> cap a < 2 ^ 32 \<and> heap (ctl a) = 64 \<and> heap_end (ctl a) = cap a
     \<and> layout (cap a) B \<and> tagged (mem a) B (set fl) \<and> linked a fl \<and> set fl \<subseteq> dom B
     \<and> apart B (set fl) \<and> used (ctl a) = usedOf B (set fl)"

section \<open>Layouts\<close>

lemma layoutD:
  assumes "layout c B" "B x = Some s"
  shows "64 \<le> x" "24 \<le> s" "8 dvd x" "8 dvd s" "x + s \<le> c" "x + s = c \<or> x + s \<in> dom B"
    "x = 64 \<or> (\<exists>y t. B y = Some t \<and> y + t = x)"
  using assms by (auto simp: layout_def)

lemma layout_sep:
  "layout c B \<Longrightarrow> B x = Some s \<Longrightarrow> B y = Some t \<Longrightarrow> x \<noteq> y \<Longrightarrow> x + s \<le> y \<or> y + t \<le> x"
  by (metis layout_def nat_neq_iff)

lemma layout_spaced: "layout c B \<Longrightarrow> c < 2 ^ 32 \<Longrightarrow> X \<subseteq> dom B \<Longrightarrow> spaced X"
  unfolding spaced_def
proof (intro conjI ballI impI)
  fix x assume "layout c B" "c < 2 ^ 32" "X \<subseteq> dom B" "x \<in> X"
  then obtain s where "B x = Some s" by auto
  from layoutD [OF \<open>layout c B\<close> this] \<open>c < 2 ^ 32\<close> show "0 < x" "x < 2 ^ 32" by auto
next
  fix x y assume l: "layout c B" and "X \<subseteq> dom B" "x \<in> X" "y \<in> X" "x < y"
  then obtain s t where "B x = Some s" "B y = Some t" by (meson domD subsetD)
  then show "x + 16 \<le> y" using l \<open>x < y\<close> layoutD(2) [OF l, of x s] layout_sep [OF l, of x s y t] by auto
qed

lemma layout_gap: "layout c B \<Longrightarrow> B x = Some s \<Longrightarrow> x < y \<Longrightarrow> y < x + s \<Longrightarrow> B y = None"
  using layout_sep [of c B x s y] layoutD(2) [of c B y] by (cases "B y") fastforce+

lemma layout_split:
  assumes l: "layout c B" and B: "B x = Some s" and w: "24 \<le> w" "8 dvd w" "24 \<le> s - w"
  shows "layout c (B(x \<mapsto> w, x + w \<mapsto> s - w))"
proof -
  let ?B = "B(x \<mapsto> w, x + w \<mapsto> s - w)"
  note X = layoutD [OF l B]
  have 8: "8 dvd x + w" "8 dvd s - w" using X w by (auto intro: dvd_diff_nat)
  have new: "?B y = Some t \<Longrightarrow> (y = x \<and> t = w) \<or> (y = x + w \<and> t = s - w) \<or> (y \<noteq> x \<and> y \<noteq> x + w \<and> B y = Some t)" for y t
    using w by (auto split: if_splits)
  have other: "y + t \<le> x \<or> x + s \<le> y" if "y \<noteq> x" "B y = Some t" for y t
    using layout_sep [OF l that(2) B that(1)] .
  have ends: "y + t = c \<or> y + t \<in> dom ?B" if "B y = Some t" for y t using layoutD(6) [OF l that] by auto
  have starts: "y = 64 \<or> (\<exists>z u. ?B z = Some u \<and> z + u = y)" if y: "B y = Some t" for y t
  proof -
    consider "y = 64" | z u where "B z = Some u" "z + u = y" using layoutD(7) [OF l y] by blast
    then show ?thesis
    proof cases
      case (2 z u)
      show ?thesis
      proof (cases "z = x")
        case True
        then have "?B (x + w) = Some (s - w) \<and> x + w + (s - w) = y" using 2 B w by auto
        then show ?thesis by blast
      next
        case False
        then have "z \<noteq> x + w" using 2 layout_gap [OF l B, of "x + w"] w by auto
        with False 2 show ?thesis by (metis fun_upd_apply)
      qed
    qed simp
  qed
  show ?thesis
    unfolding layout_def
  proof (intro conjI allI impI)
    show "finite (dom ?B)" "64 \<in> dom ?B" using l by (auto simp: layout_def)
    fix y t assume y: "?B y = Some t"
    show "64 \<le> y" "24 \<le> t" "8 dvd y" "8 dvd t" "y + t \<le> c"
      using new [OF y] X w 8 layoutD [OF l, of y t] by auto
    show "y + t = c \<or> y + t \<in> dom ?B"
      using new [OF y] ends [OF B] ends [of y t] w by auto
    show "y = 64 \<or> (\<exists>z u. ?B z = Some u \<and> z + u = y)"
      using new [OF y] starts [OF B] starts [of y t] w by (metis fun_upd_apply add_left_cancel less_nat_zero_code not_numeral_le_zero add.right_neutral)
  next
    fix y t z u assume "?B y = Some t" "?B z = Some u" "y < z"
    with new [of y t] new [of z u] other [of y t] other [of z u] w layout_sep [OF l, of y t z u] layoutD(2) [OF l, of z u] show "y + t \<le> z"
      by fastforce
  qed
qed

lemma layout_join:
  assumes l: "layout c B" and B: "B x = Some s" "B (x + s) = Some t"
  shows "layout c (B(x \<mapsto> s + t, x + s := None))"
proof -
  let ?B = "B(x \<mapsto> s + t, x + s := None)"
  note X = layoutD [OF l B(1)] and Y = layoutD [OF l B(2)]
  have new: "?B y = Some u \<Longrightarrow> (y = x \<and> u = s + t) \<or> (y \<noteq> x \<and> y \<noteq> x + s \<and> B y = Some u)" for y u
    using X(2) by (auto split: if_splits)
  have other: "y + u \<le> x \<or> x + s + t \<le> y" if "y \<noteq> x" "y \<noteq> x + s" "B y = Some u" for y u
    using layout_sep [OF l that(3) B(1) that(1)] layout_sep [OF l that(3) B(2) that(2)] layoutD(2) [OF l that(3)] X(2) by linarith
  have ends: "y + u = c \<or> y + u \<in> dom ?B" if "?B y = Some u" for y u
    using new [OF that] layoutD(6) [OF l, of y u] Y(6) other [of y u] X(2) Y(2)
    by (auto simp: add.assoc)
  have starts: "y = 64 \<or> (\<exists>z v. ?B z = Some v \<and> z + v = y)" if "?B y = Some u" for y u
  proof -
    have y: "y \<noteq> x + s" "y \<in> dom B" using new [OF that] B X(2) by auto
    then consider "y = 64" | z v where "B z = Some v" "z + v = y" using layoutD(7) [OF l] by blast
    then show ?thesis
    proof cases
      case (2 z v)
      have "z \<noteq> x" using 2 y(1) B(1) by auto
      show ?thesis
      proof (cases "z = x + s")
        case True
        then have "?B x = Some (s + t) \<and> x + (s + t) = y" using 2 B X(2) by auto
        then show ?thesis by blast
      next
        case False
        with \<open>z \<noteq> x\<close> 2 show ?thesis by (metis fun_upd_apply)
      qed
    qed simp
  qed
  show ?thesis
    unfolding layout_def
  proof (intro conjI allI impI)
    show "finite (dom ?B)" "64 \<in> dom ?B" using l X(1,2) by (auto simp: layout_def)
    fix y u assume y: "?B y = Some u"
    show "64 \<le> y" "24 \<le> u" "8 dvd y" "8 dvd u" "y + u \<le> c"
      using new [OF y] X Y layoutD [OF l, of y u] by auto
    show "y + u = c \<or> y + u \<in> dom ?B" by (rule ends [OF y])
    show "y = 64 \<or> (\<exists>z v. ?B z = Some v \<and> z + v = y)" by (rule starts [OF y])
  next
    fix y u z v assume "?B y = Some u" "?B z = Some v" "y < z"
    with new [of y u] new [of z v] other [of y u] other [of z v] layout_sep [OF l, of y u z v] layoutD(2) [OF l, of z v] show "y + u \<le> z"
      by fastforce
  qed
qed

section \<open>Tags\<close>

lemma tag_cong:
  assumes "24 \<le> s" "\<And>y. x \<le> y \<Longrightarrow> y < x + s \<Longrightarrow> y \<notin> links x \<Longrightarrow> m' y = m y"
  shows "tag m' x s f = tag m x s f"
proof -
  have "read32 m' x = read32 m x" "read32 m' (x + 4) = read32 m (x + 4)" "read32 m' (x + s - 4) = read32 m (x + s - 4)"
    by (rule read32_cong, rule assms(2), use assms(1) in \<open>auto simp: links_def\<close>)+
  then show ?thesis by (simp add: tag_def field_defs)
qed

lemma tagged_cong:
  assumes l: "layout c B" and "\<And>y. (\<forall>z\<in>dom B. y \<notin> links z) \<Longrightarrow> m' y = m y"
  shows "tagged m' B F = tagged m B F"
proof -
  have "tag m' x s f = tag m x s f" if B: "B x = Some s" for x s f
  proof (rule tag_cong)
    show "24 \<le> s" using layoutD [OF l B] by simp
    fix y assume y: "x \<le> y" "y < x + s" "y \<notin> links x"
    have "y \<notin> links z" if z: "z \<in> dom B" for z
    proof (cases "z = x")
      case False
      obtain t where t: "B z = Some t" using z by auto
      with layout_sep [OF l B t] False layoutD(2) [OF l t] y show ?thesis by (auto simp: links_def)
    qed (use y in simp)
    then show "m' y = m y" using assms(2) by blast
  qed
  then show ?thesis by (auto simp: tagged_def)
qed

lemma taggedD: "tagged m B F \<Longrightarrow> B x = Some s \<Longrightarrow> tag m x s (x \<in> F)"
  by (simp add: tagged_def)

lemma tag_other:
  assumes l: "layout c B" and B: "B x = Some s" "B y = Some t" "x \<noteq> y"
    and "\<And>z. \<not> (y \<le> z \<and> z < y + t) \<Longrightarrow> m' z = m z"
  shows "tag m' x s f = tag m x s f"
  using layoutD(2) [OF l B(1)] layout_sep [OF l B] assms(5) by (intro tag_cong) auto


section \<open>Allocation\<close>

lemma usedOf_take:
  assumes "finite (dom B)" "B x = Some s" "x \<in> F"
  shows "usedOf B (F - {x}) = usedOf B F + (s - 20)"
proof -
  have "dom B - (F - {x}) = insert x (dom B - F)" using assms by auto
  moreover have "finite (dom B - F)" "x \<notin> dom B - F" using assms by auto
  ultimately show ?thesis using assms by (simp add: usedOf_def)
qed

lemma used_add: "20 \<le> s \<Longrightarrow> u + (s - 20) < 2 ^ 64 \<Longrightarrow> wrap64 (u + s + 2 ^ 64 - HDR - FTR) = u + (s - 20)"
proof -
  assume "20 \<le> s" "u + (s - 20) < 2 ^ 64"
  moreover have "u + s + 2 ^ 64 - HDR - FTR = (u + (s - 20)) + 2 ^ 64" using \<open>20 \<le> s\<close> by (simp add: arena_consts)
  ultimately show ?thesis by (simp only: wrap64_def mod_add_self2 mod_less)
qed

lemma used_sub: "20 \<le> s \<Longrightarrow> s - 20 \<le> u \<Longrightarrow> u < 2 ^ 64 \<Longrightarrow> wrap64 (u + 2 ^ 64 + HDR + FTR - s) = u - (s - 20)"
proof -
  assume a: "20 \<le> s" "s - 20 \<le> u" "u < 2 ^ 64"
  then have "u + 2 ^ 64 + HDR + FTR - s = (u - (s - 20)) + 2 ^ 64" by (simp add: arena_consts)
  moreover have "u - (s - 20) < 2 ^ 64" using a by simp
  ultimately show ?thesis by (simp only: wrap64_def mod_add_self2 mod_less)
qed

lemma usedOf_bound:
  assumes l: "layout c B"
  shows "usedOf B F \<le> c"
proof -
  have "(\<Sum>x\<in>X. the (B x)) \<le> c" if fin: "finite X" and sub: "X \<subseteq> dom B" for X
  proof -
    have "(\<Sum>x\<in>X. the (B x)) = (\<Sum>x\<in>X. card {x..<x + the (B x)})" by simp
    also have "\<dots> = card (\<Union>x\<in>X. {x..<x + the (B x)})"
    proof (rule card_UN_disjoint [symmetric])
      show "\<forall>i\<in>X. \<forall>j\<in>X. i \<noteq> j \<longrightarrow> {i..<i + the (B i)} \<inter> {j..<j + the (B j)} = {}"
      proof (intro ballI impI)
        fix i j assume "i \<in> X" "j \<in> X" "i \<noteq> j"
        then obtain u v where "B i = Some u" "B j = Some v" using sub by (meson domD subsetD)
        with layout_sep [OF l this \<open>i \<noteq> j\<close>] show "{i..<i + the (B i)} \<inter> {j..<j + the (B j)} = {}" by auto
      qed
    qed (use fin in auto)
    also have "\<dots> \<le> card {0..<c}"
    proof (rule card_mono)
      show "(\<Union>x\<in>X. {x..<x + the (B x)}) \<subseteq> {0..<c}"
      proof
        fix z assume "z \<in> (\<Union>x\<in>X. {x..<x + the (B x)})"
        then obtain x where x: "x \<in> X" "x \<le> z" "z < x + the (B x)" by auto
        then obtain s where "B x = Some s" using sub by (meson domD subsetD)
        with layoutD(5) [OF l this] x show "z \<in> {0..<c}" by simp
      qed
    qed simp
    finally show ?thesis by simp
  qed
  moreover have "usedOf B F \<le> (\<Sum>x\<in>dom B - F. the (B x))" unfolding usedOf_def by (intro sum_mono) simp
  ultimately show ?thesis using l by (meson Diff_subset finite_Diff layout_def le_trans)
qed

text \<open>Bytes a block owns, and the payload it hands out.\<close>

definition inside :: "nat \<Rightarrow> nat \<Rightarrow> nat \<Rightarrow> bool" where
  "inside x s y \<longleftrightarrow> x \<le> y \<and> y < x + s"

lemma heap_spaced: "heap_inv a B fl \<Longrightarrow> spaced (set fl)"
  by (auto simp: heap_inv_def intro: layout_spaced)

lemma unlink_tagged:
  assumes "layout c B" "spaced (set (xs @ x # ys))" "linked a (xs @ x # ys)" "set (xs @ ys) \<subseteq> dom B"
  shows "tagged (mem (unlink x a)) B F = tagged (mem a) B F"
  using assms(4) by (intro tagged_cong [OF assms(1)] unlink_spec(2) [OF assms(2,3)]) blast

lemma carve_whole:
  assumes inv: "heap_inv a B (xs @ x # ys)" and B: "B x = Some s" and w: "s - want < 24"
  shows "heap_inv (carve x want a) B (xs @ ys)"
    "\<And>y. (\<forall>z\<in>set (xs @ ys). y \<notin> links z) \<Longrightarrow> \<not> inside x 16 y \<Longrightarrow> mem (carve x want a) y = mem a y"
proof -
  let ?u = "unlink x a" and ?fl = "xs @ x # ys"
  from inv have l: "layout (cap a) B" and t: "tagged (mem a) B (set ?fl)" and lk: "linked a ?fl"
    and sub: "set ?fl \<subseteq> dom B" and c32: "cap a < 2 ^ 32" by (auto simp: heap_inv_def)
  note U = unlink_spec [OF heap_spaced [OF inv] lk]
  have ds: "x \<notin> set (xs @ ys)" using lk by (simp add: linked_def)
  have tu: "tagged (mem ?u) B (set ?fl)"
    using t unlink_tagged [OF l heap_spaced [OF inv] lk] sub by simp
  then have sz: "blk_size (mem ?u) x = s" using B by (auto simp: tagged_def tag_def)
  let ?m = "set_free x 0 (mem ?u)"
  have c: "carve x want a = ?u\<lparr>mem := ?m, ctl := (ctl ?u)\<lparr>used := wrap64 (used (ctl ?u) + s + 2 ^ 64 - HDR - FTR)\<rparr>\<rparr>"
    using sz w by (simp add: carve_def Let_def MIN_BLOCK_24) (simp add: field_defs mem_simps)
  have mo: "?m y = mem ?u y" if "\<not> inside x 16 y" for y
    using that by (auto simp: set_free_def inside_def write32_other)
  note X = layoutD [OF l B]
  have tx: "tag ?m x s False"
  proof -
    have "tag (mem ?u) x s True" using taggedD [OF tu B] by simp
    then show ?thesis using X(2) by (auto simp: tag_def field_defs mem_simps wrap32_def)
  qed
  have "tag ?m y u (y \<in> set (xs @ ys))" if y: "B y = Some u" for y u
  proof (cases "y = x")
    case True
    then show ?thesis using tx y B ds by simp
  next
    case False
    have "tag ?m y u f = tag (mem ?u) y u f" for f
      by (rule tag_other [OF l y B False], rule mo) (use X(2) in \<open>auto simp: inside_def\<close>)
    then show ?thesis using taggedD [OF tu y] False by simp
  qed
  then have tm: "tagged ?m B (set (xs @ ys))" by (simp add: tagged_def)
  have "dseg ?m 0 (xs @ ys) 0 = dseg (mem ?u) 0 (xs @ ys) 0"
  proof (rule dseg_cong)
    fix z y assume z: "z \<in> set (xs @ ys)" "y \<in> links z"
    then have "z \<noteq> x" "z \<in> dom B" using ds sub by auto
    then show "?m y = mem ?u y" using spacedD [OF heap_spaced [OF inv], of x z] z by (intro mo) (auto simp: links_def inside_def)
  qed
  then have lk': "linked (carve x want a) (xs @ ys)" using U(1) by (simp add: linked_def c)
  have us: "used (ctl (carve x want a)) = usedOf B (set (xs @ ys))"
  proof -
    have "set (xs @ ys) = set ?fl - {x}" using ds by auto
    then have "usedOf B (set (xs @ ys)) = usedOf B (set ?fl) + (s - 20)"
      using usedOf_take [of B x s "set ?fl"] B l by (simp add: layout_def)
    moreover have "used (ctl ?u) = usedOf B (set ?fl)" using inv by (simp add: U heap_inv_def)
    moreover have "usedOf B (set (xs @ ys)) < 2 ^ 64" using usedOf_bound [OF l, of "set (xs @ ys)"] c32 by simp
    ultimately show ?thesis using X(2) used_add [of s "usedOf B (set ?fl)"] by (simp add: c)
  qed
  have ap: "apart B (set (xs @ ys))" using inv by (auto simp: heap_inv_def apart_def)
  show "heap_inv (carve x want a) B (xs @ ys)"
    using inv lk' us tm ap sub unfolding heap_inv_def by (simp add: c U)
  show "mem (carve x want a) y = mem a y" if "\<forall>z\<in>set (xs @ ys). y \<notin> links z" "\<not> inside x 16 y" for y
    using mo [OF that(2)] U(2) [OF that(1)] by (simp add: c)
qed


text \<open>The stores of a split after the list has been updated.\<close>

definition split_mem :: "nat \<Rightarrow> nat \<Rightarrow> nat \<Rightarrow> mem \<Rightarrow> mem" where
  "split_mem x want s m = set_free x 0 (write32 (set_size x want (write32 m (x + s - 4) (s - want))) (x + want - 4) want)"

lemma split_mem_spec:
  assumes w: "24 \<le> want" "24 \<le> s - want" "s < 2 ^ 32"
  shows "tag (split_mem x want s m) x want False"
    "tag (split_mem x want s m) (x + want) (s - want) f = ((blk_size m (x + want) = s - want) \<and> (blk_free m (x + want) \<noteq> 0) = f)"
    "y \<in> links (x + want) \<Longrightarrow> split_mem x want s m y = m y"
    "\<not> inside x s y \<Longrightarrow> split_mem x want s m y = m y"
proof -
  have fits: "want < 2 ^ 32" "s - want < 2 ^ 32" "want + 24 \<le> s" using w by auto
  show "tag (split_mem x want s m) x want False"
    using w fits by (simp add: tag_def split_mem_def field_defs mem_simps)
  show "tag (split_mem x want s m) (x + want) (s - want) f = ((blk_size m (x + want) = s - want) \<and> (blk_free m (x + want) \<noteq> 0) = f)"
  proof -
    have "x + want - 4 + 4 \<le> x + s - 4" "x + 4 + 4 \<le> x + s - 4" "x + want + 8 \<le> x + s - 4" using w(1) fits by auto
    then show ?thesis using w(1) fits by (simp add: tag_def split_mem_def field_defs mem_simps)
  qed
  show "y \<in> links (x + want) \<Longrightarrow> split_mem x want s m y = m y"
    using w fits by (auto simp: split_mem_def set_free_def set_size_def links_def intro!: write32_other [THEN trans])
  show "\<not> inside x s y \<Longrightarrow> split_mem x want s m y = m y"
    using w fits by (auto simp: split_mem_def set_free_def set_size_def inside_def write32_other)
qed

lemma carve_split_eq:
  assumes w: "24 \<le> want" "24 \<le> s - want" "x + s < 2 ^ 32"
    and u: "blk_size (mem (unlink x a)) x = s"
  defines "a2 \<equiv> (unlink x a)\<lparr>mem := set_free (x + want) 1 (set_size (x + want) (s - want) (mem (unlink x a)))\<rparr>"
  assumes p: "blk_size (mem (push_front (x + want) a2)) (x + want) = s - want"
  shows "carve x want a = (push_front (x + want) a2)\<lparr>mem := split_mem x want s (mem (push_front (x + want) a2)),
     ctl := (ctl (push_front (x + want) a2))\<lparr>used := wrap64 (used (ctl (unlink x a)) + want + 2 ^ 64 - HDR - FTR)\<rparr>\<rparr>"
proof -
  have w32: "wrap32 want = want" "wrap32 (x + want) = x + want" using w by (auto intro!: wrap32_id)
  have xs: "x + want + (s - want) - 4 = x + s - 4" using w by simp
  have used: "used (ctl (push_front (x + want) a2)) = used (ctl (unlink x a))" by (simp add: push_front_def Let_def a2_def)
  let ?m = "write32 (mem (push_front (x + want) a2)) (x + s - 4) (s - want)"
  have sz: "blk_size (set_size x want ?m) x = want" "blk_size (split_mem x want s (mem (push_front (x + want) a2))) x = want"
    using w w32 by (simp_all add: field_defs mem_simps split_mem_def)
  have f1: "set_foot (x + want) (s - want) (mem (push_front (x + want) a2)) = ?m"
    using p xs by (simp add: set_foot_def FTR_def)
  have f2: "set_foot x want (set_size x want ?m) = write32 (set_size x want ?m) (x + want - 4) want"
    using sz by (simp add: set_foot_def FTR_def)
  show ?thesis
    using w unfolding carve_def Let_def u w32 MIN_BLOCK_24 a2_def [symmetric]
    by (simp add: p f1 sz f2 split_mem_def [symmetric] used)
qed

lemma carve_split:
  assumes inv: "heap_inv a B (xs @ x # ys)" and B: "B x = Some s"
    and w: "24 \<le> want" "8 dvd want" "24 \<le> s - want"
  shows "heap_inv (carve x want a) (B(x \<mapsto> want, x + want \<mapsto> s - want)) ((x + want) # xs @ ys)"
    "\<And>y. (\<forall>z\<in>set (xs @ ys). y \<notin> links z) \<Longrightarrow> \<not> inside x s y \<Longrightarrow> mem (carve x want a) y = mem a y"
proof -
  let ?u = "unlink x a" and ?fl = "xs @ x # ys" and ?r = "x + want" and ?B = "B(x \<mapsto> want, x + want \<mapsto> s - want)"
  let ?fl' = "?r # xs @ ys"
  define a2 where "a2 = ?u\<lparr>mem := set_free ?r 1 (set_size ?r (s - want) (mem ?u))\<rparr>"
  from inv have l: "layout (cap a) B" and t: "tagged (mem a) B (set ?fl)" and lk: "linked a ?fl"
    and sub: "set ?fl \<subseteq> dom B" and c32: "cap a < 2 ^ 32" and ap: "apart B (set ?fl)" by (auto simp: heap_inv_def)
  note U = unlink_spec [OF heap_spaced [OF inv] lk]
  note X = layoutD [OF l B]
  have s32: "x + s < 2 ^ 32" "s < 2 ^ 32" "want < s" using X c32 w by auto
  have ds: "x \<notin> set (xs @ ys)" using lk by (simp add: linked_def)
  have rB: "B ?r = None" using layout_gap [OF l B, of ?r] w s32 by auto
  then have rfl: "?r \<notin> set ?fl" using sub by (meson domIff subsetD)
  have l': "layout (cap a) ?B" by (rule layout_split [OF l B w])
  have sub': "set ?fl' \<subseteq> dom ?B" using sub ds w(1) by auto
  have sp': "spaced (set ?fl')" by (rule layout_spaced [OF l' c32 sub'])
  have out: "\<not> inside x s y" if z: "z \<in> set (xs @ ys)" and y: "y \<in> links z" for y z
  proof -
    obtain v where v: "B z = Some v" "z \<noteq> x" using z sub ds by force
    with layout_sep [OF l v(1) B v(2)] layoutD(2) [OF l v(1)] y show ?thesis by (auto simp: links_def inside_def)
  qed
  have m2: "mem a2 y = mem ?u y" if "\<not> (?r \<le> y \<and> y < ?r + 8)" for y
    using that by (auto simp: a2_def set_free_def set_size_def write32_other)
  have "dseg (mem a2) 0 (xs @ ys) 0 = dseg (mem ?u) 0 (xs @ ys) 0"
    by (rule dseg_cong, rule m2) (use out w in \<open>force simp: inside_def\<close>)
  then have lk2: "linked a2 (xs @ ys)" using U(1) by (simp add: linked_def a2_def)
  have r2: "blk_size (mem a2) ?r = s - want" "blk_free (mem a2) ?r = 1"
    using s32 by (simp_all add: a2_def field_defs mem_simps)
  note P = push_front_spec [OF sp' lk2]
  let ?a3 = "push_front ?r a2"
  have rn: "?r \<notin> set (xs @ ys)" using rfl by auto
  have r3: "blk_size (mem ?a3) ?r = s - want" "blk_free (mem ?a3) ?r = 1"
  proof -
    have "mem ?a3 y = mem a2 y" if y: "?r \<le> y" "y < ?r + 8" for y
    proof (rule P(2) [OF rn], rule ballI)
      fix z assume z: "z \<in> set ?fl'"
      show "y \<notin> links z"
      proof (cases "z = ?r")
        case False
        then show ?thesis using spacedD [OF sp' z, of ?r] y by (auto simp: links_def)
      qed (use y in \<open>simp add: links_def\<close>)
    qed
    then have "read32 (mem ?a3) ?r = read32 (mem a2) ?r" "read32 (mem ?a3) (?r + 4) = read32 (mem a2) (?r + 4)"
      by (auto intro!: read32_cong)
    then show "blk_size (mem ?a3) ?r = s - want" "blk_free (mem ?a3) ?r = 1" using r2 by (simp_all add: field_defs)
  qed
  have "tagged (mem ?u) B (set ?fl)" using t unlink_tagged [OF l heap_spaced [OF inv] lk] sub by simp
  from taggedD [OF this B] have sz: "blk_size (mem ?u) x = s" by (simp add: tag_def)
  note C = carve_split_eq [OF w(1,3) s32(1) sz, folded a2_def, OF r3(1)]
  let ?m = "split_mem x want s (mem ?a3)"
  note M = split_mem_spec [OF w(1,3) s32(2), where x = x and m = "mem ?a3"]
  show frame: "mem (carve x want a) y = mem a y" if y: "\<forall>z\<in>set (xs @ ys). y \<notin> links z" "\<not> inside x s y" for y
  proof -
    have "y \<notin> links ?r" using y(2) w s32 by (auto simp: links_def inside_def)
    then have "mem ?a3 y = mem a2 y" using y by (intro P(2) [OF rn]) auto
    also have "\<dots> = mem ?u y" using y(2) w s32 by (intro m2) (auto simp: inside_def)
    finally show ?thesis using M(4) [OF y(2)] U(2) [OF y(1)] by (simp add: C)
  qed
  have "tag ?m y v (y \<in> set ?fl')" if y: "?B y = Some v" for y v
  proof -
    consider "y = x" "v = want" | "y = ?r" "v = s - want" | "y \<noteq> x" "y \<noteq> ?r" "B y = Some v"
      using y w by (auto split: if_splits)
    then show ?thesis
    proof cases
      case 1
      then show ?thesis using M(1) ds w by simp
    next
      case 2
      then show ?thesis using M(2) [of True] r3 by simp
    next
      case 3
      have "tag ?m y v f = tag (mem a) y v f" for f
      proof (rule tag_cong)
        show "24 \<le> v" using layoutD(2) [OF l 3(3)] .
        fix q assume q: "y \<le> q" "q < y + v" "q \<notin> links y"
        have "\<forall>z\<in>set (xs @ ys). q \<notin> links z"
        proof
          fix z assume "z \<in> set (xs @ ys)"
          then obtain k where k: "B z = Some k" using sub by force
          show "q \<notin> links z"
            using q layout_sep [OF l 3(3) k] layoutD(2) [OF l k] by (cases "z = y") (auto simp: links_def)
        qed
        moreover have "\<not> inside x s q" using q layout_sep [OF l 3(3) B 3(1)] by (auto simp: inside_def)
        ultimately show "?m q = mem a q" using frame [of q] by (simp add: C)
      qed
      then show ?thesis using taggedD [OF t 3(3)] 3 by simp
    qed
  qed
  then have tm: "tagged ?m ?B (set ?fl')" by (simp add: tagged_def)
  have "dseg ?m 0 ?fl' 0 = dseg (mem ?a3) 0 ?fl' 0"
    by (rule dseg_cong) (use M(3,4) out in auto)
  then have lk': "linked (carve x want a) ?fl'" using P(1) [OF rn] by (simp add: linked_def C)
  have us: "used (ctl (carve x want a)) = usedOf ?B (set ?fl')"
  proof -
    have "dom ?B - set ?fl' = insert x (dom B - set ?fl)" using ds rB B w by auto
    moreover have "(\<Sum>y\<in>dom B - set ?fl. the (?B y) - 20) = (\<Sum>y\<in>dom B - set ?fl. the (B y) - 20)"
      using rB by (intro sum.cong) (auto simp: domIff)
    ultimately have e: "usedOf ?B (set ?fl') = usedOf B (set ?fl) + (want - 20)"
      using l w by (simp add: usedOf_def layout_def)
    moreover have "used (ctl ?u) = usedOf B (set ?fl)" using inv by (simp add: U heap_inv_def)
    moreover have "usedOf ?B (set ?fl') < 2 ^ 64" using usedOf_bound [OF l', of "set ?fl'"] c32 by simp
    ultimately show ?thesis using w(1) used_add [of want "usedOf B (set ?fl)"] by (simp add: C)
  qed
  have ap': "apart ?B (set ?fl')"
    unfolding apart_def
  proof (intro allI impI)
    fix y v assume y: "?B y = Some v" "y \<in> set ?fl'"
    have nx: "x + s \<notin> set ?fl" using ap B by (auto simp: apart_def)
    show "y + v \<notin> set ?fl'"
    proof (cases "y = ?r")
      case True
      then have "y + v = x + s" using y(1) s32 by auto
      then show ?thesis using nx w s32 by auto
    next
      case False
      then have v: "B y = Some v" "y \<in> set ?fl" "y \<noteq> x" using y ds by (auto split: if_splits)
      then have "y + v \<notin> set ?fl" using ap by (auto simp: apart_def)
      moreover have "y + v \<noteq> ?r" using layout_sep [OF l v(1) B v(3)] w s32 v(3) layoutD(2) [OF l v(1)] by auto
      ultimately show ?thesis by auto
    qed
  qed
  show "heap_inv (carve x want a) ?B ?fl'"
    using inv lk' us tm ap' sub' l' P(3-5) [OF rn] U(3-5) unfolding heap_inv_def by (simp add: C) (simp add: a2_def)
qed

end
