(* ===== verification/ArenaFree.thy ===== *)
theory ArenaFree
  imports ArenaHeap
begin

text \<open>
  \<open>Arena::free\<close> keeps the heap invariant. Between taking the block out of the used count and pushing it on the
  free list, one block is neither live nor free; \<open>open_inv\<close> is the invariant of those states.
\<close>

definition open_inv :: "arena \<Rightarrow> blocks \<Rightarrow> nat list \<Rightarrow> nat \<Rightarrow> bool" where
  "open_inv a B fl x \<longleftrightarrow> opened a \<and> cap a < 2 ^ 32 \<and> heap (ctl a) = 64 \<and> heap_end (ctl a) = cap a
     \<and> layout (cap a) B \<and> (\<forall>y t. B y = Some t \<longrightarrow> y \<noteq> x \<longrightarrow> tag (mem a) y t (y \<in> set fl))
     \<and> B x = Some (blk_size (mem a) x) \<and> x \<notin> set fl
     \<and> linked a fl \<and> set fl \<subseteq> dom B \<and> apart B (set fl) \<and> used (ctl a) = usedOf B (insert x (set fl))"

text \<open>The bytes of a set of blocks.\<close>

definition extent :: "blocks \<Rightarrow> nat set \<Rightarrow> nat set" where
  "extent B X = {y. \<exists>x\<in>X. \<exists>s. B x = Some s \<and> inside x s y}"

definition frame :: "nat set \<Rightarrow> arena \<Rightarrow> arena \<Rightarrow> bool" where
  "frame R a a' \<longleftrightarrow> (\<forall>y. y \<notin> R \<longrightarrow> mem a' y = mem a y)"

lemma extent_member: "q \<in> extent B X \<longleftrightarrow> (\<exists>y\<in>X. q \<in> extent B {y})"
  by (auto simp: extent_def)

lemma frame_refl: "frame R a a"
  by (simp add: frame_def)

lemma frame_trans: "frame R a b \<Longrightarrow> frame R b c \<Longrightarrow> frame R a c"
  by (simp add: frame_def)

lemma frame_mono: "frame R a b \<Longrightarrow> R \<subseteq> R' \<Longrightarrow> frame R' a b"
  by (auto simp: frame_def)

lemma open_inv_spaced: "open_inv a B fl x \<Longrightarrow> spaced (insert x (set fl))"
  by (auto simp: open_inv_def intro!: layout_spaced)

lemma open_tag: "open_inv a B fl x \<Longrightarrow> B y = Some t \<Longrightarrow> y \<noteq> x \<Longrightarrow> tag (mem a) y t (y \<in> set fl)"
  by (simp add: open_inv_def)

lemma links_extent:
  assumes "layout c B" "X \<subseteq> dom B" "z \<in> X" "y \<in> links z"
  shows "y \<in> extent B X"
proof -
  obtain s where s: "B z = Some s" using assms by auto
  have "inside z s y" using layoutD(2) [OF assms(1) s] assms(4) by (auto simp: links_def inside_def)
  with s assms(3) show ?thesis by (auto simp: extent_def)
qed

lemma tag_frame:
  assumes l: "layout c B" and y: "B y = Some t" "y \<notin> X" and X: "X \<subseteq> dom B" and F: "F \<subseteq> dom B"
    and m: "\<And>q. q \<notin> extent B X \<Longrightarrow> (\<forall>z\<in>F. q \<notin> links z) \<Longrightarrow> m' q = m q"
  shows "tag m' y t f = tag m y t f"
proof (rule tag_cong)
  show "24 \<le> t" using layoutD(2) [OF l y(1)] .
  fix q assume q: "y \<le> q" "q < y + t" "q \<notin> links y"
  show "m' q = m q"
  proof (rule m)
    show "q \<notin> extent B X"
    proof
      assume "q \<in> extent B X"
      then obtain x s where x: "x \<in> X" "B x = Some s" "inside x s q" by (auto simp: extent_def)
      then have "x \<noteq> y" using y by auto
      with layout_sep [OF l x(2) y(1)] x(3) q show False by (auto simp: inside_def)
    qed
    show "\<forall>z\<in>F. q \<notin> links z"
    proof
      fix z assume "z \<in> F"
      then obtain u where u: "B z = Some u" using F by auto
      show "q \<notin> links z"
      proof (cases "z = y")
        case False
        with layout_sep [OF l u y(1)] layoutD(2) [OF l u] q show ?thesis by (auto simp: links_def)
      qed (use q in simp)
    qed
  qed
qed

text \<open>Taking one block off the free list while another is open.\<close>

lemma open_unlink:
  assumes inv: "open_inv a B (xs @ z # ys) x" and m: "m = mem (unlink z a)"
  shows "linked (unlink z a) (xs @ ys)" "z \<noteq> x" "z \<notin> set (xs @ ys)"
    "\<And>y t f. B y = Some t \<Longrightarrow> tag m y t f = tag (mem a) y t f"
    "blk_size m x = blk_size (mem a) x"
    "frame (extent B (insert x (set (xs @ z # ys)))) a (unlink z a)"
    "ctl (unlink z a) = (ctl a)\<lparr>free_head := hd_or 0 (xs @ ys)\<rparr>"
    "opened (unlink z a) = opened a" "cap (unlink z a) = cap a"
proof -
  let ?fl = "xs @ z # ys"
  from inv have l: "layout (cap a) B" and lk: "linked a ?fl" and sub: "set ?fl \<subseteq> dom B"
    and x: "x \<notin> set ?fl" "B x = Some (blk_size (mem a) x)" by (auto simp: open_inv_def)
  have sp: "spaced (set ?fl)" using open_inv_spaced [OF inv] by (rule spaced_mono) auto
  note U = unlink_spec [OF sp lk]
  show "linked (unlink z a) (xs @ ys)" by (rule U(1))
  show "z \<noteq> x" using x by auto
  show "z \<notin> set (xs @ ys)" using lk by (simp add: linked_def)
  show tg: "tag m y t f = tag (mem a) y t f" if "B y = Some t" for y t f
    using sub by (intro tag_frame [OF l that, where X = "{}" and F = "set (xs @ ys)"]) (auto simp: m intro!: U(2))
  show "blk_size m x = blk_size (mem a) x"
  proof -
    have "\<And>q. x \<le> q \<Longrightarrow> q < x + 4 \<Longrightarrow> m q = mem a q"
      unfolding m using open_inv_spaced [OF inv] x
      by (intro U(2)) (auto simp: links_def dest!: spacedD [where x = x])
    from read32_cong [OF this] show ?thesis by (simp add: blk_size_def)
  qed
  show "frame (extent B (insert x (set ?fl))) a (unlink z a)"
    unfolding frame_def
  proof (intro allI impI U(2) ballI notI)
    fix q w assume "q \<notin> extent B (insert x (set ?fl))" "w \<in> set (xs @ ys)" "q \<in> links w"
    moreover have "insert x (set ?fl) \<subseteq> dom B" using sub x by auto
    ultimately show False using links_extent [OF l, of "insert x (set ?fl)" w q] by auto
  qed
  show "ctl (unlink z a) = (ctl a)\<lparr>free_head := hd_or 0 (xs @ ys)\<rparr>" "opened (unlink z a) = opened a" "cap (unlink z a) = cap a"
    by (rule U)+
qed


section \<open>Merging forward\<close>

lemma extent_join:
  assumes "layout c B" "B x = Some s" "B (x + s) = Some t" "y \<in> X" "y = x \<or> y \<in> X - {x, x + s}" "x \<in> X" "x + s \<in> X"
  shows "extent (B(x \<mapsto> s + t, x + s := None)) {y} \<subseteq> extent B X"
proof
  fix q assume "q \<in> extent (B(x \<mapsto> s + t, x + s := None)) {y}"
  then have q: "y = x \<and> inside x (s + t) q \<or> y \<noteq> x \<and> y \<noteq> x + s \<and> (\<exists>u. B y = Some u \<and> inside y u q)"
    by (auto simp: extent_def split: if_splits)
  then show "q \<in> extent B X"
  proof
    assume "y = x \<and> inside x (s + t) q"
    then have "inside x s q \<or> inside (x + s) t q" by (auto simp: inside_def)
    then show ?thesis using assms(2,3,6,7) by (auto simp: extent_def)
  qed (use assms(4) in \<open>auto simp: extent_def\<close>)
qed

lemma open_size:
  "open_inv a B fl x \<Longrightarrow> 24 \<le> blk_size (mem a) x \<and> 64 \<le> x \<and> x + blk_size (mem a) x \<le> cap a"
  using layoutD [of "cap a" B x] by (auto simp: open_inv_def)

lemma merge_forward_none:
  assumes inv: "open_inv a B fl x" and n: "x + blk_size (mem a) x \<notin> set fl"
  shows "merge_forward x a = a"
proof -
  let ?s = "blk_size (mem a) x"
  have l: "layout (cap a) B" and Bx: "B x = Some ?s" and c: "cap a < 2 ^ 32" "heap_end (ctl a) = cap a"
    using inv by (auto simp: open_inv_def)
  note X = layoutD [OF l Bx]
  have "blk_free (mem a) (x + ?s) = 0" if lt: "x + ?s < cap a"
  proof -
    obtain t where t: "B (x + ?s) = Some t" using X(6) lt by auto
    moreover have "x + ?s \<noteq> x" using X(2) by simp
    ultimately have "tag (mem a) (x + ?s) t False" using open_tag [OF inv] n by fastforce
    then show ?thesis by (simp add: tag_def)
  qed
  then show ?thesis using X(5) c by (auto simp: merge_forward_def Let_def)
qed

lemma merge_forward_some:
  assumes inv: "open_inv a B (xs @ (x + s) # ys) x" and s: "blk_size (mem a) x = s" and t: "B (x + s) = Some t"
  shows "open_inv (merge_forward x a) (B(x \<mapsto> s + t, x + s := None)) (xs @ ys) x"
    "frame (extent B (insert x (set (xs @ (x + s) # ys)))) a (merge_forward x a)"
    "blk_size (mem (merge_forward x a)) x = s + t"
proof -
  let ?z = "x + s" and ?fl = "xs @ (x + s) # ys" and ?B = "B(x \<mapsto> s + t, x + s := None)"
  have l: "layout (cap a) B" and Bx: "B x = Some s" and c: "cap a < 2 ^ 32" "heap_end (ctl a) = cap a"
    and sub: "set ?fl \<subseteq> dom B" and ap: "apart B (set ?fl)" and us: "used (ctl a) = usedOf B (insert x (set ?fl))"
    and xfl: "x \<notin> set ?fl"
    using inv s by (auto simp: open_inv_def)
  note X = layoutD [OF l Bx] and Z = layoutD [OF l t]
  note U = open_unlink [OF inv refl]
  let ?u = "unlink ?z a"
  have tz: "tag (mem a) ?z t True" using open_tag [OF inv t] X(2) by simp
  then have tu: "tag (mem ?u) ?z t True" using U(4) [OF t] by simp
  have mf: "merge_forward x a = ?u\<lparr>mem := set_size x (s + t) (mem ?u)\<rparr>"
    using tz tu Z(2,5) c U(5) s by (simp add: merge_forward_def Let_def tag_def)
  let ?m = "set_size x (s + t) (mem ?u)"
  have mo: "?m q = mem ?u q" if "\<not> inside x 4 q" for q
    using that by (auto simp: set_size_def inside_def write32_other)
  have l': "layout (cap a) ?B" by (rule layout_join [OF l Bx t])
  show sz: "blk_size (mem (merge_forward x a)) x = s + t"
    using Z(5) X c by (simp add: mf set_size_def blk_size_def mem_simps)
  have "tag ?m y u (y \<in> set (xs @ ys))" if y: "?B y = Some u" "y \<noteq> x" for y u
  proof -
    have By: "B y = Some u" "y \<noteq> ?z" using y by (auto split: if_splits)
    have "tag ?m y u f = tag (mem ?u) y u f" for f
      by (rule tag_other [OF l By(1) Bx y(2)], rule mo) (use X(2) in \<open>auto simp: inside_def\<close>)
    also have "\<dots> f = tag (mem a) y u f" for f by (rule U(4) [OF By(1)])
    finally show ?thesis using open_tag [OF inv By(1) y(2)] By(2) by simp
  qed
  moreover have "dseg ?m 0 (xs @ ys) 0 = dseg (mem ?u) 0 (xs @ ys) 0"
  proof (rule dseg_cong, rule mo)
    fix w q assume w: "w \<in> set (xs @ ys)" "q \<in> links w"
    then have "w \<noteq> x" using xfl by auto
    then show "\<not> inside x 4 q" using spacedD [OF open_inv_spaced [OF inv], of x w] w by (auto simp: links_def inside_def)
  qed
  moreover have "apart ?B (set (xs @ ys))"
    using ap xfl by (auto simp: apart_def split: if_splits)
  moreover have "usedOf ?B (insert x (set (xs @ ys))) = usedOf B (insert x (set ?fl))"
  proof -
    have "dom ?B - insert x (set (xs @ ys)) = dom B - insert x (set ?fl)" using Bx X(2) by auto
    then show ?thesis unfolding usedOf_def by (intro sum.cong) auto
  qed
  ultimately show "open_inv (merge_forward x a) ?B (xs @ ys) x"
    using inv l' sub U(1,3) sz U(7-9) xfl X(2) us unfolding open_inv_def
    by (auto simp: mf linked_def)
  have "frame (extent B (insert x (set ?fl))) ?u (merge_forward x a)"
    unfolding frame_def mf using Bx X(2) by (auto simp: extent_def inside_def intro!: mo)
  then show "frame (extent B (insert x (set ?fl))) a (merge_forward x a)" using U(6) frame_trans by blast
qed


section \<open>Merging backward\<close>

lemma open_prev:
  assumes inv: "open_inv a B fl x" and p: "B p = Some t" "p + t = x"
  shows "wrap32 (x + 2 ^ 32 - read32 (mem a) (x - FTR)) = p" "64 \<le> p" "64 < x" "p \<noteq> x"
    "blk_free (mem a) p \<noteq> 0 \<longleftrightarrow> p \<in> set fl" "blk_size (mem a) p = t"
proof -
  have l: "layout (cap a) B" and c: "cap a < 2 ^ 32" using inv by (auto simp: open_inv_def)
  note P = layoutD [OF l p(1)]
  show "64 \<le> p" "64 < x" "p \<noteq> x" using P p(2) by auto
  then have tg: "tag (mem a) p t (p \<in> set fl)" using open_tag [OF inv p(1)] by simp
  then show "blk_free (mem a) p \<noteq> 0 \<longleftrightarrow> p \<in> set fl" "blk_size (mem a) p = t" by (auto simp: tag_def)
  have "read32 (mem a) (x - FTR) = t" using tg p(2) by (auto simp: tag_def FTR_def)
  moreover have "x + 2 ^ 32 - t = p + 2 ^ 32" using p(2) by simp
  moreover have "p < 2 ^ 32" using P(5) c by simp
  ultimately show "wrap32 (x + 2 ^ 32 - read32 (mem a) (x - FTR)) = p" by (simp only: wrap32_def mod_add_self2 mod_less)
qed

lemma merge_backward_none:
  assumes inv: "open_inv a B fl x" and n: "\<And>p t. B p = Some t \<Longrightarrow> p + t = x \<Longrightarrow> p \<notin> set fl"
  shows "merge_backward x a = (x, a)"
proof (cases "x = 64")
  case True
  then show ?thesis using inv by (simp add: merge_backward_def open_inv_def)
next
  case False
  then obtain p t where p: "B p = Some t" "p + t = x"
    using inv layoutD(7) [of "cap a" B x] by (auto simp: open_inv_def)
  note P = open_prev [OF inv p]
  have "blk_free (mem a) p = 0" using P(5) n [OF p] by simp
  then show ?thesis using P(1) by (simp add: merge_backward_def Let_def)
qed

lemma merge_backward_some:
  assumes inv: "open_inv a B (xs @ p # ys) x" and p: "B p = Some t" "p + t = x" and s: "blk_size (mem a) x = s"
  shows "fst (merge_backward x a) = p"
    "open_inv (snd (merge_backward x a)) (B(p \<mapsto> t + s, p + t := None)) (xs @ ys) p"
    "frame (extent B (insert x (set (xs @ p # ys)))) a (snd (merge_backward x a))"
    "blk_size (mem (snd (merge_backward x a))) p = t + s"
proof -
  let ?fl = "xs @ p # ys" and ?B = "B(p \<mapsto> t + s, p + t := None)" and ?u = "unlink p a"
  have l: "layout (cap a) B" and Bx: "B x = Some s" and c: "cap a < 2 ^ 32"
    and sub: "set ?fl \<subseteq> dom B" and ap: "apart B (set ?fl)" and us: "used (ctl a) = usedOf B (insert x (set ?fl))"
    and xfl: "x \<notin> set ?fl" and h: "heap (ctl a) = 64"
    using inv s by (auto simp: open_inv_def)
  note X = layoutD [OF l Bx] and P = layoutD [OF l p(1)] and Q = open_prev [OF inv p]
  note U = open_unlink [OF inv refl]
  have tu: "blk_size (mem ?u) p = t" using U(4) [OF p(1), of True] open_tag [OF inv p(1) Q(4)] by (simp add: tag_def)
  let ?m = "set_size p (t + s) (mem ?u)"
  have mb: "merge_backward x a = (p, ?u\<lparr>mem := ?m\<rparr>)"
    using Q(1-5) tu U(5) s h by (simp add: merge_backward_def Let_def)
  then show "fst (merge_backward x a) = p" by simp
  have mo: "?m q = mem ?u q" if "\<not> inside p 4 q" for q
    using that by (auto simp: set_size_def inside_def write32_other)
  have l': "layout (cap a) ?B" by (rule layout_join [OF l p(1)]) (use Bx p in simp)
  show sz: "blk_size (mem (snd (merge_backward x a))) p = t + s"
    using X(5) p(2) c by (simp add: mb set_size_def blk_size_def mem_simps)
  have "tag ?m y u (y \<in> set (xs @ ys))" if y: "?B y = Some u" "y \<noteq> p" for y u
  proof -
    have By: "B y = Some u" "y \<noteq> x" using y p(2) by (auto split: if_splits)
    have "tag ?m y u f = tag (mem ?u) y u f" for f
      by (rule tag_other [OF l By(1) p(1) y(2)], rule mo) (use P(2) in \<open>auto simp: inside_def\<close>)
    also have "\<dots> f = tag (mem a) y u f" for f by (rule U(4) [OF By(1)])
    finally show ?thesis using open_tag [OF inv By] y(2) by simp
  qed
  moreover have "dseg ?m 0 (xs @ ys) 0 = dseg (mem ?u) 0 (xs @ ys) 0"
  proof (rule dseg_cong, rule mo)
    fix w q assume w: "w \<in> set (xs @ ys)" "q \<in> links w"
    then have "w \<noteq> p" using U(3) by auto
    then show "\<not> inside p 4 q" using spacedD [OF open_inv_spaced [OF inv], of p w] w by (auto simp: links_def inside_def)
  qed
  moreover have "apart ?B (set (xs @ ys))"
    using ap U(3) by (auto simp: apart_def split: if_splits)
  moreover have "usedOf ?B (insert p (set (xs @ ys))) = usedOf B (insert x (set ?fl))"
  proof -
    have "dom ?B - insert p (set (xs @ ys)) = dom B - insert x (set ?fl)" using p Bx by auto
    then show ?thesis unfolding usedOf_def using p(2) by (intro sum.cong) auto
  qed
  moreover have "set (xs @ ys) \<subseteq> dom ?B" using sub xfl p(2) by auto
  ultimately show "open_inv (snd (merge_backward x a)) ?B (xs @ ys) p"
    using inv l' U(1,3) sz U(7-9) us p(2) Q(4) unfolding open_inv_def
    by (auto simp: mb linked_def)
  have "frame (extent B (insert x (set ?fl))) ?u (snd (merge_backward x a))"
    unfolding frame_def mb using p(1) P(2) by (auto simp: extent_def inside_def intro!: mo)
  then show "frame (extent B (insert x (set ?fl))) a (snd (merge_backward x a))" using U(6) frame_trans by blast
qed

section \<open>Publishing the merged block\<close>

definition publish :: "nat \<Rightarrow> arena \<Rightarrow> arena" where
  "publish off a =
     (let a = push_front off (a\<lparr>mem := set_free off 1 (mem a)\<rparr>)
      in a\<lparr>mem := set_foot off (blk_size (mem a) off) (mem a)\<rparr>)"

lemma publish_inv:
  assumes inv: "open_inv a B fl x" and s: "blk_size (mem a) x = s" and nx: "x + s \<notin> set fl"
    and np: "\<And>p t. B p = Some t \<Longrightarrow> p + t = x \<Longrightarrow> p \<notin> set fl"
  shows "heap_inv (publish x a) B (x # fl)" "frame (extent B (insert x (set fl))) a (publish x a)"
proof -
  have l: "layout (cap a) B" and Bx: "B x = Some s" and c: "cap a < 2 ^ 32" and lk: "linked a fl"
    and sub: "set fl \<subseteq> dom B" and ap: "apart B (set fl)" and xfl: "x \<notin> set fl"
    using inv s by (auto simp: open_inv_def)
  note X = layoutD [OF l Bx]
  have sp: "spaced (set (x # fl))" using open_inv_spaced [OF inv] by simp
  define a1 where "a1 = a\<lparr>mem := set_free x 1 (mem a)\<rparr>"
  have m1: "mem a1 q = mem a q" if "\<not> inside (x + 4) 4 q" for q
    using that by (auto simp: a1_def set_free_def inside_def write32_other)
  have dist: "\<not> inside x 16 q" if w: "w \<in> set fl" "q \<in> links w" for w q
  proof -
    have "x \<noteq> w" using w xfl by auto
    then show ?thesis using w spacedD [OF sp, of x w] by (auto simp: links_def inside_def)
  qed
  have "dseg (mem a1) 0 fl 0 = dseg (mem a) 0 fl 0"
    by (rule dseg_cong, rule m1) (use dist in \<open>force simp: inside_def\<close>)
  then have lk1: "linked a1 fl" using lk by (simp add: linked_def a1_def)
  note P = push_front_spec [OF sp lk1 xfl]
  let ?a2 = "push_front x a1"
  have m2: "mem ?a2 q = mem a1 q" if "inside x 8 q" for q
    by (rule P(2)) (use that dist in \<open>force simp: inside_def links_def\<close>)
  have r: "blk_size (mem ?a2) x = s" "blk_free (mem ?a2) x = 1"
  proof -
    have "blk_size (mem ?a2) x = blk_size (mem a1) x" "blk_free (mem ?a2) x = blk_free (mem a1) x"
      unfolding blk_size_def blk_free_def by (auto intro!: read32_cong m2 simp: inside_def)
    then show "blk_size (mem ?a2) x = s" "blk_free (mem ?a2) x = 1"
      using s by (simp_all add: a1_def field_defs mem_simps)
  qed
  let ?m = "write32 (mem ?a2) (x + s - 4) s"
  have pb: "publish x a = ?a2\<lparr>mem := ?m\<rparr>"
    unfolding publish_def Let_def a1_def [symmetric] r set_foot_def FTR_def ..
  have m3: "?m q = mem ?a2 q" if "\<not> inside (x + s - 4) 4 q" for q
    using that by (auto simp: inside_def write32_other)
  have fr: "?m q = mem a q" if q: "\<not> inside x s q" "\<forall>z\<in>set fl. q \<notin> links z" for q
  proof -
    have "?m q = mem ?a2 q" using q(1) X(2) by (intro m3) (auto simp: inside_def)
    also have "\<dots> = mem a1 q" using q X(2) by (intro P(2)) (auto simp: inside_def links_def)
    also have "\<dots> = mem a q" using q(1) X(2) by (intro m1) (auto simp: inside_def)
    finally show ?thesis .
  qed
  have "tag ?m y t (y \<in> set (x # fl))" if y: "B y = Some t" for y t
  proof (cases "y = x")
    case True
    then show ?thesis using y Bx X(2,5) c r by (simp add: tag_def field_defs mem_simps)
  next
    case False
    have "tag ?m y t f = tag (mem a) y t f" for f
      by (rule tag_frame [OF l y, where X = "{x}" and F = "set fl"])
         (use False Bx sub in \<open>auto simp: extent_def intro!: fr\<close>)
    then show ?thesis using open_tag [OF inv y False] False by simp
  qed
  then have tm: "tagged ?m B (set (x # fl))" by (simp add: tagged_def)
  have "dseg ?m 0 (x # fl) 0 = dseg (mem ?a2) 0 (x # fl) 0"
  proof (rule dseg_cong, rule m3)
    fix w q assume w: "w \<in> set (x # fl)" "q \<in> links w"
    show "\<not> inside (x + s - 4) 4 q"
    proof (cases "w = x")
      case True
      then show ?thesis using w X(2) by (auto simp: links_def inside_def)
    next
      case False
      then obtain t where t: "B w = Some t" using w sub by auto
      with layout_sep [OF l t Bx False] layoutD(2) [OF l t] w(2) show ?thesis by (auto simp: links_def inside_def)
    qed
  qed
  then have lk2: "linked (publish x a) (x # fl)" using P(1) by (simp add: linked_def pb)
  have ap': "apart B (set (x # fl))"
    unfolding apart_def
  proof (intro allI impI)
    fix y t assume y: "B y = Some t" "y \<in> set (x # fl)"
    then show "y + t \<notin> set (x # fl)"
      using ap nx np [OF y(1)] Bx layoutD(2) [OF l y(1)] by (cases "y = x") (auto simp: apart_def)
  qed
  show "heap_inv (publish x a) B (x # fl)"
    using inv tm lk2 ap' l sub Bx P(3-5) unfolding heap_inv_def open_inv_def by (simp add: pb) (auto simp: a1_def)
  show "frame (extent B (insert x (set fl))) a (publish x a)"
    unfolding frame_def
  proof (intro allI impI)
    fix q assume q: "q \<notin> extent B (insert x (set fl))"
    then have "\<not> inside x s q" using Bx by (auto simp: extent_def)
    moreover have "\<forall>z\<in>set fl. q \<notin> links z"
      using q links_extent [OF l, of "insert x (set fl)"] sub Bx by auto
    ultimately show "mem (publish x a) q = mem a q" using fr by (simp add: pb)
  qed
qed


section \<open>Freeing\<close>

text \<open>The abstract view a client has: where its blocks are and how many bytes each holds.\<close>

definition live :: "blocks \<Rightarrow> nat list \<Rightarrow> nat \<rightharpoonup> nat" where
  "live B fl p = (if 16 \<le> p \<and> p - 16 \<notin> set fl then map_option (\<lambda>s. s - 20) (B (p - 16)) else None)"

lemma live_header: "live B fl (x + 16) = (if x \<in> set fl then None else map_option (\<lambda>s. s - 20) (B x))"
  by (simp add: live_def)

lemma live_iff: "live B fl p = Some k \<longleftrightarrow> (\<exists>x s. p = x + 16 \<and> x \<notin> set fl \<and> B x = Some s \<and> k = s - 20)"
  by (auto simp: live_def) (metis le_add_diff_inverse2)

lemma free_eq:
  assumes "opened a" "x + 16 < 2 ^ 32" "blk_free (mem a) x = 0"
  shows "free (Some (x + 16)) a =
    (let a = a\<lparr>ctl := (ctl a)\<lparr>used := wrap64 (used (ctl a) + 2 ^ 64 + HDR + FTR - blk_size (mem a) x)\<rparr>\<rparr>;
         (off, a) = merge_backward x (merge_forward x a)
     in publish off a)"
proof -
  have "wrap32 (x + 16 + 2 ^ 32 - HDR) = x"
    using assms(2) by (simp add: HDR_def wrap32_def)
  then show ?thesis using assms(1,3) by (simp add: free_def publish_def Let_def split: prod.split)
qed

lemma open_block:
  assumes inv: "heap_inv a B fl" and B: "B x = Some s" "x \<notin> set fl"
  defines "a1 \<equiv> a\<lparr>ctl := (ctl a)\<lparr>used := wrap64 (used (ctl a) + 2 ^ 64 + HDR + FTR - s)\<rparr>\<rparr>"
  shows "open_inv a1 B fl x" "blk_size (mem a1) x = s"
proof -
  have l: "layout (cap a) B" and c: "cap a < 2 ^ 32" and us: "used (ctl a) = usedOf B (set fl)" and t: "tagged (mem a) B (set fl)"
    using inv by (auto simp: heap_inv_def)
  note X = layoutD [OF l B(1)]
  show sz: "blk_size (mem a1) x = s" using taggedD [OF t B(1)] by (simp add: tag_def a1_def)
  have e: "usedOf B (insert x (set fl) - {x}) = usedOf B (insert x (set fl)) + (s - 20)"
    using l B by (intro usedOf_take) (auto simp: layout_def)
  moreover have "insert x (set fl) - {x} = set fl" using B(2) by auto
  ultimately have "usedOf B (set fl) = usedOf B (insert x (set fl)) + (s - 20)" by simp
  moreover have "usedOf B (set fl) < 2 ^ 64" using usedOf_bound [OF l, of "set fl"] c by simp
  ultimately have "used (ctl a1) = usedOf B (insert x (set fl))"
    using X(2) us used_sub [of s "usedOf B (set fl)"] by (simp add: a1_def)
  then show "open_inv a1 B fl x"
    using inv B sz taggedD [OF t] unfolding open_inv_def heap_inv_def by (auto simp: a1_def linked_def)
qed

lemma merge_forward_cases:
  assumes inv: "open_inv a B fl x" and s: "blk_size (mem a) x = s"
  obtains B' fl' s' where "open_inv (merge_forward x a) B' fl' x" "blk_size (mem (merge_forward x a)) x = s'" "x + s' \<notin> set fl'"
    "frame (extent B (insert x (set fl))) a (merge_forward x a)" "extent B' (insert x (set fl')) \<subseteq> extent B (insert x (set fl))"
    "live B' (x # fl') = live B (x # fl)"
proof (cases "x + s \<in> set fl")
  case False
  then have "merge_forward x a = a" using merge_forward_none [OF inv] s by simp
  with inv s False that [of B fl s] frame_refl show ?thesis by auto
next
  case True
  then obtain xs ys where fl: "fl = xs @ (x + s) # ys" using split_list by metis
  have l: "layout (cap a) B" and Bx: "B x = Some s" and ap: "apart B (set fl)" and ds: "distinct fl"
    using inv s by (auto simp: open_inv_def linked_def)
  obtain t where t: "B (x + s) = Some t" using True inv by (auto simp: open_inv_def)
  let ?B = "B(x \<mapsto> s + t, x + s := None)"
  note M = merge_forward_some [OF inv [unfolded fl] s t, folded fl]
  have "x + s + t \<notin> set fl" using ap t True by (auto simp: apart_def)
  then have n: "x + (s + t) \<notin> set (xs @ ys)" by (auto simp: fl add.assoc)
  have e: "extent ?B (insert x (set (xs @ ys))) \<subseteq> extent B (insert x (set fl))"
  proof
    fix q assume "q \<in> extent ?B (insert x (set (xs @ ys)))"
    then have "\<exists>y\<in>insert x (set (xs @ ys)). q \<in> extent ?B {y}" by (rule extent_member [THEN iffD1])
    then obtain y where y: "y = x \<or> y \<in> set (xs @ ys)" "q \<in> extent ?B {y}" by auto
    have "x + s \<notin> set (xs @ ys)" using ds fl by auto
    then show "q \<in> extent B (insert x (set fl))"
      using y extent_join [OF l Bx t, of y "insert x (set fl)"] True by (auto simp: fl)
  qed
  have lv: "live ?B (x # xs @ ys) = live B (x # fl)"
    by (rule ext) (auto simp: live_def fl)
  show ?thesis by (rule that [OF M(1,3) n M(2) e lv])
qed

lemma merge_backward_cases:
  assumes inv: "open_inv a B fl x" and s: "blk_size (mem a) x = s" "x + s \<notin> set fl"
  obtains p B' fl' s' a' where "merge_backward x a = (p, a')" "open_inv a' B' fl' p" "blk_size (mem a') p = s'" "p + s' \<notin> set fl'"
    "\<And>q t. B' q = Some t \<Longrightarrow> q + t = p \<Longrightarrow> q \<notin> set fl'"
    "frame (extent B (insert x (set fl))) a a'" "extent B' (insert p (set fl')) \<subseteq> extent B (insert x (set fl))"
    "live B' (p # fl') = live B (x # fl)"
proof (cases "\<exists>p t. B p = Some t \<and> p + t = x \<and> p \<in> set fl")
  case False
  then have "merge_backward x a = (x, a)" using merge_backward_none [OF inv] by blast
  with inv s False that [of x a B fl s] frame_refl show ?thesis by blast
next
  case True
  then obtain p t where p: "B p = Some t" "p + t = x" "p \<in> set fl" by blast
  then obtain xs ys where fl: "fl = xs @ p # ys" using split_list by metis
  have l: "layout (cap a) B" and Bx: "B x = Some s" and ap: "apart B (set fl)" and ds: "distinct fl" and xfl: "x \<notin> set fl"
    using inv s by (auto simp: open_inv_def linked_def)
  let ?B = "B(p \<mapsto> t + s, p + t := None)"
  note M = merge_backward_some [OF inv [unfolded fl] p(1,2) s(1), folded fl]
  have px: "p \<noteq> x" using p xfl by auto
  have n: "p + (t + s) \<notin> set (xs @ ys)" using s(2) p(2) by (auto simp: fl add.assoc [symmetric])
  have np: "q \<notin> set (xs @ ys)" if q: "?B q = Some u" "q + u = p" for q u
  proof
    assume "q \<in> set (xs @ ys)"
    moreover from this have "q \<noteq> p" using ds fl by auto
    ultimately have "B q = Some u" "q \<in> set fl" using q by (auto simp: fl split: if_splits)
    with ap q(2) p(3) show False by (auto simp: apart_def)
  qed
  have pn: "p \<notin> set (xs @ ys)" using ds fl by auto
  have e: "extent ?B (insert p (set (xs @ ys))) \<subseteq> extent B (insert x (set fl))"
  proof
    fix q assume "q \<in> extent ?B (insert p (set (xs @ ys)))"
    then have "\<exists>y\<in>insert p (set (xs @ ys)). q \<in> extent ?B {y}" by (rule extent_member [THEN iffD1])
    then obtain y where y: "y = p \<or> y \<in> set (xs @ ys)" "q \<in> extent ?B {y}" by auto
    have "B (p + t) = Some s" using Bx p by simp
    then show "q \<in> extent B (insert x (set fl))"
      using y extent_join [OF l p(1), of s y "insert x (set fl)"] p xfl pn by (auto simp: fl)
  qed
  have lv: "live ?B (p # xs @ ys) = live B (x # fl)"
    using p(2) px by (intro ext) (auto simp: live_def fl)
  show ?thesis by (rule that [OF _ M(2,4) n np M(3) e lv]) (simp add: prod_eq_iff M(1))
qed

lemma free_inv:
  assumes inv: "heap_inv a B fl" and L: "live B fl p = Some k"
  obtains B' fl' where "heap_inv (free (Some p) a) B' fl'" "live B' fl' = (live B fl)(p := None)"
    "frame (extent B (insert (p - 16) (set fl))) a (free (Some p) a)"
proof -
  obtain x s where x: "p = x + 16" "x \<notin> set fl" "B x = Some s" using L live_iff by metis
  have l: "layout (cap a) B" and c: "cap a < 2 ^ 32" and t: "tagged (mem a) B (set fl)" and op: "opened a"
    using inv by (auto simp: heap_inv_def)
  note X = layoutD [OF l x(3)]
  have "blk_free (mem a) x = 0" "blk_size (mem a) x = s" using taggedD [OF t x(3)] x(2) by (auto simp: tag_def)
  moreover define a1 where "a1 = a\<lparr>ctl := (ctl a)\<lparr>used := wrap64 (used (ctl a) + 2 ^ 64 + HDR + FTR - s)\<rparr>\<rparr>"
  moreover have "x + 16 < 2 ^ 32" using X c by simp
  ultimately have fr: "free (Some p) a = (case merge_backward x (merge_forward x a1) of (off, a) \<Rightarrow> publish off a)"
    using free_eq [OF op, of x] x(1) by simp
  have o: "open_inv a1 B fl x" "blk_size (mem a1) x = s" unfolding a1_def by (rule open_block [OF inv x(3,2)])+
  let ?R = "extent B (insert x (set fl))"
  obtain B1 fl1 s1 where f: "open_inv (merge_forward x a1) B1 fl1 x" "blk_size (mem (merge_forward x a1)) x = s1" "x + s1 \<notin> set fl1"
    "frame ?R a1 (merge_forward x a1)" "extent B1 (insert x (set fl1)) \<subseteq> ?R" "live B1 (x # fl1) = live B (x # fl)"
    using merge_forward_cases [OF o] by metis
  obtain q B2 fl2 s2 a2 where b: "merge_backward x (merge_forward x a1) = (q, a2)" "open_inv a2 B2 fl2 q" "blk_size (mem a2) q = s2"
    "q + s2 \<notin> set fl2" "\<And>r t. B2 r = Some t \<Longrightarrow> r + t = q \<Longrightarrow> r \<notin> set fl2"
    "frame (extent B1 (insert x (set fl1))) (merge_forward x a1) a2" "extent B2 (insert q (set fl2)) \<subseteq> extent B1 (insert x (set fl1))"
    "live B2 (q # fl2) = live B1 (x # fl1)"
    using merge_backward_cases [OF f(1-3)] by metis
  have P: "heap_inv (publish q a2) B2 (q # fl2)" "frame (extent B2 (insert q (set fl2))) a2 (publish q a2)"
    by (rule publish_inv [OF b(2-4)], erule (1) b(5))+
  have lv: "live B2 (q # fl2) = (live B fl)(p := None)"
  proof -
    have "live B (x # fl) = (live B fl)(p := None)" by (rule ext) (auto simp: live_def x(1))
    then show ?thesis using b(8) f(6) by simp
  qed
  have "frame ?R a a1" by (simp add: frame_def a1_def)
  moreover have "frame ?R (merge_forward x a1) a2" using frame_mono [OF b(6) f(5)] .
  moreover have "frame ?R a2 (publish q a2)" using frame_mono [OF P(2)] b(7) f(5) by (meson subset_trans)
  ultimately have "frame ?R a (publish q a2)" using f(4) frame_trans by blast
  moreover have "free (Some p) a = publish q a2" by (simp add: fr b(1))
  ultimately show ?thesis using that [of B2 "q # fl2"] P(1) lv x(1) by (metis add_diff_cancel_right')
qed

end
