(* ===== verification/Allocator.thy ===== *)
theory Allocator
  imports ArenaFree
begin

text \<open>
  What the arena promises its clients. \<open>holds a L\<close> says that \<open>a\<close> is a well-formed heap whose handed-out
  blocks are \<open>L\<close>, a map from pointers to the number of bytes behind them. The interface \<open>allocator\<close> states the
  laws over that view; the clients' lemma, that stored bytes stay until they are freed, is proved once against it.
\<close>

definition holds :: "arena \<Rightarrow> (nat \<rightharpoonup> nat) \<Rightarrow> bool" where
  "holds a L \<longleftrightarrow> (\<exists>B fl. heap_inv a B fl \<and> L = live B fl)"

text \<open>Nothing behind a live pointer has changed.\<close>

definition intact :: "(nat \<rightharpoonup> nat) \<Rightarrow> mem \<Rightarrow> mem \<Rightarrow> bool" where
  "intact L m m' \<longleftrightarrow> (\<forall>p k y. L p = Some k \<longrightarrow> p \<le> y \<longrightarrow> y < p + k \<longrightarrow> m' y = m y)"

section \<open>Block sizes\<close>

lemma align8_eq: "n + 7 < 2 ^ 64 \<Longrightarrow> align8 n = (n + 7) div 8 * 8"
  by (simp add: align8_def)

lemma block_for_spec:
  assumes "0 < n" "n + 34 < 2 ^ 64"
  shows "24 \<le> block_for n" "8 dvd block_for n" "n + 20 \<le> block_for n" "block_for n \<le> n + 34"
proof -
  have a: "align8 n = (n + 7) div 8 * 8" using assms by (intro align8_eq) simp
  have b: "n \<le> align8 n" "align8 n \<le> n + 7" unfolding a by simp_all
  have w: "wrap64 (align8 n + HDR + FTR) = align8 n + 20" using assms b by (simp add: arena_consts)
  have "align8 (align8 n + 20) = (align8 n + 20 + 7) div 8 * 8" using assms b by (intro align8_eq) simp
  then have e: "align8 n + 20 \<le> align8 (align8 n + 20)" "align8 (align8 n + 20) \<le> align8 n + 27" "8 dvd align8 (align8 n + 20)"
    by simp_all
  show "24 \<le> block_for n" "8 dvd block_for n" "n + 20 \<le> block_for n" "block_for n \<le> n + 34"
    using e b assms by (auto simp: block_for_def Let_def w MIN_BLOCK_24)
qed

section \<open>The view of a well-formed heap\<close>

lemma live_bounds:
  assumes inv: "heap_inv a B fl" and L: "live B fl p = Some k"
  shows "80 \<le> p" "8 dvd p" "4 \<le> k" "p + k + 4 \<le> cap a" "cap a < 2 ^ 32" "B (p - 16) = Some (k + 20)" "p - 16 \<notin> set fl"
proof -
  obtain x s where x: "p = x + 16" "x \<notin> set fl" "B x = Some s" "k = s - 20" using L live_iff by metis
  have l: "layout (cap a) B" and c: "cap a < 2 ^ 32" using inv by (auto simp: heap_inv_def)
  note X = layoutD [OF l x(3)]
  show "80 \<le> p" "8 dvd p" "4 \<le> k" "p + k + 4 \<le> cap a" "cap a < 2 ^ 32" "B (p - 16) = Some (k + 20)" "p - 16 \<notin> set fl"
    using X x c by auto
qed

lemma live_sep:
  assumes inv: "heap_inv a B fl" and p: "live B fl p = Some k" and q: "live B fl q = Some j" and "p \<noteq> q"
  shows "p + k + 20 \<le> q \<or> q + j + 20 \<le> p"
proof -
  have l: "layout (cap a) B" using inv by (simp add: heap_inv_def)
  note P = live_bounds [OF inv p] and Q = live_bounds [OF inv q]
  have "p - 16 \<noteq> q - 16" using P(1) Q(1) \<open>p \<noteq> q\<close> by simp
  from layout_sep [OF l P(6) Q(6) this] P(1) Q(1) show ?thesis by auto
qed

lemma live_outside:
  assumes inv: "heap_inv a B fl" and p: "live B fl p = Some k" and X: "X \<subseteq> dom B" "p - 16 \<notin> X" and y: "p \<le> y" "y < p + k"
  shows "y \<notin> extent B X"
proof
  assume "y \<in> extent B X"
  then obtain x s where x: "x \<in> X" "B x = Some s" "inside x s y" by (auto simp: extent_def)
  have l: "layout (cap a) B" using inv by (simp add: heap_inv_def)
  note P = live_bounds [OF inv p]
  have "p - 16 \<noteq> x" using X(2) x(1) by auto
  from layout_sep [OF l P(6) x(2) this] P(1) x(3) y show False by (auto simp: inside_def)
qed

lemma frame_intact:
  assumes "heap_inv a B fl" "frame (extent B X) a a'" "X \<subseteq> dom B" "\<And>p k. L p = Some k \<Longrightarrow> live B fl p = Some k \<and> p - 16 \<notin> X"
  shows "intact L (mem a) (mem a')"
  unfolding intact_def
proof (intro allI impI)
  fix p k y assume p: "L p = Some k" "p \<le> y" "y < p + k"
  then have "y \<notin> extent B X" using live_outside [OF assms(1) _ assms(3)] assms(4) by blast
  then show "mem a' y = mem a y" using assms(2) by (simp add: frame_def)
qed

section \<open>Initialisation\<close>

lemma init_inv:
  assumes "88 < len" "len < 2 ^ 32" "8 dvd len"
  shows "\<exists>a'. arena_init (Some m) len a = (True, a') \<and> heap_inv a' [64 \<mapsto> len - 64] [64]"
proof -
  let ?s = "len - 64" and ?B = "[64 \<mapsto> len - 64]"
  have s: "wrap32 ?s = ?s" "wrap32 (64 + ?s) = len" using assms by simp_all
  let ?m = "set_prev 64 0 (set_next 64 0 (set_free 64 1 (set_size 64 ?s m)))"
  have sz: "blk_size ?m 64 = ?s" using s by (simp add: field_defs mem_simps)
  let ?a = "\<lparr>opened = True, cap = len, ctl = \<lparr>lock = 0, taken_ns = 0, heap = 64, heap_end = len, free_head = 64, retire_head = 0, used = 0\<rparr>,
      mem = write32 ?m (64 + ?s - 4) ?s\<rparr>"
  have i: "arena_init (Some m) len a = (True, ?a)"
    using assms s sz by (simp add: arena_init_def Let_def MIN_BLOCK_24 arena_consts set_foot_def)
  have l: "layout len ?B" using assms by (auto simp: layout_def dvd_diff_nat split: if_splits)
  have far: "80 \<le> len - 4" "64 + ?s - 4 = len - 4" using assms(1) by simp_all
  have "tagged (mem ?a) ?B (set [64])"
    using far s by (auto simp: tagged_def tag_def field_defs mem_simps)
  moreover have "linked ?a [64]"
    using far by (simp add: linked_def field_defs mem_simps)
  ultimately have "heap_inv ?a ?B [64]"
    using assms l by (simp add: heap_inv_def apart_def usedOf_def)
  then show ?thesis using i by metis
qed

lemma init_holds:
  assumes "88 < len" "len < 2 ^ 32" "8 dvd len"
  shows "\<exists>a'. arena_init (Some m) len a = (True, a') \<and> holds a' Map.empty"
proof -
  have "live [64 \<mapsto> len - 64] [64] = Map.empty" by (rule ext) (simp add: live_def)
  then show ?thesis using init_inv [OF assms, of m a] unfolding holds_def by metis
qed

section \<open>Allocating\<close>

lemma alloc_found:
  assumes inv: "heap_inv a B fl" and n: "0 < n" "n + 34 < 2 ^ 64" and off: "off \<in> set fl" "B off = Some s" "block_for n \<le> s"
  obtains B' fl' k where "heap_inv (carve off (block_for n) a) B' fl'" "live B' fl' = (live B fl)(off + 16 \<mapsto> k)" "n \<le> k"
    "frame (extent B (set fl)) a (carve off (block_for n) a)"
proof -
  let ?w = "block_for n"
  note W = block_for_spec [OF n]
  obtain xs ys where fl: "fl = xs @ off # ys" using off(1) split_list by metis
  have l: "layout (cap a) B" and sub: "set fl \<subseteq> dom B" and ds: "off \<notin> set (xs @ ys)" using inv by (auto simp: heap_inv_def linked_def fl)
  have out: "\<forall>z\<in>set (xs @ ys). y \<notin> links z" if "y \<notin> extent B (set fl)" for y
    using that links_extent [OF l sub] by (auto simp: fl)
  have ins: "\<not> inside off s y" if "y \<notin> extent B (set fl)" for y using that off by (auto simp: extent_def)
  note X = layoutD [OF l off(2)]
  show ?thesis
  proof (cases "s - ?w < 24")
    case True
    note C = carve_whole [OF inv [unfolded fl] off(2) True]
    have lv: "live B (xs @ ys) = (live B fl)(off + 16 \<mapsto> s - 20)"
      using ds off(2) by (intro ext) (auto simp: live_def fl)
    have "frame (extent B (set fl)) a (carve off ?w a)"
      unfolding frame_def
    proof (intro allI impI C(2) out)
      fix y assume "y \<notin> extent B (set fl)"
      with ins [OF this] X(2) show "\<not> inside off 16 y" by (auto simp: inside_def)
    qed
    then show ?thesis using that [OF C(1) lv] W off(3) by simp
  next
    case False
    then have r: "24 \<le> s - ?w" by simp
    note C = carve_split [OF inv [unfolded fl] off(2) W(1,2) r]
    have rB: "B (off + ?w) = None" using layout_gap [OF l off(2), of "off + ?w"] W r by auto
    have lv: "live (B(off \<mapsto> ?w, off + ?w \<mapsto> s - ?w)) ((off + ?w) # xs @ ys) = (live B fl)(off + 16 \<mapsto> ?w - 20)"
    proof
      fix p
      show "live (B(off \<mapsto> ?w, off + ?w \<mapsto> s - ?w)) ((off + ?w) # xs @ ys) p = ((live B fl)(off + 16 \<mapsto> ?w - 20)) p"
      proof (cases "p = off + 16")
        case True
        then show ?thesis using ds W(1) by (simp add: live_def)
      next
        case False
        then show ?thesis using rB W(1) by (auto simp: live_def fl)
      qed
    qed
    have "frame (extent B (set fl)) a (carve off ?w a)"
      unfolding frame_def using ins by (auto intro!: C(2) out)
    then show ?thesis using that [OF C(1) lv] W by simp
  qed
qed

lemma alloc_cases:
  assumes inv: "heap_inv a B fl" and n: "0 < n"
  shows "alloc n a = Some (None, a) \<and> (\<forall>x\<in>set fl. the (B x) < block_for n) \<or>
    (\<exists>off s. off \<in> set fl \<and> B off = Some s \<and> block_for n \<le> s \<and> alloc n a = Some (Some (off + 16), carve off (block_for n) a))"
proof -
  have l: "layout (cap a) B" and t: "tagged (mem a) B (set fl)" and sub: "set fl \<subseteq> dom B" and lk: "linked a fl" and op: "opened a"
    using inv by (auto simp: heap_inv_def)
  have sz: "blk_size (mem a) x = the (B x)" if "x \<in> set fl" for x
    using that sub t by (force simp: tagged_def tag_def)
  have bd: "the (B x) \<le> cap a" if "x \<in> set fl" for x
    using that sub layoutD(5) [OF l] by fastforce
  have "0 \<notin> set fl" using sub layoutD(1) [OF l] by fastforce
  with lk have ff: "find_fit (mem a) (block_for n) (free_head (ctl a)) =
      Some (case filter (\<lambda>x. block_for n \<le> blk_size (mem a) x) fl of [] \<Rightarrow> 0 | x # _ \<Rightarrow> x)"
    using find_fit_list [of "mem a" 0 fl] by (simp add: linked_def)
  show ?thesis
  proof (cases "filter (\<lambda>x. block_for n \<le> blk_size (mem a) x) fl")
    case Nil
    then have "\<forall>x\<in>set fl. the (B x) < block_for n" using sz by (auto simp: filter_empty_conv)
    moreover have "alloc n a = Some (None, a)" using ff Nil op n by (simp add: alloc_def Let_def)
    ultimately show ?thesis by simp
  next
    case (Cons x xs)
    then have "x \<in> set (filter (\<lambda>x. block_for n \<le> blk_size (mem a) x) fl)" by simp
    then have x: "x \<in> set fl" "block_for n \<le> the (B x)" using sz by auto
    then obtain s where s: "B x = Some s" using sub by auto
    have "x \<noteq> 0" using x(1) \<open>0 \<notin> set fl\<close> by metis
    then have "alloc n a = Some (Some (x + 16), carve x (block_for n) a)"
      using ff Cons op n x bd [OF x(1)] by (simp add: alloc_def Let_def HDR_def)
    then show ?thesis using x s by force
  qed
qed


lemma alloc_holds:
  assumes "holds a L" "0 < n" "n + 34 < 2 ^ 64"
  shows "alloc n a = Some (None, a) \<or>
    (\<exists>p k a'. alloc n a = Some (Some p, a') \<and> holds a' (L(p \<mapsto> k)) \<and> L p = None \<and> n \<le> k \<and> intact L (mem a) (mem a'))"
proof -
  obtain B fl where inv: "heap_inv a B fl" and L: "L = live B fl" using assms(1) by (auto simp: holds_def)
  from alloc_cases [OF inv assms(2)] show ?thesis
  proof (elim disjE exE conjE)
    fix off s assume off: "off \<in> set fl" "B off = Some s" "block_for n \<le> s"
      and al: "alloc n a = Some (Some (off + 16), carve off (block_for n) a)"
    obtain B' fl' k where c: "heap_inv (carve off (block_for n) a) B' fl'" "live B' fl' = (live B fl)(off + 16 \<mapsto> k)" "n \<le> k"
      "frame (extent B (set fl)) a (carve off (block_for n) a)"
      using alloc_found [OF inv assms(2,3) off] by metis
    have "intact L (mem a) (mem (carve off (block_for n) a))"
      by (rule frame_intact [OF inv c(4)]) (use inv in \<open>auto simp: L heap_inv_def live_iff\<close>)
    moreover have "L (off + 16) = None" using off(1) by (simp add: L live_def)
    ultimately show ?thesis using al c(1-3) unfolding holds_def L by metis
  qed simp
qed

lemma free_holds:
  assumes "holds a L" "L p = Some k"
  shows "holds (free (Some p) a) (L(p := None)) \<and> intact (L(p := None)) (mem a) (mem (free (Some p) a))"
proof -
  obtain B fl where inv: "heap_inv a B fl" and L: "L = live B fl" using assms(1) by (auto simp: holds_def)
  obtain B' fl' where f: "heap_inv (free (Some p) a) B' fl'" "live B' fl' = (live B fl)(p := None)"
    "frame (extent B (insert (p - 16) (set fl))) a (free (Some p) a)"
    using free_inv [OF inv assms(2) [unfolded L]] by metis
  note P = live_bounds [OF inv assms(2) [unfolded L]]
  have "intact (L(p := None)) (mem a) (mem (free (Some p) a))"
  proof (rule frame_intact [OF inv f(3)])
    show "insert (p - 16) (set fl) \<subseteq> dom B" using P(6) inv by (auto simp: heap_inv_def)
    fix q k assume q: "(L(p := None)) q = Some k"
    then have "live B fl q = Some k" "q \<noteq> p" by (auto simp: L split: if_splits)
    moreover from live_bounds [OF inv this(1)] P(1) this(2) have "q - 16 \<notin> insert (p - 16) (set fl)" by auto
    ultimately show "live B fl q = Some k \<and> q - 16 \<notin> insert (p - 16) (set fl)" by simp
  qed
  then show ?thesis using f(1,2) L unfolding holds_def by metis
qed

lemma holds_sep: "holds a L \<Longrightarrow> L p = Some k \<Longrightarrow> L q = Some j \<Longrightarrow> p \<noteq> q \<Longrightarrow> p + k \<le> q \<or> q + j \<le> p"
  unfolding holds_def using live_sep by fastforce

text \<open>A client may write anything behind its own pointer.\<close>

lemma heap_write:
  assumes inv: "heap_inv a B fl" and p: "live B fl p = Some k" and "\<And>y. \<not> (p \<le> y \<and> y < p + k) \<Longrightarrow> m' y = mem a y"
  shows "heap_inv (a\<lparr>mem := m'\<rparr>) B fl"
proof -
  note P = live_bounds [OF inv p]
  have l: "layout (cap a) B" and t: "tagged (mem a) B (set fl)" and lk: "linked a fl" and sub: "set fl \<subseteq> dom B"
    using inv by (auto simp: heap_inv_def)
  let ?x = "p - 16"
  have "tag m' y s f = tag (mem a) y s f" if y: "B y = Some s" for y s f
  proof (cases "y = ?x")
    case True
    then have s: "s = k + 20" using y P(6) by simp
    have "read32 m' y = read32 (mem a) y" "read32 m' (y + 4) = read32 (mem a) (y + 4)" "read32 m' (y + s - 4) = read32 (mem a) (y + s - 4)"
      using True s P(1) by (auto intro!: read32_cong assms(3))
    then show ?thesis by (simp add: tag_def field_defs)
  next
    case False
    show ?thesis by (rule tag_other [OF l y P(6) False], rule assms(3)) (use P(1) in auto)
  qed
  then have "tagged m' B (set fl)" using t by (simp add: tagged_def)
  moreover have "dseg m' 0 fl 0 = dseg (mem a) 0 fl 0"
  proof (rule dseg_cong, rule assms(3))
    fix z y assume z: "z \<in> set fl" "y \<in> links z"
    then obtain s where s: "B z = Some s" "z \<noteq> ?x" using sub P(7) by force
    from layout_sep [OF l s(1) P(6) s(2)] layoutD(2) [OF l s(1)] z(2) P(1) show "\<not> (p \<le> y \<and> y < p + k)"
      by (auto simp: links_def)
  qed
  ultimately show ?thesis using inv lk by (simp add: heap_inv_def linked_def)
qed

lemma holds_write: "holds a L \<Longrightarrow> L p = Some k \<Longrightarrow> (\<And>y. \<not> (p \<le> y \<and> y < p + k) \<Longrightarrow> m' y = mem a y) \<Longrightarrow> holds (a\<lparr>mem := m'\<rparr>) L"
  unfolding holds_def using heap_write by metis

section \<open>The allocator interface\<close>

locale allocator =
  fixes ok :: "'a \<Rightarrow> (nat \<rightharpoonup> nat) \<Rightarrow> bool"
    and memory :: "'a \<Rightarrow> mem"
    and store :: "'a \<Rightarrow> mem \<Rightarrow> 'a"
    and get :: "nat \<Rightarrow> 'a \<Rightarrow> (nat option \<times> 'a) option"
    and release :: "nat \<Rightarrow> 'a \<Rightarrow> 'a"
    and limit :: nat
  assumes get_ok: "ok a L \<Longrightarrow> 0 < n \<Longrightarrow> n \<le> limit \<Longrightarrow> get n a = Some (None, a) \<or>
      (\<exists>p k a'. get n a = Some (Some p, a') \<and> ok a' (L(p \<mapsto> k)) \<and> L p = None \<and> n \<le> k \<and> intact L (memory a) (memory a'))"
    and release_ok: "ok a L \<Longrightarrow> L p = Some k \<Longrightarrow> ok (release p a) (L(p := None)) \<and> intact (L(p := None)) (memory a) (memory (release p a))"
    and separate: "ok a L \<Longrightarrow> L p = Some k \<Longrightarrow> L q = Some j \<Longrightarrow> p \<noteq> q \<Longrightarrow> p + k \<le> q \<or> q + j \<le> p"
    and store_ok: "ok a L \<Longrightarrow> L p = Some k \<Longrightarrow> (\<And>y. \<not> (p \<le> y \<and> y < p + k) \<Longrightarrow> m y = memory a y) \<Longrightarrow> ok (store a m) L"
    and memory_store: "memory (store a m) = m"
begin

text \<open>\<open>C\<close> says which bytes a client has put behind which pointers.\<close>

definition stored :: "'a \<Rightarrow> (nat \<rightharpoonup> bytes) \<Rightarrow> bool" where
  "stored a C \<longleftrightarrow> (\<exists>L. ok a L \<and> (\<forall>p bs. C p = Some bs \<longrightarrow>
     (\<exists>k. L p = Some k \<and> length bs \<le> k) \<and> readBytes (memory a) p (length bs) = bs))"

lemma readBytes_intact:
  "intact L m m' \<Longrightarrow> L p = Some k \<Longrightarrow> n \<le> k \<Longrightarrow> readBytes m' p n = readBytes m p n"
  by (rule readBytes_cong) (auto simp: intact_def)

lemma store_get:
  assumes "stored a C" "0 < length src" "length src \<le> limit" "get (length src) a = Some (Some p, a')"
  shows "stored (store a' (writeBytes (memory a') p src)) (C(p \<mapsto> src)) \<and> C p = None"
proof -
  obtain L where L: "ok a L" "\<And>p bs. C p = Some bs \<Longrightarrow> (\<exists>k. L p = Some k \<and> length bs \<le> k) \<and> readBytes (memory a) p (length bs) = bs"
    using assms(1) by (auto simp: stored_def)
  from get_ok [OF L(1) assms(2,3)] assms(4) obtain k where
    k: "ok a' (L(p \<mapsto> k))" "L p = None" "length src \<le> k" "intact L (memory a) (memory a')" by auto
  let ?m = "writeBytes (memory a') p src"
  have "ok (store a' ?m) (L(p \<mapsto> k))"
    using k by (intro store_ok [OF k(1), of p k]) (auto intro!: writeBytes_other)
  moreover have "readBytes ?m p (length src) = src" by (simp add: mem_simps)
  moreover have "readBytes ?m q (length bs) = bs" if q: "C q = Some bs" for q bs
  proof -
    obtain j where j: "L q = Some j" "length bs \<le> j" "readBytes (memory a) q (length bs) = bs" using L(2) [OF q] by auto
    have "q \<noteq> p" using j k(2) by auto
    then have "p + k \<le> q \<or> q + j \<le> p" using separate [OF k(1), of p k q j] j by auto
    then have "readBytes ?m q (length bs) = readBytes (memory a') q (length bs)"
      using k(3) j(2) by (intro readBytes_cong writeBytes_other) auto
    then show ?thesis using readBytes_intact [OF k(4) j(1,2)] j(3) by simp
  qed
  moreover have "C p = None" using L(2) [of p] k(2) by (cases "C p") auto
  ultimately show ?thesis
    using L(2) k(3) unfolding stored_def memory_store by (intro conjI exI [of _ "L(p \<mapsto> k)"]) (auto split: if_splits)
qed

lemma release_stored:
  assumes "stored a C" "C p = Some bs"
  shows "stored (release p a) (C(p := None))"
proof -
  obtain L where L: "ok a L" "\<And>p bs. C p = Some bs \<Longrightarrow> (\<exists>k. L p = Some k \<and> length bs \<le> k) \<and> readBytes (memory a) p (length bs) = bs"
    using assms(1) by (auto simp: stored_def)
  obtain k where k: "L p = Some k" using L(2) [OF assms(2)] by auto
  note R = release_ok [OF L(1) k]
  have "readBytes (memory (release p a)) q (length cs) = cs \<and> (\<exists>k. (L(p := None)) q = Some k \<and> length cs \<le> k)"
    if "C q = Some cs" "q \<noteq> p" for q cs
    using L(2) [OF that(1)] that(2) readBytes_intact [of "L(p := None)" "memory a" "memory (release p a)" q] R by fastforce
  then show ?thesis using R unfolding stored_def by (intro exI [of _ "L(p := None)"]) (auto split: if_splits)
qed

end

text \<open>The size limit keeps the two roundings of \<open>alloc\<close> below \<open>2 ^ 64\<close>.\<close>

definition alloc_limit :: nat where
  "alloc_limit = 2 ^ 64 - 35"

interpretation arena: allocator holds mem "\<lambda>a m. a\<lparr>mem := m\<rparr>" alloc "\<lambda>p. free (Some p)" alloc_limit
proof (unfold_locales, goal_cases)
  case (1 a L n)
  then show ?case using alloc_holds [of a L n] by (simp add: alloc_limit_def)
next
  case (2 a L p k)
  then show ?case by (rule free_holds)
next
  case (3 a L p k q j)
  then show ?case by (rule holds_sep)
next
  case (4 a L p k m)
  then show ?case by (rule holds_write)
qed simp

end
