(* ===== verification/Retire.thy ===== *)
theory Retire
  imports Allocator
begin

text \<open>
  Retirement: blocks that are dead but may still be under a client's eye. \<open>retiring a L rl\<close> says that \<open>rl\<close> is the
  list of retired blocks, linked through their own payloads, all of them still handed out.
\<close>

fun rseg :: "mem \<Rightarrow> nat list \<Rightarrow> bool" where
  "rseg m [] \<longleftrightarrow> True"
| "rseg m (x # xs) \<longleftrightarrow> ret_next m x = hd_or 0 xs \<and> rseg m xs"

definition tracked_in :: "(nat \<rightharpoonup> nat) \<Rightarrow> nat \<Rightarrow> bool" where
  "tracked_in L x \<longleftrightarrow> (\<exists>k. L (x + 16) = Some k \<and> 16 \<le> k)"

definition retiring :: "arena \<Rightarrow> (nat \<rightharpoonup> nat) \<Rightarrow> nat list \<Rightarrow> bool" where
  "retiring a L rl \<longleftrightarrow> holds a L \<and> distinct rl \<and> (\<forall>x\<in>set rl. tracked_in L x) \<and> rseg (mem a) rl
     \<and> retire_head (ctl a) = hd_or 0 rl"

definition due :: "nat \<Rightarrow> nat \<Rightarrow> bool" where
  "due now at \<longleftrightarrow> at \<le> now \<and> RETIRE_GRACE_NS \<le> now - at"

section \<open>The control block\<close>

lemma unlink_ctl: "retire_head (ctl (unlink x a)) = retire_head (ctl a)"
  by (simp add: unlink_def Let_def)

lemma push_front_ctl: "retire_head (ctl (push_front x a)) = retire_head (ctl a)"
  by (simp add: push_front_def Let_def)

lemma merge_forward_ctl: "retire_head (ctl (merge_forward x a)) = retire_head (ctl a)"
  by (simp add: merge_forward_def Let_def unlink_ctl)

lemma merge_backward_ctl: "retire_head (ctl (snd (merge_backward x a))) = retire_head (ctl a)"
  by (simp add: merge_backward_def Let_def unlink_ctl)

lemma free_retire_head: "retire_head (ctl (free p a)) = retire_head (ctl a)"
proof (cases p)
  case (Some q)
  let ?x = "wrap32 (q + 2 ^ 32 - HDR)"
  let ?a = "a\<lparr>ctl := (ctl a)\<lparr>used := wrap64 (used (ctl a) + 2 ^ 64 + HDR + FTR - blk_size (mem a) ?x)\<rparr>\<rparr>"
  have "retire_head (ctl (snd (merge_backward ?x (merge_forward ?x ?a)))) = retire_head (ctl a)"
    by (simp only: merge_backward_ctl merge_forward_ctl) simp
  then show ?thesis unfolding Some free_def Let_def by (simp add: push_front_ctl case_prod_beta)
qed (simp add: free_def)

lemma wrap_header: "16 \<le> p \<Longrightarrow> p < 2 ^ 32 \<Longrightarrow> wrap32 (p + 2 ^ 32 - HDR) = p - 16"
proof -
  assume p: "16 \<le> p" "p < 2 ^ 32"
  then have "p + 2 ^ 32 - HDR = (p - 16) + 2 ^ 32" "p - 16 < 2 ^ 32" by (simp_all add: HDR_def)
  then show ?thesis by (simp only: wrap32_def mod_add_self2 mod_less)
qed

section \<open>The payload of a retired block\<close>

lemma ret_cong:
  assumes "\<And>y. x + 16 \<le> y \<Longrightarrow> y < x + 32 \<Longrightarrow> m' y = m y"
  shows "ret_at m' x = ret_at m x" "ret_next m' x = ret_next m x"
  using assms by (auto simp: ret_at_def ret_next_def HDR_def intro!: read64_cong read32_cong)

lemma intact_trans: "intact L m1 m2 \<Longrightarrow> intact L m2 m3 \<Longrightarrow> intact L m1 m3"
  by (simp add: intact_def)

lemma intact_ret:
  assumes "intact L m m'" "tracked_in L x"
  shows "ret_at m' x = ret_at m x" "ret_next m' x = ret_next m x"
proof -
  obtain k where "L (x + 16) = Some k" "16 \<le> k" using assms(2) by (auto simp: tracked_in_def)
  then have "\<And>y. x + 16 \<le> y \<Longrightarrow> y < x + 32 \<Longrightarrow> m' y = m y" using assms(1) by (auto simp: intact_def)
  from ret_cong [OF this] show "ret_at m' x = ret_at m x" "ret_next m' x = ret_next m x" by simp_all
qed

lemma intact_rseg: "intact L m m' \<Longrightarrow> (\<forall>x\<in>set xs. tracked_in L x) \<Longrightarrow> rseg m' xs = rseg m xs"
  by (induction xs) (auto simp: intact_ret)

lemma tracked_drop: "tracked_in L y \<Longrightarrow> y \<noteq> x \<Longrightarrow> tracked_in (L(x + 16 := None)) y"
  by (simp add: tracked_in_def)

lemma tracked_bounds: "holds a L \<Longrightarrow> tracked_in L x \<Longrightarrow> 0 < x \<and> x < 2 ^ 32"
  unfolding holds_def tracked_in_def using live_bounds(1,4,5) by fastforce

lemma set_ret_next_intact:
  assumes h: "holds a L" and x: "tracked_in L x"
  shows "holds (a\<lparr>mem := set_ret_next x v (mem a)\<rparr>) L"
    "intact (L(x + 16 := None)) (mem a) (set_ret_next x v (mem a))"
    "v < 2 ^ 32 \<Longrightarrow> ret_next (set_ret_next x v (mem a)) x = v"
    "ret_at (set_ret_next x v (mem a)) x = ret_at (mem a) x"
proof -
  obtain k where k: "L (x + 16) = Some k" "16 \<le> k" using x by (auto simp: tracked_in_def)
  have m: "set_ret_next x v (mem a) y = mem a y" if "\<not> (x + 24 \<le> y \<and> y < x + 28)" for y
    using that by (auto simp: set_ret_next_def HDR_def write32_other)
  show "holds (a\<lparr>mem := set_ret_next x v (mem a)\<rparr>) L"
    by (rule holds_write [OF h k(1)], rule m) (use k(2) in auto)
  show "intact (L(x + 16 := None)) (mem a) (set_ret_next x v (mem a))"
    unfolding intact_def
  proof (intro allI impI m)
    fix p j y assume p: "(L(x + 16 := None)) p = Some j" "p \<le> y" "y < p + j"
    then have "L p = Some j" "p \<noteq> x + 16" by (auto split: if_splits)
    from holds_sep [OF h this(1) k(1) this(2)] p k(2) show "\<not> (x + 24 \<le> y \<and> y < x + 28)" by auto
  qed
  show "v < 2 ^ 32 \<Longrightarrow> ret_next (set_ret_next x v (mem a)) x = v"
    by (simp add: ret_next_def set_ret_next_def mem_simps)
  show "ret_at (set_ret_next x v (mem a)) x = ret_at (mem a) x"
    unfolding ret_at_def by (rule read64_cong, rule m) (auto simp: HDR_def)
qed

section \<open>Retiring\<close>

lemma retire_small:
  assumes "holds a L" "L p = Some k" "k < 16"
  shows "retire (Some p) now a = free (Some p) a"
proof -
  obtain B fl where inv: "heap_inv a B fl" and L: "L = live B fl" using assms(1) by (auto simp: holds_def)
  note P = live_bounds [OF inv assms(2) [unfolded L]]
  have t: "tagged (mem a) B (set fl)" "opened a" using inv by (auto simp: heap_inv_def)
  from taggedD [OF t(1) P(6)] have "blk_size (mem a) (p - 16) = k + 20" "blk_free (mem a) (p - 16) = 0" using P(7) by (auto simp: tag_def)
  moreover have "wrap32 (p + 2 ^ 32 - HDR) = p - 16" using P by (intro wrap_header) auto
  ultimately show ?thesis using assms(3) t(2) by (simp add: retire_def Let_def arena_consts)
qed

lemma retire_eq:
  assumes "holds a L" "tracked_in L x"
  shows "retire (Some (x + 16)) now a =
    a\<lparr>mem := set_ret_next x (retire_head (ctl a)) (write64 (mem a) (x + 16) now), ctl := (ctl a)\<lparr>retire_head := x\<rparr>\<rparr>"
proof -
  obtain k where k: "L (x + 16) = Some k" "16 \<le> k" using assms(2) by (auto simp: tracked_in_def)
  obtain B fl where inv: "heap_inv a B fl" and L: "L = live B fl" using assms(1) by (auto simp: holds_def)
  note P = live_bounds [OF inv k(1) [unfolded L]]
  have t: "tagged (mem a) B (set fl)" "opened a" using inv by (auto simp: heap_inv_def)
  from taggedD [OF t(1) P(6)] have "blk_size (mem a) x = k + 20" "blk_free (mem a) x = 0" using P(7) by (auto simp: tag_def)
  moreover have "wrap32 (x + 16 + 2 ^ 32 - HDR) = x" using P wrap_header [of "x + 16"] by auto
  ultimately show ?thesis using k(2) t(2) by (simp add: retire_def Let_def arena_consts)
qed

lemma retire_retiring:
  assumes r: "retiring a L rl" and x: "tracked_in L x" "x \<notin> set rl" and now: "now < 2 ^ 64"
  defines "a' \<equiv> retire (Some (x + 16)) now a"
  shows "retiring a' L (x # rl)" "ret_at (mem a') x = now" "intact (L(x + 16 := None)) (mem a) (mem a')"
proof -
  have h: "holds a L" and rl: "distinct rl" "\<forall>y\<in>set rl. tracked_in L y" "rseg (mem a) rl" "retire_head (ctl a) = hd_or 0 rl"
    using r by (auto simp: retiring_def)
  obtain k where k: "L (x + 16) = Some k" "16 \<le> k" using x by (auto simp: tracked_in_def)
  let ?a1 = "a\<lparr>mem := write64 (mem a) (x + 16) now\<rparr>"
  have m: "write64 (mem a) (x + 16) now y = mem a y" if "\<not> (x + 16 \<le> y \<and> y < x + 24)" for y
    using that by (auto simp: write64_other)
  have h1: "holds ?a1 L" by (rule holds_write [OF h k(1)], rule m) (use k(2) in auto)
  have i1: "intact (L(x + 16 := None)) (mem a) (mem ?a1)"
    unfolding intact_def arena.select_convs arena.update_convs
  proof (intro allI impI)
    fix p j y assume p: "(L(x + 16 := None)) p = Some j" "p \<le> y" "y < p + j"
    then have "L p = Some j" "p \<noteq> x + 16" by (auto split: if_splits)
    from holds_sep [OF h this(1) k(1) this(2)] p k(2) show "mem ?a1 y = mem a y" by (auto intro!: m)
  qed
  note S = set_ret_next_intact [OF h1 x(1), of "hd_or 0 rl"]
  have hd32: "hd_or 0 rl < 2 ^ 32" using tracked_bounds [OF h] rl(2) by (cases rl) auto
  have a': "a' = a\<lparr>mem := set_ret_next x (hd_or 0 rl) (write64 (mem a) (x + 16) now), ctl := (ctl a)\<lparr>retire_head := x\<rparr>\<rparr>"
    unfolding a'_def using retire_eq [OF h x(1)] rl(4) by simp
  show i: "intact (L(x + 16 := None)) (mem a) (mem a')"
    using intact_trans [OF i1 S(2)] by (simp add: a')
  have "holds a' L" using S(1) unfolding a' holds_def heap_inv_def linked_def by simp
  moreover have "rseg (mem a') rl"
  proof -
    have "\<forall>y\<in>set rl. tracked_in (L(x + 16 := None)) y" using rl(2) x(2) by (auto intro: tracked_drop)
    then show ?thesis using intact_rseg [OF i, of rl] rl(3) by simp
  qed
  ultimately show "retiring a' L (x # rl)"
    using rl(1,2) x S(3) [OF hd32] by (simp add: retiring_def) (simp add: a')
  show "ret_at (mem a') x = now" using S(4) now by (simp add: a') (simp add: ret_at_def HDR_def mem_simps)
qed


section \<open>Reclaiming\<close>

text \<open>The blocks a reclaim at \<open>now\<close> gives back, and what is left of the handed-out ones.\<close>

definition without :: "(nat \<rightharpoonup> nat) \<Rightarrow> nat set \<Rightarrow> nat \<rightharpoonup> nat" where
  "without L X p = (if 16 \<le> p \<and> p - 16 \<in> X then None else L p)"

lemma without_insert: "without L (insert x X) = without (L(x + 16 := None)) X"
  by (rule ext) (auto simp: without_def)

lemma without_empty [simp]: "without L {} = L"
  by (rule ext) (simp add: without_def)

lemma intact_without: "intact L m m' \<Longrightarrow> intact (without L X) m m'"
  by (auto simp: intact_def without_def split: if_splits)

lemma reclaimLoop_ok:
  assumes "holds a L" "distinct (rl @ ks)" "\<forall>x\<in>set (rl @ ks). tracked_in L x" "rseg (mem a) rl" "rseg (mem a) ks"
    "\<And>x. x \<in> set rl \<Longrightarrow> ret_at (mem a) x = T x"
  shows "\<exists>a'. reclaimLoop now (hd_or 0 rl) (hd_or 0 ks) a = Some (hd_or 0 (rev (filter (\<lambda>x. \<not> due now (T x)) rl) @ ks), a')
    \<and> holds a' (without L {x \<in> set rl. due now (T x)})
    \<and> rseg (mem a') (rev (filter (\<lambda>x. \<not> due now (T x)) rl) @ ks)
    \<and> intact (without L (set rl \<union> set ks)) (mem a) (mem a')"
  using assms
proof (induction rl arbitrary: a L ks)
  case Nil
  then show ?case by (subst reclaimLoop.simps) (auto simp: intact_def)
next
  case (Cons x rl)
  have x: "tracked_in L x" "0 < x" "ret_at (mem a) x = T x" "ret_next (mem a) x = hd_or 0 rl"
    using Cons.prems tracked_bounds [OF Cons.prems(1)] by auto
  have rest: "x \<notin> set (rl @ ks)" "distinct (rl @ ks)" using Cons.prems(2) by auto
  have tr: "\<forall>y\<in>set (rl @ ks). tracked_in (L(x + 16 := None)) y"
    using Cons.prems(3) rest(1) by (auto intro!: tracked_drop)
  show ?case
  proof (cases "due now (T x)")
    case True
    obtain k where k: "L (x + 16) = Some k" using x(1) by (auto simp: tracked_in_def)
    let ?a = "free (Some (x + 16)) a" and ?L = "L(x + 16 := None)"
    have f: "holds ?a ?L" "intact ?L (mem a) (mem ?a)" using free_holds [OF Cons.prems(1) k] by simp_all
    have step: "reclaimLoop now x (hd_or 0 ks) a = reclaimLoop now (hd_or 0 rl) (hd_or 0 ks) ?a"
      using True x(2-4) by (subst reclaimLoop.simps) (simp add: Let_def due_def HDR_def)
    have "ret_at (mem ?a) y = T y" if y: "y \<in> set rl" for y
      using intact_ret(1) [OF f(2), of y] tr y Cons.prems(6) [of y] by simp
    then obtain a' where a': "reclaimLoop now (hd_or 0 rl) (hd_or 0 ks) ?a = Some (hd_or 0 (rev (filter (\<lambda>x. \<not> due now (T x)) rl) @ ks), a')"
      "holds a' (without ?L {x \<in> set rl. due now (T x)})" "rseg (mem a') (rev (filter (\<lambda>x. \<not> due now (T x)) rl) @ ks)"
      "intact (without ?L (set rl \<union> set ks)) (mem ?a) (mem a')"
      using Cons.IH [OF f(1) rest(2) tr] intact_rseg [OF f(2)] tr Cons.prems(4,5) by fastforce
    have "{y \<in> set (x # rl). due now (T y)} = insert x {y \<in> set rl. due now (T y)}" using True by auto
    moreover have "intact (without L (set (x # rl) \<union> set ks)) (mem a) (mem a')"
      using intact_trans [OF intact_without [OF f(2)] a'(4)] by (simp add: without_insert)
    ultimately show ?thesis using a'(1-3) True step by (simp add: without_insert)
  next
    case False
    let ?a = "a\<lparr>mem := set_ret_next x (hd_or 0 ks) (mem a)\<rparr>"
    note S = set_ret_next_intact [OF Cons.prems(1) x(1), of "hd_or 0 ks"]
    have h32: "hd_or 0 ks < 2 ^ 32" using tracked_bounds [OF Cons.prems(1)] Cons.prems(3) by (cases ks) auto
    have step: "reclaimLoop now x (hd_or 0 ks) a = reclaimLoop now (hd_or 0 rl) (hd_or 0 (x # ks)) ?a"
      using False x(2-4) by (subst reclaimLoop.simps) (auto simp: Let_def due_def)
    have i: "intact (L(x + 16 := None)) (mem a) (mem ?a)" using S(2) by simp
    have "ret_at (mem ?a) y = T y" if y: "y \<in> set rl" for y
      using intact_ret(1) [OF i, of y] tr y Cons.prems(6) [of y] by simp
    moreover have "rseg (mem ?a) rl" "rseg (mem ?a) (x # ks)"
      using intact_rseg [OF i, of rl] intact_rseg [OF i, of ks] tr Cons.prems(4,5) S(3) [OF h32] by auto
    moreover have "distinct (rl @ x # ks)" "\<forall>y\<in>set (rl @ x # ks). tracked_in L y" using Cons.prems(2,3) by auto
    ultimately obtain a' where a': "reclaimLoop now (hd_or 0 rl) (hd_or 0 (x # ks)) ?a = Some (hd_or 0 (rev (filter (\<lambda>x. \<not> due now (T x)) rl) @ x # ks), a')"
      "holds a' (without L {x \<in> set rl. due now (T x)})" "rseg (mem a') (rev (filter (\<lambda>x. \<not> due now (T x)) rl) @ x # ks)"
      "intact (without L (set rl \<union> set (x # ks))) (mem ?a) (mem a')"
      using Cons.IH [OF S(1), of "x # ks"] by blast
    have "{y \<in> set (x # rl). due now (T y)} = {y \<in> set rl. due now (T y)}" using False by auto
    moreover have "intact (without L (set (x # rl) \<union> set ks)) (mem a) (mem a')"
    proof -
      have "intact (without L (insert x (set rl \<union> set ks))) (mem a) (mem ?a)"
        using intact_without [OF i, of "set rl \<union> set ks"] by (simp only: without_insert)
      from intact_trans [OF this] a'(4) show ?thesis by simp
    qed
    ultimately show ?thesis using a'(1-3) False step by simp
  qed
qed

lemma reclaim_ok:
  assumes r: "retiring a L rl"
  shows "\<exists>a'. reclaim now a = Some a'
    \<and> retiring a' (without L {x \<in> set rl. due now (ret_at (mem a) x)}) (rev (filter (\<lambda>x. \<not> due now (ret_at (mem a) x)) rl))
    \<and> intact (without L (set rl)) (mem a) (mem a')"
proof -
  have h: "holds a L" and rl: "distinct rl" "\<forall>x\<in>set rl. tracked_in L x" "rseg (mem a) rl" "retire_head (ctl a) = hd_or 0 rl"
    using r by (auto simp: retiring_def)
  let ?T = "ret_at (mem a)" and ?a0 = "a\<lparr>ctl := (ctl a)\<lparr>retire_head := 0\<rparr>\<rparr>"
  have h0: "holds ?a0 L" using h unfolding holds_def heap_inv_def linked_def by simp
  obtain a' where a': "reclaimLoop now (hd_or 0 rl) 0 ?a0 = Some (hd_or 0 (rev (filter (\<lambda>x. \<not> due now (?T x)) rl)), a')"
    "holds a' (without L {x \<in> set rl. due now (?T x)})" "rseg (mem a') (rev (filter (\<lambda>x. \<not> due now (?T x)) rl))"
    "intact (without L (set rl)) (mem a) (mem a')"
    using reclaimLoop_ok [OF h0, of rl "[]" ?T now] rl by auto
  let ?k = "rev (filter (\<lambda>x. \<not> due now (?T x)) rl)" and ?L = "without L {x \<in> set rl. due now (?T x)}"
  let ?a = "a'\<lparr>ctl := (ctl a')\<lparr>retire_head := hd_or 0 ?k\<rparr>\<rparr>"
  have "opened a" using h by (auto simp: holds_def heap_inv_def)
  then have "reclaim now a = Some ?a" using a'(1) rl(4) by (simp add: reclaim_def)
  moreover have "holds ?a ?L" using a'(2) unfolding holds_def heap_inv_def linked_def by simp
  moreover have "\<forall>x\<in>set ?k. tracked_in ?L x" using rl(2) by (auto simp: tracked_in_def without_def)
  ultimately show ?thesis using rl(1) a'(3,4) by (intro exI [of _ ?a]) (simp add: retiring_def)
qed

lemma retired_count:
  assumes "retiring a L rl"
  shows "retired a = Some (length rl)"
proof -
  have "retiredLoop m (hd_or 0 xs) n = Some (n + length xs)" if "rseg m xs" "\<forall>x\<in>set xs. 0 < x" for m xs n
    using that by (induction xs arbitrary: n) (auto simp: retiredLoop.simps)
  moreover have "\<forall>x\<in>set rl. 0 < x" using assms tracked_bounds by (auto simp: retiring_def)
  moreover have "opened a" using assms by (auto simp: retiring_def holds_def heap_inv_def)
  ultimately show ?thesis using assms by (simp add: retired_def retiring_def)
qed

end
