(* ===== verification/ArenaSpec.thy ===== *)
theory ArenaSpec
  imports Retire
begin

text \<open>The properties of the arena, over the invariant and the interface of the theories before.\<close>

section \<open>Clients of the heap\<close>

text \<open>
  A client's history: it starts from a fresh arena, copies blobs in and gives blocks back, in any order. \<open>C\<close>
  remembers what it put behind the pointers it still holds.
\<close>

inductive client :: "arena \<Rightarrow> (nat \<rightharpoonup> bytes) \<Rightarrow> bool" where
  client_init: "arena_init (Some m) len a0 = (True, a) \<Longrightarrow> 8 dvd len \<Longrightarrow> len < 2 ^ 32 \<Longrightarrow> client a Map.empty"
| client_put: "client a C \<Longrightarrow> length src \<le> alloc_limit \<Longrightarrow> put src a = Some (Some p, a') \<Longrightarrow> client a' (C(p \<mapsto> src))"
| client_full: "client a C \<Longrightarrow> put src a = Some (None, a') \<Longrightarrow> client a' C"
| client_free: "client a C \<Longrightarrow> C p = Some bs \<Longrightarrow> client (free (Some p) a) (C(p := None))"

lemma put_Some: "put src a = Some (Some p, a') \<Longrightarrow>
    \<exists>a1. alloc (length src) a = Some (Some p, a1) \<and> a' = a1\<lparr>mem := writeBytes (mem a1) p src\<rparr> \<and> src \<noteq> []"
  by (auto simp: put_def alloc_def split: option.splits prod.splits if_splits)

lemma client_stored: "client a C \<Longrightarrow> arena.stored a C"
proof (induction rule: client.induct)
  case (client_init m len a0 a)
  then have "88 < len" by (auto simp: arena_init_def Let_def MIN_BLOCK_24 BNCL_CTL_BYTES_def split: if_splits)
  then have "holds a Map.empty" using init_holds [of len m a0] client_init by auto
  then show ?case by (auto simp: arena.stored_def)
next
  case (client_put a C src p a')
  then obtain a1 where "alloc (length src) a = Some (Some p, a1)" "a' = a1\<lparr>mem := writeBytes (mem a1) p src\<rparr>" "src \<noteq> []"
    using put_Some by blast
  then show ?case using arena.store_get [OF client_put.IH, of src] client_put.hyps(2) by (metis length_greater_0_conv)
next
  case (client_full a C src a')
  obtain L where L: "holds a L" using client_full.IH by (auto simp: arena.stored_def)
  have "alloc (length src) a = Some (None, a')"
    using client_full.hyps(2) by (auto simp: put_def split: option.splits prod.splits)
  then have "a' = a" by (auto simp: alloc_def Let_def split: option.splits if_splits)
  then show ?case using client_full.IH by simp
next
  case (client_free a C p bs)
  then show ?case using arena.release_stored by blast
qed

lemma stored_sep:
  assumes "arena.stored a C" "C p = Some bs" "C q = Some cs" "p \<noteq> q"
  shows "p + length bs \<le> q \<or> q + length cs \<le> p"
proof -
  obtain L where L: "holds a L" "\<And>p bs. C p = Some bs \<Longrightarrow> \<exists>k. L p = Some k \<and> length bs \<le> k"
    using assms(1) unfolding arena.stored_def by blast
  obtain k j where "L p = Some k" "length bs \<le> k" "L q = Some j" "length cs \<le> j" using L(2) assms(2,3) by blast
  with holds_sep [OF L(1), of p k q j] assms(4) show ?thesis by auto
qed

section \<open>A small arena\<close>

text \<open>An arena of one handed-out block of 32 bytes, for the witnesses.\<close>

definition demo_mem :: mem where
  "demo_mem = write32 (write32 (write32 (\<lambda>_. 0) 64 32) 68 0) 92 32"

definition demo_arena :: arena where
  "demo_arena = \<lparr>opened = True, cap = 96,
     ctl = \<lparr>lock = 0, taken_ns = 0, heap = 64, heap_end = 96, free_head = 0, retire_head = 0, used = 12\<rparr>, mem = demo_mem\<rparr>"

lemma demo_inv: "heap_inv demo_arena [64 \<mapsto> 32] []"
proof -
  have "layout 96 [64 \<mapsto> 32]" by (auto simp: layout_def split: if_splits)
  moreover have "tagged demo_mem [64 \<mapsto> 32] (set [])"
    by (simp add: tagged_def tag_def demo_mem_def field_defs mem_simps)
  ultimately show ?thesis by (simp add: heap_inv_def demo_arena_def linked_def apart_def usedOf_def)
qed

lemma demo_live: "live [64 \<mapsto> 32] [] = [80 \<mapsto> 12]"
  by (rule ext) (auto simp: live_def)

lemma demo_holds: "holds demo_arena [80 \<mapsto> 12]"
  using demo_inv demo_live unfolding holds_def by metis

lemma demo_retiring: "retiring demo_arena [80 \<mapsto> 12] []"
  using demo_holds by (simp add: retiring_def demo_arena_def)

section \<open>Properties\<close>



text \<open>
  C21: allocation is first fit and complete. On a well-formed heap the search always ends; it fails exactly when no
  free block is large enough for the rounded request, and then nothing changes. A block it hands out was free and is
  large enough, the pointer is 8-aligned, and the bytes behind the pointers handed out before are untouched.
\<close>

theorem alloc_first_fit:
  assumes "heap_inv a B fl" "0 < n" "n + 34 < 2 ^ 64"
  shows "(alloc n a = Some (None, a) \<and> (\<forall>x\<in>set fl. the (B x) < block_for n)) \<or>
    (\<exists>p k a' B' fl'. alloc n a = Some (Some p, a') \<and> p - 16 \<in> set fl \<and> block_for n \<le> the (B (p - 16)) \<and> n \<le> k \<and> 8 dvd p
      \<and> heap_inv a' B' fl' \<and> live B' fl' = (live B fl)(p \<mapsto> k) \<and> intact (live B fl) (mem a) (mem a'))"
  using alloc_cases [OF assms(1,2)]
proof (elim disjE exE conjE)
  fix off s assume off: "off \<in> set fl" "B off = Some s" "block_for n \<le> s"
    and al: "alloc n a = Some (Some (off + 16), carve off (block_for n) a)"
  obtain B' fl' k where c: "heap_inv (carve off (block_for n) a) B' fl'" "live B' fl' = (live B fl)(off + 16 \<mapsto> k)" "n \<le> k"
    "frame (extent B (set fl)) a (carve off (block_for n) a)"
    using alloc_found [OF assms off] by metis
  have "intact (live B fl) (mem a) (mem (carve off (block_for n) a))"
    by (rule frame_intact [OF assms(1) c(4)]) (use assms(1) in \<open>auto simp: heap_inv_def live_iff\<close>)
  moreover have "8 dvd off + 16" using assms(1) off(2) layoutD(3) by (auto simp: heap_inv_def)
  ultimately show ?thesis using al c(1-3) off
    by (intro disjI2 exI [of _ "off + 16"] exI [of _ k] exI [of _ "carve off (block_for n) a"] exI [of _ B'] exI [of _ fl']) simp
qed simp

theorem alloc_first_fit_witness: "alloc 9 demo_arena = Some (None, demo_arena)"
  using alloc_first_fit [OF demo_inv, of 9] by simp

text \<open>
  C22: freeing a block takes exactly it out of the handed-out ones, keeps the heap well-formed with no two
  adjacent free blocks, and touches nothing behind the other pointers.
\<close>

theorem free_coalesces:
  assumes "heap_inv a B fl" "live B fl p = Some k"
  shows "\<exists>B' fl'. heap_inv (free (Some p) a) B' fl' \<and> live B' fl' = (live B fl)(p := None)
    \<and> (\<forall>x s. B' x = Some s \<longrightarrow> x \<in> set fl' \<longrightarrow> x + s \<notin> set fl')
    \<and> intact ((live B fl)(p := None)) (mem a) (mem (free (Some p) a))"
proof -
  have "intact ((live B fl)(p := None)) (mem a) (mem (free (Some p) a))"
    using free_holds [of a "live B fl" p k] assms by (auto simp: holds_def)
  then show ?thesis using free_inv [OF assms] by (metis apart_def heap_inv_def)
qed

theorem free_coalesces_witness:
  "\<exists>B' fl'. heap_inv (free (Some 80) demo_arena) B' fl' \<and> live B' fl' = Map.empty"
  using free_coalesces [OF demo_inv, of 80 12] by (auto simp: demo_live)

text \<open>
  The byte count the arena reports is the sum of what is handed out.
\<close>

theorem used_is_sum:
  assumes "heap_inv a B fl"
  shows "arena_used a = (\<Sum>p\<in>dom (live B fl). the (live B fl p))"
proof -
  have "dom (live B fl) = (\<lambda>x. x + 16) ` (dom B - set fl)"
    by (auto simp: live_iff domIff image_iff)
  moreover have "inj_on (\<lambda>x. x + 16) (dom B - set fl)" by (simp add: inj_on_def)
  ultimately have "(\<Sum>p\<in>dom (live B fl). the (live B fl p)) = (\<Sum>x\<in>dom B - set fl. the (live B fl (x + 16)))"
    by (simp add: sum.reindex)
  also have "\<dots> = (\<Sum>x\<in>dom B - set fl. the (B x) - 20)" by (intro sum.cong) (auto simp: live_header)
  finally show ?thesis using assms by (simp add: arena_used_def heap_inv_def usedOf_def)
qed

theorem used_is_sum_witness: "arena_used demo_arena = 12"
  using used_is_sum [OF demo_inv] by (simp add: demo_live)

text \<open>
  C23: reclaiming honours the grace period and always ends. Of the retired blocks exactly those whose period has passed are
  given back; the others stay handed out, keep waiting and remain on the list, and the bytes of blocks that were
  never retired are untouched.
\<close>

theorem reclaim_grace:
  assumes "retiring a L rl"
  shows "\<exists>a'. reclaim now a = Some a'
    \<and> retiring a' (without L {x \<in> set rl. due now (ret_at (mem a) x)}) (rev (filter (\<lambda>x. \<not> due now (ret_at (mem a) x)) rl))
    \<and> intact (without L (set rl)) (mem a) (mem a')"
  by (rule reclaim_ok [OF assms])

theorem reclaim_grace_witness: "\<exists>a'. reclaim 7 demo_arena = Some a' \<and> retiring a' [80 \<mapsto> 12] []"
  using reclaim_grace [OF demo_retiring, of 7] by auto

text \<open>
  Retiring a block of at least 16 payload bytes puts it on the list with its time and leaves it handed out, so
  nothing else can be placed there; the count of retired blocks goes up by one.
\<close>

theorem retire_keeps_block:
  assumes "retiring a L rl" "tracked_in L x" "x \<notin> set rl" "now < 2 ^ 64"
  shows "retiring (retire (Some (x + 16)) now a) L (x # rl) \<and> ret_at (mem (retire (Some (x + 16)) now a)) x = now
    \<and> retired (retire (Some (x + 16)) now a) = Some (length rl + 1)
    \<and> intact (L(x + 16 := None)) (mem a) (mem (retire (Some (x + 16)) now a))"
  using retire_retiring [OF assms] retired_count [OF retire_retiring(1) [OF assms]] by simp

definition demo_mem2 :: mem where
  "demo_mem2 = write32 (write32 (write32 (\<lambda>_. 0) 64 40) 68 0) 100 40"

definition demo_arena2 :: arena where
  "demo_arena2 = \<lparr>opened = True, cap = 104,
     ctl = \<lparr>lock = 0, taken_ns = 0, heap = 64, heap_end = 104, free_head = 0, retire_head = 0, used = 20\<rparr>, mem = demo_mem2\<rparr>"

lemma demo2_retiring: "retiring demo_arena2 [80 \<mapsto> 20] []"
proof -
  have "layout 104 [64 \<mapsto> 40]" by (auto simp: layout_def split: if_splits)
  moreover have "tagged demo_mem2 [64 \<mapsto> 40] (set [])"
    by (simp add: tagged_def tag_def demo_mem2_def field_defs mem_simps)
  ultimately have "heap_inv demo_arena2 [64 \<mapsto> 40] []"
    by (simp add: heap_inv_def demo_arena2_def linked_def apart_def usedOf_def)
  moreover have "live [64 \<mapsto> 40] [] = [80 \<mapsto> 20]" by (rule ext) (auto simp: live_def)
  ultimately have "holds demo_arena2 [80 \<mapsto> 20]" unfolding holds_def by metis
  then show ?thesis by (simp add: retiring_def demo_arena2_def)
qed

theorem retire_keeps_block_witness: "retired (retire (Some (64 + 16)) 5 demo_arena2) = Some 1"
  using retire_keeps_block [OF demo2_retiring, of 64 5] by (simp add: tracked_in_def)

text \<open>
  A block of fewer than 16 payload bytes has no grace period: retiring it frees it at once, whatever the time. An
  allocation of 1 to 8 bytes from an exact fit gets such a block.
\<close>

theorem small_blocks_have_no_grace:
  assumes "holds a L" "L p = Some k" "k < 16"
  shows "retire (Some p) now a = free (Some p) a \<and> holds (retire (Some p) now a) (L(p := None))
    \<and> block_for 8 - HDR - FTR < 16"
  using retire_small [OF assms] free_holds [OF assms(1,2)]
  by (simp add: block_for_def align8_def arena_consts MIN_BLOCK_24)

theorem small_blocks_have_no_grace_witness:
  "holds (retire (Some 80) 0 demo_arena) Map.empty"
proof -
  have e: "[80 \<mapsto> 12](80 := None) = Map.empty" by simp
  have "holds (retire (Some 80) 0 demo_arena) ([80 \<mapsto> 12](80 := None))"
    by (rule small_blocks_have_no_grace [OF demo_holds, where k = 12, THEN conjunct2, THEN conjunct1]) simp_all
  then show ?thesis unfolding e .
qed



end
