(* ===== verification/Records.thy ===== *)
theory Records
  imports Memory "HOL-Library.AList"
begin

text \<open>
  The shared state of \<open>src/src/common/defs.h\<close>: the statement record with its byte layout in the arena and its reference count,
  the pipes, the requests and replies of the mini-protocol, and the kernel maps that daemon and clients share. Arena
  pointers are offsets, \<open>None\<close> is the null pointer. A kernel array map is a list of its fixed length, a hash map an association list with
  a capacity; a call that fails is \<open>None\<close>.
\<close>

section \<open>Constants\<close>

definition BNCL_STMT_MAX :: nat where "BNCL_STMT_MAX = 512"
definition BNCL_STORE_MAX :: nat where "BNCL_STORE_MAX = 4 * 1024 * 1024"
definition BNCL_CANONICAL_CAPS :: u32 where "BNCL_CANONICAL_CAPS = 0x01002200"
definition NS_PER_S :: nat where "NS_PER_S = 1000000000"

definition STMT_S_LOCAL :: nat where "STMT_S_LOCAL = 0"
definition BNCL_REQ_LOOKUP :: nat where "BNCL_REQ_LOOKUP = 0"
definition BNCL_REQ_STORE :: nat where "BNCL_REQ_STORE = 1"

definition BNCL_CFG_ENABLED :: nat where "BNCL_CFG_ENABLED = 0"
definition BNCL_CFG_PORT :: nat where "BNCL_CFG_PORT = 1"
definition BNCL_CFG_ERROR_TTL :: nat where "BNCL_CFG_ERROR_TTL = 3"
definition BNCL_CFG_CLIENT_ON :: nat where "BNCL_CFG_CLIENT_ON = 4"
definition BNCL_CFG_GENERATION :: nat where "BNCL_CFG_GENERATION = 5"
definition BNCL_CFG_LOCAL_ON :: nat where "BNCL_CFG_LOCAL_ON = 6"
definition BNCL_CFG_N :: nat where "BNCL_CFG_N = 7"

section \<open>The statement record\<close>

record stmt =
  stmt_txt :: "nat option"
  stmt_len :: nat
  stmt_ts :: nat
  stmt_state :: nat
  stmt_id :: nat
  stmt_data :: "nat option"
  stmt_data_len :: nat
  stmt_ttl :: nat
  stmt_refs :: nat

definition STMT_BYTES :: nat where "STMT_BYTES = 56"

definition le_bytes :: "nat \<Rightarrow> nat \<Rightarrow> bytes" where
  "le_bytes n v = map (\<lambda>i. byte i v) [0..<n]"

definition enc_ptr :: "nat option \<Rightarrow> nat" where
  "enc_ptr p = (case p of None \<Rightarrow> 0 | Some a \<Rightarrow> a)"

definition dec_ptr :: "nat \<Rightarrow> nat option" where
  "dec_ptr a = (if a = 0 then None else Some a)"

text \<open>The layout the compiler gives \<open>struct stmt\<close>: no padding, 56 bytes.\<close>

definition enc_stmt :: "stmt \<Rightarrow> bytes" where
  "enc_stmt st = le_bytes 8 (enc_ptr (stmt_txt st)) @ le_bytes 8 (stmt_len st) @ le_bytes 8 (stmt_ts st)
     @ le_bytes 4 (stmt_state st) @ le_bytes 4 (stmt_id st) @ le_bytes 8 (enc_ptr (stmt_data st))
     @ le_bytes 8 (stmt_data_len st) @ le_bytes 4 (stmt_ttl st) @ le_bytes 4 (stmt_refs st)"

definition field :: "bytes \<Rightarrow> nat \<Rightarrow> nat \<Rightarrow> nat" where
  "field bs off n = le (take n (drop off bs))"

definition dec_stmt :: "bytes \<Rightarrow> stmt" where
  "dec_stmt bs = \<lparr>stmt_txt = dec_ptr (field bs 0 8), stmt_len = field bs 8 8, stmt_ts = field bs 16 8,
     stmt_state = field bs 24 4, stmt_id = field bs 28 4, stmt_data = dec_ptr (field bs 32 8),
     stmt_data_len = field bs 40 8, stmt_ttl = field bs 48 4, stmt_refs = field bs 52 4\<rparr>"

text \<open>Following a record pointer, and writing fields through it.\<close>

definition read_stmt :: "mem \<Rightarrow> nat \<Rightarrow> stmt" where
  "read_stmt m p = dec_stmt (readBytes m p STMT_BYTES)"

definition write_stmt :: "mem \<Rightarrow> nat \<Rightarrow> stmt \<Rightarrow> mem" where
  "write_stmt m p st = writeBytes m p (enc_stmt st)"

text \<open>What \<open>memset\<close> makes of a fresh record.\<close>

definition zero_stmt :: stmt where
  "zero_stmt = \<lparr>stmt_txt = None, stmt_len = 0, stmt_ts = 0, stmt_state = STMT_S_LOCAL, stmt_id = 0,
     stmt_data = None, stmt_data_len = 0, stmt_ttl = 0, stmt_refs = 0\<rparr>"

text \<open>The map key of a statement: its text, zero-padded.\<close>

definition stmt_key :: "bytes \<Rightarrow> bytes" where
  "stmt_key sql = sql @ replicate (BNCL_STMT_MAX - length sql) 0"

section \<open>References\<close>

text \<open>One uncontended run of each operation: the compare-and-swap succeeds at the first attempt.\<close>

definition bncl_stmt_get :: "nat \<Rightarrow> mem \<Rightarrow> bool \<times> mem" where
  "bncl_stmt_get p m =
     (let st = read_stmt m p
      in if stmt_refs st = 0 then (False, m)
         else (True, write_stmt m p (st\<lparr>stmt_refs := wrap32 (stmt_refs st + 1)\<rparr>)))"

definition bncl_stmt_put :: "nat \<Rightarrow> mem \<Rightarrow> bool \<times> mem" where
  "bncl_stmt_put p m =
     (let st = read_stmt m p; refs = wrap32 (stmt_refs st + 2 ^ 32 - 1)
      in (refs = 0, write_stmt m p (st\<lparr>stmt_refs := refs\<rparr>)))"

section \<open>Pipes and the mini-protocol\<close>

record pipe_sk_info =
  si_key :: nat
  si_paired :: nat

record dpipe =
  dp_key :: nat
  dp_cfd :: nat
  dp_sfd :: nat
  dp_ts :: nat
  dp_stmt :: "nat option"
  dp_in_use :: nat

record dpipes_meta =
  serial :: nat
  num_free :: nat

datatype agent_status = AGENT_OK | AGENT_WRITE_THROUGH | AGENT_CACHE_ERROR

fun status_byte :: "agent_status \<Rightarrow> u8" where
  "status_byte AGENT_OK = 0x01"
| "status_byte AGENT_WRITE_THROUGH = 0x00"
| "status_byte AGENT_CACHE_ERROR = 0xff"

text \<open>The bytes of \<open>struct agent_reply\<close> and \<open>struct bncl_req\<close>, eight each.\<close>

definition agent_reply :: "agent_status \<Rightarrow> nat \<Rightarrow> bytes" where
  "agent_reply s i = [status_byte s, 0, 0, 0] @ le_bytes 4 i"

definition bncl_req :: "nat \<Rightarrow> nat \<Rightarrow> bytes" where
  "bncl_req kind len = le_bytes 4 kind @ le_bytes 4 len"

section \<open>Kernel maps\<close>

definition array_lookup :: "'a list \<Rightarrow> nat \<Rightarrow> 'a option" where
  "array_lookup xs i = (if i < length xs then Some (xs ! i) else None)"

definition array_update :: "'a list \<Rightarrow> nat \<Rightarrow> 'a \<Rightarrow> 'a list option" where
  "array_update xs i v = (if i < length xs then Some (xs[i := v]) else None)"

definition hash_update :: "nat \<Rightarrow> 'k \<Rightarrow> 'v \<Rightarrow> ('k \<times> 'v) list \<Rightarrow> ('k \<times> 'v) list option" where
  "hash_update cap k v m =
     (if map_of m k = None \<and> cap \<le> length m then None else Some (AList.update k v m))"

text \<open>
  The maps of \<open>kclient.bpf.c\<close>. A socket map holds the socket registered at an index; socket storage belongs to the socket.
\<close>

record maps =
  stmts_map :: "(bytes \<times> nat) list"
  max_stmts :: nat
  dpipe_map :: "nat option list"
  cpipe_map :: "nat option list"
  pipe_sk_info_map :: "(nat \<times> pipe_sk_info) list"
  dpipe_freelist :: "nat list"
  dpipes_meta_map :: dpipes_meta
  dpipes :: "dpipe list"
  cfg :: "nat list"

text \<open>No map at all: every lookup and update fails.\<close>

definition no_maps :: maps where
  "no_maps = \<lparr>stmts_map = [], max_stmts = 0, dpipe_map = [], cpipe_map = [], pipe_sk_info_map = [], dpipe_freelist = [], dpipes_meta_map = \<lparr>serial = 0, num_free = 0\<rparr>,
     dpipes = [], cfg = []\<rparr>"

section \<open>Layout lemmas\<close>

lemma length_le_bytes [simp]: "length (le_bytes n v) = n"
  by (simp add: le_bytes_def)

lemma le_le_bytes: "le (le_bytes n v) = v mod 256 ^ n"
proof (induction n arbitrary: v)
  case (Suc n)
  have "[0..<Suc n] = 0 # map Suc [0..<n]" by (rule upt_rec [THEN trans]) (simp add: map_Suc_upt)
  then have "le_bytes (Suc n) v = byte 0 v # le_bytes n (v div 256)"
    by (simp add: le_bytes_def byte_def comp_def div_mult2_eq)
  then have "le (le_bytes (Suc n) v) = v mod 256 + 256 * (v div 256 mod 256 ^ n)"
    using Suc by (simp add: unat_byte)
  then show ?case by (simp only: power_Suc mod_mult2_eq add.commute)
qed (simp add: le_bytes_def)

lemma length_enc_stmt [simp]: "length (enc_stmt st) = STMT_BYTES"
  by (simp add: enc_stmt_def STMT_BYTES_def)

lemma enc_stmt_ne [simp]: "enc_stmt st \<noteq> []"
  using length_enc_stmt [of st] by (auto simp: STMT_BYTES_def simp del: length_enc_stmt)

definition stmt_fits :: "stmt \<Rightarrow> bool" where
  "stmt_fits st \<longleftrightarrow> stmt_txt st \<noteq> Some 0 \<and> enc_ptr (stmt_txt st) < 2 ^ 64 \<and> stmt_len st < 2 ^ 64 \<and> stmt_ts st < 2 ^ 64
     \<and> stmt_state st < 2 ^ 32 \<and> stmt_id st < 2 ^ 32 \<and> stmt_data st \<noteq> Some 0 \<and> enc_ptr (stmt_data st) < 2 ^ 64
     \<and> stmt_data_len st < 2 ^ 64 \<and> stmt_ttl st < 2 ^ 32 \<and> stmt_refs st < 2 ^ 32"

lemma dec_enc_ptr [simp]: "p \<noteq> Some 0 \<Longrightarrow> dec_ptr (enc_ptr p) = p"
  by (cases p) (auto simp: dec_ptr_def enc_ptr_def)

lemma dec_enc_stmt: "stmt_fits st \<Longrightarrow> dec_stmt (enc_stmt st) = st"
  by (simp add: stmt_fits_def dec_stmt_def enc_stmt_def field_def le_le_bytes)

lemma field_bound: "field bs off n < 256 ^ n"
proof -
  have "le (take n (drop off bs)) < 256 ^ length (take n (drop off bs))" by (rule le_bound)
  also have "\<dots> \<le> 256 ^ n" by (rule power_increasing) simp_all
  finally show ?thesis by (simp add: field_def)
qed

lemma fits_dec: "stmt_fits (dec_stmt bs)"
  using field_bound [of bs 0 8] field_bound [of bs 8 8] field_bound [of bs 16 8] field_bound [of bs 24 4]
    field_bound [of bs 28 4] field_bound [of bs 32 8] field_bound [of bs 40 8] field_bound [of bs 48 4] field_bound [of bs 52 4]
  by (simp add: stmt_fits_def dec_stmt_def dec_ptr_def enc_ptr_def)

lemma read_write_stmt: "stmt_fits st \<Longrightarrow> read_stmt (write_stmt m p st) p = st"
  using readBytes_writeBytes [of m p "enc_stmt st"] by (simp add: read_stmt_def write_stmt_def dec_enc_stmt)

lemma length_stmt_key: "length sql \<le> BNCL_STMT_MAX \<Longrightarrow> length (stmt_key sql) = BNCL_STMT_MAX"
  by (simp add: stmt_key_def)

lemma stmt_key_inj: "stmt_key a = stmt_key b \<Longrightarrow> 0 \<notin> set a \<Longrightarrow> 0 \<notin> set b \<Longrightarrow> a = b"
proof -
  assume k: "stmt_key a = stmt_key b" and z: "0 \<notin> set a" "0 \<notin> set b"
  have "takeWhile (\<lambda>x. x \<noteq> 0) (stmt_key c) = c" if "0 \<notin> set c" for c
    using that by (auto simp: stmt_key_def takeWhile_append takeWhile_eq_Nil_iff)
  with k z show ?thesis by metis
qed

section \<open>References under contention\<close>

text \<open>
  The atomic steps of any number of processes on one count: the load, each attempt of the compare-and-swap,
  and the decrement. \<open>Trying c\<close> is a process in the loop of \<open>bncl_stmt_get\<close> with \<open>cur = c\<close>. The list's own
  reference is held by a process of its own.
\<close>

datatype ref_pc = Idle | Trying nat | Holding | Refused

record ref_state =
  count :: nat
  pc :: "nat \<Rightarrow> ref_pc"

inductive ref_step :: "ref_state \<Rightarrow> ref_state \<Rightarrow> bool" where
  load: "pc s t = Idle \<Longrightarrow> ref_step s (s\<lparr>pc := (pc s)(t := Trying (count s))\<rparr>)"
| refuse: "pc s t = Trying 0 \<Longrightarrow> ref_step s (s\<lparr>pc := (pc s)(t := Refused)\<rparr>)"
| cas_won: "pc s t = Trying c \<Longrightarrow> c \<noteq> 0 \<Longrightarrow> count s = c \<Longrightarrow>
    ref_step s \<lparr>count = wrap32 (c + 1), pc = (pc s)(t := Holding)\<rparr>"
| cas_lost: "pc s t = Trying c \<Longrightarrow> c \<noteq> 0 \<Longrightarrow> count s \<noteq> c \<Longrightarrow> ref_step s (s\<lparr>pc := (pc s)(t := Trying (count s))\<rparr>)"
| put_ref: "pc s t = Holding \<Longrightarrow> ref_step s \<lparr>count = wrap32 (count s + 2 ^ 32 - 1), pc = (pc s)(t := Idle)\<rparr>"
| retry: "pc s t = Refused \<Longrightarrow> ref_step s (s\<lparr>pc := (pc s)(t := Idle)\<rparr>)"

inductive_cases ref_stepE: "ref_step s s'"

definition ref_init :: "nat \<Rightarrow> ref_state" where
  "ref_init owner = \<lparr>count = 1, pc = (\<lambda>_. Idle)(owner := Holding)\<rparr>"

text \<open>States reached with at most \<open>n\<close> processes taking part.\<close>

inductive ref_reach :: "nat \<Rightarrow> nat \<Rightarrow> ref_state \<Rightarrow> bool" for n owner where
  ref_start: "owner < n \<Longrightarrow> ref_reach n owner (ref_init owner)"
| ref_next: "ref_reach n owner s \<Longrightarrow> ref_step s s' \<Longrightarrow> (\<forall>t\<ge>n. pc s' t = Idle) \<Longrightarrow> ref_reach n owner s'"

definition holders :: "ref_state \<Rightarrow> nat set" where
  "holders s = {t. pc s t = Holding}"

lemma finite_holders: "(\<forall>t\<ge>n. pc s t = Idle) \<Longrightarrow> holders s \<subseteq> {..<n}"
  by (auto simp: holders_def) (metis leI ref_pc.distinct(3))

lemma count_is_holders:
  assumes "n < 2 ^ 32" "ref_reach n owner s"
  shows "(\<forall>t\<ge>n. pc s t = Idle) \<and> count s = card (holders s)"
  using assms(2)
proof (induction rule: ref_reach.induct)
  case ref_start
  then have "holders (ref_init owner) = {owner}" by (auto simp: holders_def ref_init_def)
  with ref_start show ?case by (auto simp: ref_init_def)
next
  case (ref_next s s')
  have fin: "finite (holders s)" using finite_holders ref_next.IH by (meson finite_lessThan finite_subset)
  have sub': "holders s' \<subseteq> {..<n}" by (rule finite_holders [OF ref_next.hyps(3)])
  then have le': "card (holders s') \<le> n" using card_mono [OF finite_lessThan sub'] by simp
  have c: "count s = card (holders s)" using ref_next.IH by simp
  from ref_next.hyps(2) have "count s' = card (holders s')"
  proof (cases rule: ref_step.cases)
    case (load t)
    then have "holders s' = holders s" by (auto simp: holders_def)
    with load c show ?thesis by simp
  next
    case (refuse t)
    then have "holders s' = holders s" by (auto simp: holders_def)
    with refuse c show ?thesis by simp
  next
    case (cas_won t cc)
    then have h: "holders s' = insert t (holders s)" "t \<notin> holders s" by (auto simp: holders_def)
    then have "card (holders s') = card (holders s) + 1" using fin by simp
    moreover have "card (holders s') < 2 ^ 32" using le' assms(1) by simp
    ultimately show ?thesis using cas_won c by simp
  next
    case (cas_lost t cc)
    then have "holders s' = holders s" by (auto simp: holders_def)
    with cas_lost c show ?thesis by simp
  next
    case (put_ref t)
    then have h: "holders s' = holders s - {t}" "t \<in> holders s" by (auto simp: holders_def)
    then have pos: "0 < card (holders s)" using fin card_gt_0_iff by blast
    have "card (holders s') = card (holders s) - 1" using h fin by simp
    moreover have "count s + 2 ^ 32 - 1 = (card (holders s) - 1) + 2 ^ 32" using c pos by simp
    moreover have "card (holders s) - 1 < 2 ^ 32" using calculation(1) le' assms(1) by simp
    ultimately show ?thesis using put_ref by (simp only: wrap32_def mod_add_self2 mod_less ref_state.select_convs)
  next
    case (retry t)
    then have "holders s' = holders s" by (auto simp: holders_def)
    with retry c show ?thesis by simp
  qed
  with ref_next.hyps(3) show ?case by simp
qed

section \<open>Properties\<close>

text \<open>
  C24: however the compare-and-swap loops of up to \<open>2 ^ 32 - 1\<close> processes interleave, the count of a record is the
  number of holders; while anyone holds a reference it is not zero, and once it is zero no step brings it back, so a retired
  record is never handed out again.
\<close>

theorem references_counted:
  assumes "n < 2 ^ 32" "ref_reach n owner s"
  shows "count s = card (holders s) \<and> (pc s t = Holding \<longrightarrow> count s \<noteq> 0)
    \<and> (count s = 0 \<longrightarrow> ref_step s s' \<longrightarrow> count s' = 0)"
proof -
  note I = count_is_holders [OF assms]
  have fin: "finite (holders s)" using finite_holders I by (meson finite_lessThan finite_subset)
  have h: "count s \<noteq> 0" if "pc s t = Holding" for t
    using I fin that card_0_eq by (auto simp: holders_def)
  moreover have "count s' = 0" if "count s = 0" "ref_step s s'"
    using that(2) by (cases rule: ref_step.cases) (use that(1) h in auto)
  ultimately show ?thesis using I by blast
qed

theorem references_counted_witness: "count (ref_init 0) = card (holders (ref_init 0))"
  using references_counted [of 1 0 "ref_init 0" 0 "ref_init 0"] ref_start [of 0 1] by simp

end
