(* ===== verification/Pool.thy ===== *)
theory Pool
  imports Records
begin

text \<open>
  The pipe pool of \<open>src/src/daemon/dpipes.{h,cpp}\<close>: the daemon builds the pipes, publishes them in the shared maps and puts
  their keys on the free list the clients pop from. The sockets the kernel hands out are an input, \<open>None\<close> a failed call.
\<close>

section \<open>Model\<close>

record pipe =
  p_key :: nat
  p_cfd :: int
  p_sfd :: int

record pool =
  pipes :: "pipe list"
  listening :: bool

definition fresh_pipe :: pipe where
  "fresh_pipe = \<lparr>p_key = 0, p_cfd = -1, p_sfd = -1\<rparr>"

definition empty_pool :: pool where
  "empty_pool = \<lparr>pipes = [], listening = False\<rparr>"

definition makePipe :: "(nat \<times> nat) option \<Rightarrow> pipe \<Rightarrow> pipe option" where
  "makePipe socks p = map_option (\<lambda>(cfd, sfd). p\<lparr>p_cfd := int cfd, p_sfd := int sfd\<rparr>) socks"

text \<open>The keys on the free list, in the order they were pushed.\<close>

definition free_keys :: "maps \<Rightarrow> nat list" where
  "free_keys m = take (num_free (dpipes_meta_map m)) (dpipe_freelist m)"

definition onFreelist :: "nat \<Rightarrow> maps \<Rightarrow> bool" where
  "onFreelist key m = list_ex (\<lambda>i. array_lookup (dpipe_freelist m) i = Some key) [0..<num_free (dpipes_meta_map m)]"

definition pool_release :: "pool \<Rightarrow> nat \<Rightarrow> maps \<Rightarrow> bool \<times> maps" where
  "pool_release p key m =
     (let meta = dpipes_meta_map m in
      if num_free meta \<ge> length (pipes p) \<and> pipes p \<noteq> [] then (True, m)
      else if onFreelist key m then (True, m)
      else let slot = num_free meta in
        case array_update (dpipe_freelist m) slot key of
          None \<Rightarrow> (False, m)
        | Some fl \<Rightarrow> (True, m\<lparr>dpipe_freelist := fl, dpipes_meta_map := meta\<lparr>num_free := wrap32 (slot + 1)\<rparr>\<rparr>))"

definition pool_publish :: "pool \<Rightarrow> pipe \<Rightarrow> maps \<Rightarrow> bool \<times> maps" where
  "pool_publish p pi m =
     (case array_update (dpipe_map m) (p_key pi) (Some (nat (p_sfd pi))) of
        None \<Rightarrow> (False, m)
      | Some dm \<Rightarrow>
          let m = m\<lparr>dpipe_map := dm\<rparr>;
              rec = \<lparr>dp_key = p_key pi, dp_cfd = nat (p_cfd pi), dp_sfd = nat (p_sfd pi), dp_ts = 0, dp_stmt = None, dp_in_use = 0\<rparr>
          in case array_update (dpipes m) (p_key pi) rec of
               None \<Rightarrow> (False, m)
             | Some ds \<Rightarrow> pool_release p (p_key pi) (m\<lparr>dpipes := ds\<rparr>))"

text \<open>The loop of \<open>init\<close> over the pipes from index \<open>i\<close> on, with one entry of \<open>socks\<close> per pipe.\<close>

fun initPipes :: "nat \<Rightarrow> (nat \<times> nat) option list \<Rightarrow> pool \<Rightarrow> maps \<Rightarrow> bool \<times> pool \<times> maps" where
  "initPipes i [] p m = (True, p, m)"
| "initPipes i (s # socks) p m =
     (let pi = (pipes p ! i)\<lparr>p_key := wrap32 i\<rparr> in
      case makePipe s pi of
        None \<Rightarrow> (False, p\<lparr>pipes := (pipes p)[i := pi]\<rparr>, m)
      | Some pi \<Rightarrow>
          let p = p\<lparr>pipes := (pipes p)[i := pi]\<rparr>;
              (ok, m) = pool_publish p pi m
          in if \<not> ok then (False, p, m) else initPipes (i + 1) socks p m)"

definition pool_init :: "bool \<Rightarrow> (nat \<times> nat) option list \<Rightarrow> pool \<Rightarrow> maps \<Rightarrow> bool \<times> pool \<times> maps" where
  "pool_init listener socks p m =
     (if \<not> listener then (False, p, m)
      else let p = p\<lparr>listening := True\<rparr>;
               m = m\<lparr>dpipes_meta_map := \<lparr>serial = 0, num_free = 0\<rparr>\<rparr>;
               count = length socks;
               p = p\<lparr>pipes := take count (pipes p @ replicate (count - length (pipes p)) fresh_pipe)\<rparr>;
               (ok, p, m) = initPipes 0 socks p m
      in if \<not> ok then (False, p, m)
         else (True, p, m\<lparr>dpipes_meta_map := \<lparr>serial = wrap32 count, num_free = wrap32 count\<rparr>\<rparr>))"

definition freeCount :: "maps \<Rightarrow> nat" where
  "freeCount m = num_free (dpipes_meta_map m)"

definition byKey :: "pool \<Rightarrow> nat \<Rightarrow> pipe option" where
  "byKey p key = (if key \<ge> length (pipes p) then None else Some (pipes p ! key))"

definition pool_shutdown :: "pool \<Rightarrow> pool" where
  "pool_shutdown p = p\<lparr>pipes := [], listening := False\<rparr>"

section \<open>The free list\<close>

text \<open>Well-formed pool maps: the count stays within the list and no key is on it twice.\<close>

definition freelist_ok :: "maps \<Rightarrow> bool" where
  "freelist_ok m \<longleftrightarrow> num_free (dpipes_meta_map m) \<le> length (dpipe_freelist m) \<and> distinct (free_keys m)
     \<and> length (dpipe_freelist m) < 2 ^ 32"

lemma onFreelist_iff: "freelist_ok m \<Longrightarrow> onFreelist key m \<longleftrightarrow> key \<in> set (free_keys m)"
  by (auto simp: onFreelist_def free_keys_def freelist_ok_def array_lookup_def list_ex_iff in_set_conv_nth)

lemma length_free_keys: "freelist_ok m \<Longrightarrow> length (free_keys m) = num_free (dpipes_meta_map m)"
  by (simp add: free_keys_def freelist_ok_def)

text \<open>Pushing into the first free slot and then counting it.\<close>

definition pushed :: "nat \<Rightarrow> maps \<Rightarrow> maps" where
  "pushed key m = m\<lparr>dpipe_freelist := (dpipe_freelist m)[num_free (dpipes_meta_map m) := key],
     dpipes_meta_map := (dpipes_meta_map m)\<lparr>num_free := num_free (dpipes_meta_map m) + 1\<rparr>\<rparr>"

lemma free_keys_pushed:
  "num_free (dpipes_meta_map m) < length (dpipe_freelist m) \<Longrightarrow> free_keys (pushed key m) = free_keys m @ [key]"
  by (simp add: pushed_def free_keys_def take_Suc_conv_app_nth)

lemma freelist_ok_pushed:
  assumes "freelist_ok m" "num_free (dpipes_meta_map m) < length (dpipe_freelist m)" "key \<notin> set (free_keys m)"
  shows "freelist_ok (pushed key m)"
  using assms free_keys_pushed [OF assms(2)] by (simp add: freelist_ok_def) (simp add: pushed_def)

lemma release_pushes:
  assumes "freelist_ok m" "key \<notin> set (free_keys m)" "num_free (dpipes_meta_map m) < length (pipes p)"
    "length (pipes p) \<le> length (dpipe_freelist m)"
  shows "pool_release p key m = (True, pushed key m)"
  using assms onFreelist_iff [OF assms(1)]
  by (auto simp: pool_release_def Let_def array_update_def pushed_def freelist_ok_def)

section \<open>Initialisation\<close>

text \<open>What the loop has done after the pipes below \<open>i\<close>.\<close>

definition published :: "nat \<Rightarrow> (nat \<times> nat) option list \<Rightarrow> pool \<Rightarrow> maps \<Rightarrow> bool" where
  "published i socks p m \<longleftrightarrow> free_keys m = [0..<i] \<and> freelist_ok m \<and> num_free (dpipes_meta_map m) = i
     \<and> length (pipes p) = length socks \<and> length socks \<le> length (dpipe_freelist m) \<and> length socks \<le> length (dpipes m)
     \<and> length socks \<le> length (dpipe_map m)
     \<and> (\<forall>k<i. \<exists>c s. socks ! k = Some (c, s) \<and> pipes p ! k = \<lparr>p_key = k, p_cfd = int c, p_sfd = int s\<rparr>
          \<and> dpipe_map m ! k = Some s
          \<and> dpipes m ! k = \<lparr>dp_key = k, dp_cfd = c, dp_sfd = s, dp_ts = 0, dp_stmt = None, dp_in_use = 0\<rparr>)"

lemma published_step:
  assumes "published i socks p m" "i < length socks" "socks ! i = Some (c, s)"
  defines "pi \<equiv> \<lparr>p_key = i, p_cfd = int c, p_sfd = int s\<rparr>"
  shows "\<exists>m'. pool_publish (p\<lparr>pipes := (pipes p)[i := pi]\<rparr>) pi m = (True, m')
    \<and> published (i + 1) socks (p\<lparr>pipes := (pipes p)[i := pi]\<rparr>) m'"
proof -
  let ?p = "p\<lparr>pipes := (pipes p)[i := pi]\<rparr>"
  let ?rec = "\<lparr>dp_key = i, dp_cfd = c, dp_sfd = s, dp_ts = 0, dp_stmt = None, dp_in_use = 0\<rparr>"
  let ?m = "m\<lparr>dpipe_map := (dpipe_map m)[i := Some s], dpipes := (dpipes m)[i := ?rec]\<rparr>"
  note P = assms(1) [unfolded published_def]
  have k: "free_keys ?m = [0..<i]" "freelist_ok ?m" "num_free (dpipes_meta_map ?m) = i"
    using P by (clarsimp simp: free_keys_def freelist_ok_def)+
  have r: "pool_release ?p i ?m = (True, pushed i ?m)"
    by (rule release_pushes [OF k(2)]) (use k P assms(2) in auto)
  have "pool_publish ?p pi m = (True, pushed i ?m)"
    using P assms(2) r by (simp add: pool_publish_def array_update_def pi_def)
  moreover have "published (i + 1) socks ?p (pushed i ?m)"
    unfolding published_def
  proof (intro conjI allI impI)
    have n: "num_free (dpipes_meta_map ?m) < length (dpipe_freelist ?m)" using P assms(2) by simp
    show "free_keys (pushed i ?m) = [0..<i + 1]" using free_keys_pushed [OF n] k(1) by simp
    show "freelist_ok (pushed i ?m)" using freelist_ok_pushed [OF k(2) n] k(1) by simp
    fix k assume "k < i + 1"
    then show "\<exists>c s. socks ! k = Some (c, s) \<and> pipes ?p ! k = \<lparr>p_key = k, p_cfd = int c, p_sfd = int s\<rparr>
          \<and> dpipe_map (pushed i ?m) ! k = Some s
          \<and> dpipes (pushed i ?m) ! k = \<lparr>dp_key = k, dp_cfd = c, dp_sfd = s, dp_ts = 0, dp_stmt = None, dp_in_use = 0\<rparr>"
      using P assms(2,3) by (cases "k = i") (auto simp: pushed_def pi_def)
  qed (use P in \<open>simp_all add: pushed_def\<close>)
  ultimately show ?thesis by blast
qed

lemma initPipes_ok:
  assumes "\<forall>s\<in>set rest. s \<noteq> None" "published (length done) (done @ rest) p m"
  shows "\<exists>p' m'. initPipes (length done) rest p m = (True, p', m') \<and> published (length (done @ rest)) (done @ rest) p' m'
    \<and> listening p' = listening p"
  using assms
proof (induction rest arbitrary: "done" p m)
  case (Cons s rest)
  obtain c t where s: "s = Some (c, t)" using Cons.prems(1) by auto
  let ?i = "length done"
  let ?pi = "\<lparr>p_key = ?i, p_cfd = int c, p_sfd = int t\<rparr>"
  let ?p = "p\<lparr>pipes := (pipes p)[?i := ?pi]\<rparr>"
  have "length (done @ s # rest) < 2 ^ 32" using Cons.prems(2) unfolding published_def freelist_ok_def by linarith
  then have w: "wrap32 ?i = ?i" by simp
  obtain m' where m': "pool_publish ?p ?pi m = (True, m')" "published (?i + 1) (done @ s # rest) ?p m'"
    using published_step [OF Cons.prems(2), of c t] s by auto
  have e: "makePipe s ((pipes p ! ?i)\<lparr>p_key := wrap32 ?i\<rparr>) = Some ?pi"
    using s w by (cases "pipes p ! ?i") (simp add: makePipe_def)
  have "published (length (done @ [s])) ((done @ [s]) @ rest) ?p m'" using m'(2) by simp
  from Cons.IH [OF _ this] Cons.prems(1) obtain p2 m2 where
    "initPipes (length (done @ [s])) rest ?p m' = (True, p2, m2)" "published (length ((done @ [s]) @ rest)) ((done @ [s]) @ rest) p2 m2"
    "listening p2 = listening ?p" by auto
  then show ?case using e m'(1) by (simp add: Let_def)
qed simp

section \<open>Properties\<close>

text \<open>
  When every pipe can be built, the maps are large enough and the listener is up, \<open>init\<close> succeeds and publishes each pipe: its
  socket and its record stand at its key, \<open>byKey\<close> finds it, and the free list holds every key exactly once, whatever a previous run left
  in the maps.
\<close>

theorem pool_ready:
  assumes "\<forall>s\<in>set socks. s \<noteq> None" "length socks \<le> length (dpipe_freelist m)" "length (dpipe_freelist m) < 2 ^ 32"
    "length socks \<le> length (dpipes m)" "length socks \<le> length (dpipe_map m)"
  shows "\<exists>p' m'. pool_init True socks p m = (True, p', m')
    \<and> free_keys m' = [0..<length socks] \<and> freeCount m' = length socks \<and> freelist_ok m'
    \<and> (\<forall>k<length socks. \<exists>c s. socks ! k = Some (c, s) \<and> dpipe_map m' ! k = Some s
        \<and> byKey p' k = Some \<lparr>p_key = k, p_cfd = int c, p_sfd = int s\<rparr>
        \<and> dpipes m' ! k = \<lparr>dp_key = k, dp_cfd = c, dp_sfd = s, dp_ts = 0, dp_stmt = None, dp_in_use = 0\<rparr>)"
proof -
  let ?n = "length socks"
  let ?p = "p\<lparr>listening := True, pipes := take ?n (pipes p @ replicate (?n - length (pipes p)) fresh_pipe)\<rparr>"
  let ?m = "m\<lparr>dpipes_meta_map := \<lparr>serial = 0, num_free = 0\<rparr>\<rparr>"
  have "published (length []) ([] @ socks) ?p ?m"
    using assms by (simp add: published_def free_keys_def freelist_ok_def)
  from initPipes_ok [OF assms(1) this] obtain p' m' where
    i: "initPipes 0 socks ?p ?m = (True, p', m')" "published ?n socks p' m'" by auto
  let ?m' = "m'\<lparr>dpipes_meta_map := \<lparr>serial = wrap32 ?n, num_free = wrap32 ?n\<rparr>\<rparr>"
  have w: "wrap32 ?n = ?n" using assms(2,3) by simp
  have "pool_init True socks p m = (True, p', ?m')" using i(1) by (simp add: pool_init_def Let_def)
  moreover have "free_keys ?m' = [0..<?n]" "freeCount ?m' = ?n" "freelist_ok ?m'"
    using i(2) w by (clarsimp simp: published_def free_keys_def freelist_ok_def freeCount_def)+
  moreover have "\<exists>c s. socks ! k = Some (c, s) \<and> dpipe_map ?m' ! k = Some s
        \<and> byKey p' k = Some \<lparr>p_key = k, p_cfd = int c, p_sfd = int s\<rparr>
        \<and> dpipes ?m' ! k = \<lparr>dp_key = k, dp_cfd = c, dp_sfd = s, dp_ts = 0, dp_stmt = None, dp_in_use = 0\<rparr>" if "k < ?n" for k
    using i(2) that by (auto simp: published_def byKey_def)
  ultimately show ?thesis by blast
qed

definition demo_maps :: maps where
  "demo_maps = \<lparr>stmts_map = [], max_stmts = 2, dpipe_map = [None, None], cpipe_map = [None, None], pipe_sk_info_map = [],
     dpipe_freelist = [9, 9], dpipes_meta_map = \<lparr>serial = 7, num_free = 2\<rparr>,
     dpipes = replicate 2 \<lparr>dp_key = 0, dp_cfd = 0, dp_sfd = 0, dp_ts = 0, dp_stmt = None, dp_in_use = 0\<rparr>, cfg = replicate BNCL_CFG_N 0\<rparr>"

theorem pool_ready_witness:
  "\<exists>p' m'. pool_init True [Some (3, 4), Some (5, 6)] empty_pool demo_maps = (True, p', m') \<and> free_keys m' = [0, 1]"
  using pool_ready [of "[Some (3, 4), Some (5, 6)]" demo_maps empty_pool] by (auto simp: demo_maps_def upt_rec)

text \<open>
  Releasing a key puts it on the free list if it is not there and the list is not full, and changes nothing otherwise: a key
  released twice is popped once. The list stays well-formed either way.
\<close>

theorem pool_release_once:
  assumes "freelist_ok m" "pipes p \<noteq> []" "length (pipes p) \<le> length (dpipe_freelist m)"
  shows "\<exists>m'. pool_release p key m = (True, m') \<and> freelist_ok m'
    \<and> free_keys m' = (if key \<in> set (free_keys m) \<or> length (pipes p) \<le> freeCount m then free_keys m else free_keys m @ [key])
    \<and> (key \<in> set (free_keys m') \<longrightarrow> pool_release p key m' = (True, m'))"
proof (cases "key \<in> set (free_keys m) \<or> length (pipes p) \<le> freeCount m")
  case True
  then have "pool_release p key m = (True, m)"
    using onFreelist_iff [OF assms(1), of key] assms(2) by (auto simp: pool_release_def Let_def freeCount_def)
  then show ?thesis using True assms(1) by auto
next
  case False
  then have n: "num_free (dpipes_meta_map m) < length (pipes p)" "num_free (dpipes_meta_map m) < length (dpipe_freelist m)"
    using assms(3) by (auto simp: freeCount_def)
  note ok = freelist_ok_pushed [OF assms(1) n(2), of key]
  have r: "pool_release p key m = (True, pushed key m)" by (rule release_pushes) (use False assms n in auto)
  have k: "free_keys (pushed key m) = free_keys m @ [key]" by (rule free_keys_pushed [OF n(2)])
  have "pool_release p key (pushed key m) = (True, pushed key m)"
    using onFreelist_iff [OF ok, of key] k False by (auto simp: pool_release_def Let_def)
  then show ?thesis using r k ok False by simp
qed

theorem pool_release_once_witness:
  "\<exists>m'. pool_release \<lparr>pipes = [fresh_pipe], listening = True\<rparr> 0 (demo_maps\<lparr>dpipes_meta_map := \<lparr>serial = 1, num_free = 0\<rparr>\<rparr>) = (True, m')
    \<and> free_keys m' = [0]"
  using pool_release_once [of "demo_maps\<lparr>dpipes_meta_map := \<lparr>serial = 1, num_free = 0\<rparr>\<rparr>" "\<lparr>pipes = [fresh_pipe], listening = True\<rparr>" 0]
  by (auto simp: demo_maps_def freelist_ok_def free_keys_def freeCount_def)

end
