(* ===== verification/HeapView.thy ===== *)
theory HeapView
  imports Retire
begin

text \<open>
  The arena as its owner sees it: a finite set of objects, each a byte string behind a pointer. An object appears when it is put,
  changes when it is written in place and disappears when it is retired, at which moment its block may still
  be handed out. The interface \<open>object_heap\<close> states the laws over blocks in use; the object view is derived from it once.
\<close>

definition in_use :: "arena \<Rightarrow> (nat \<rightharpoonup> nat) \<Rightarrow> bool" where
  "in_use a V \<longleftrightarrow> (\<exists>L rl. retiring a L rl \<and> V = without L (set rl))"

section \<open>The operations keep the view\<close>

lemma carve_retire_head: "retire_head (ctl (carve off want a)) = retire_head (ctl a)"
  by (simp add: carve_def Let_def unlink_ctl push_front_ctl)

lemma alloc_retire_head: "alloc n a = Some (r, a') \<Longrightarrow> retire_head (ctl a') = retire_head (ctl a)"
  by (auto simp: alloc_def Let_def carve_retire_head split: if_splits option.splits)

lemma intact_mono: "intact L m m' \<Longrightarrow> (\<And>p k. V p = Some k \<Longrightarrow> L p = Some k) \<Longrightarrow> intact V m m'"
  unfolding intact_def by blast

lemma holds_bounds:
  assumes "holds a L" "L p = Some k"
  shows "80 \<le> p \<and> p < 2 ^ 32"
proof -
  obtain B fl where "heap_inv a B fl" "L = live B fl" using assms(1) by (auto simp: holds_def)
  from live_bounds(1,4,5) [OF this(1)] assms(2) this(2) show ?thesis by fastforce
qed

lemma without_Some: "without L X p = Some k \<Longrightarrow> L p = Some k"
  by (simp add: without_def split: if_splits)

lemma without_Some_upd: "\<not> (16 \<le> p \<and> p - 16 \<in> X) \<Longrightarrow> (without L X)(p \<mapsto> k) = without (L(p \<mapsto> k)) X"
  by (rule ext) (simp add: without_def)

lemma without_None_upd: "(without L X)(p := None) = without (L(p := None)) X"
  by (rule ext) (simp add: without_def)

lemma tracked_upd: "tracked_in L x \<Longrightarrow> x \<noteq> p - 16 \<Longrightarrow> tracked_in (L(p := None)) x"
  by (auto simp: tracked_in_def)

lemma tracked_new: "tracked_in L x \<Longrightarrow> L p = None \<Longrightarrow> tracked_in (L(p \<mapsto> k)) x"
  by (auto simp: tracked_in_def)

lemma retired_live: "\<forall>x\<in>set rl. tracked_in L x \<Longrightarrow> L p = None \<Longrightarrow> \<not> (16 \<le> p \<and> p - 16 \<in> set rl)"
  by (fastforce simp: tracked_in_def)

lemma use_alloc:
  assumes "in_use a V" "0 < n" "n \<le> alloc_limit"
  shows "alloc n a = Some (None, a) \<or>
    (\<exists>p k a'. alloc n a = Some (Some p, a') \<and> in_use a' (V(p \<mapsto> k)) \<and> V p = None \<and> n \<le> k \<and> intact V (mem a) (mem a'))"
proof -
  obtain L rl where r: "retiring a L rl" and V: "V = without L (set rl)" using assms(1) unfolding in_use_def by blast
  have h: "holds a L" and rl: "\<forall>x\<in>set rl. tracked_in L x" using r by (auto simp: retiring_def)
  have "n + 34 < 2 ^ 64" using assms(3) by (simp add: alloc_limit_def)
  from alloc_holds [OF h assms(2) this] show ?thesis
  proof (elim disjE exE conjE)
    fix p k a' assume al: "alloc n a = Some (Some p, a')" and h': "holds a' (L(p \<mapsto> k))" and p: "L p = None"
      and k: "n \<le> k" and i: "intact L (mem a) (mem a')"
    have tr: "\<forall>x\<in>set rl. tracked_in (L(p \<mapsto> k)) x" using rl p tracked_new by blast
    have "retiring a' (L(p \<mapsto> k)) rl"
      using r h' tr intact_rseg [OF i rl] alloc_retire_head [OF al] by (simp add: retiring_def)
    moreover have "V(p \<mapsto> k) = without (L(p \<mapsto> k)) (set rl)"
      unfolding V by (rule without_Some_upd [OF retired_live [OF rl p]])
    moreover have "V p = None" using p by (simp add: V without_def)
    moreover have "intact V (mem a) (mem a')" unfolding V by (rule intact_without [OF i])
    ultimately show ?thesis using al k unfolding in_use_def by blast
  qed simp
qed

lemma use_retire:
  assumes "in_use a V" "V p = Some k" "now < 2 ^ 64"
  shows "in_use (retire (Some p) now a) (V(p := None)) \<and> intact (V(p := None)) (mem a) (mem (retire (Some p) now a))"
proof -
  obtain L rl where r: "retiring a L rl" and V: "V = without L (set rl)" using assms(1) unfolding in_use_def by blast
  have h: "holds a L" and rl: "\<forall>x\<in>set rl. tracked_in L x" using r by (auto simp: retiring_def)
  have p: "L p = Some k" using assms(2) without_Some unfolding V by metis
  have p16: "16 \<le> p" using holds_bounds [OF h p] by simp
  then have np: "p - 16 \<notin> set rl" using assms(2) by (auto simp: V without_def split: if_splits)
  show ?thesis
  proof (cases "k < 16")
    case True
    let ?a = "retire (Some p) now a"
    have e: "?a = free (Some p) a" by (rule retire_small [OF h p True])
    have f: "holds ?a (L(p := None))" "intact (L(p := None)) (mem a) (mem ?a)" using free_holds [OF h p] e by simp_all
    have tr: "\<forall>x\<in>set rl. tracked_in (L(p := None)) x" using rl np tracked_upd by metis
    have "retiring ?a (L(p := None)) rl"
      using r f(1) tr intact_rseg [OF f(2) tr] free_retire_head [of "Some p" a] e by (simp add: retiring_def)
    moreover have "V(p := None) = without (L(p := None)) (set rl)" unfolding V by (rule without_None_upd)
    moreover have "intact (V(p := None)) (mem a) (mem ?a)"
      unfolding calculation(2) by (rule intact_without [OF f(2)])
    ultimately show ?thesis unfolding in_use_def by blast
  next
    case False
    let ?x = "p - 16"
    have x: "tracked_in L ?x" "Some p = Some (?x + 16)" using p False p16 by (auto simp: tracked_in_def)
    note R = retire_retiring [OF r x(1) np assms(3)]
    have e: "V(p := None) = without L (set (?x # rl))" "V(p := None) = without (L(?x + 16 := None)) (set rl)"
      using p16 by (simp_all add: V without_insert without_None_upd)
    have "intact (V(p := None)) (mem a) (mem (retire (Some (?x + 16)) now a))"
      unfolding e(2) by (rule intact_without [OF R(3)])
    then show ?thesis using R(1) e(1) unfolding x(2) in_use_def by blast
  qed
qed

lemma use_reclaim:
  assumes "in_use a V"
  shows "\<exists>a'. reclaim now a = Some a' \<and> in_use a' V \<and> intact V (mem a) (mem a')"
proof -
  obtain L rl where r: "retiring a L rl" and V: "V = without L (set rl)" using assms(1) unfolding in_use_def by blast
  let ?due = "\<lambda>x. due now (ret_at (mem a) x)"
  obtain a' where a': "reclaim now a = Some a'" "retiring a' (without L {x \<in> set rl. ?due x}) (rev (filter (\<lambda>x. \<not> ?due x) rl))"
    "intact (without L (set rl)) (mem a) (mem a')" using reclaim_ok [OF r] by blast
  have "V = without (without L {x \<in> set rl. ?due x}) (set (rev (filter (\<lambda>x. \<not> ?due x) rl)))"
    by (rule ext) (auto simp: V without_def)
  then show ?thesis using a' unfolding in_use_def V by blast
qed

lemma use_write:
  assumes "in_use a V" "V p = Some k" "\<And>y. \<not> (p \<le> y \<and> y < p + k) \<Longrightarrow> m y = mem a y"
  shows "in_use (a\<lparr>mem := m\<rparr>) V"
proof -
  obtain L rl where r: "retiring a L rl" and V: "V = without L (set rl)" using assms(1) unfolding in_use_def by blast
  have h: "holds a L" and rl: "\<forall>x\<in>set rl. tracked_in L x" using r by (auto simp: retiring_def)
  have p: "L p = Some k" using assms(2) without_Some unfolding V by metis
  have "p - 16 \<notin> set rl" using holds_bounds [OF h p] assms(2) by (auto simp: V without_def split: if_splits)
  then have tr: "\<forall>x\<in>set rl. tracked_in (L(p := None)) x" using rl tracked_upd by metis
  have "intact (L(p := None)) (mem a) m"
    unfolding intact_def
  proof (intro allI impI assms(3))
    fix q j y assume q: "(L(p := None)) q = Some j" "q \<le> y" "y < q + j"
    then have "L q = Some j" "q \<noteq> p" by (auto split: if_splits)
    from holds_sep [OF h this(1) p this(2)] q show "\<not> (p \<le> y \<and> y < p + k)" by auto
  qed
  from intact_rseg [OF this tr] have "retiring (a\<lparr>mem := m\<rparr>) L rl"
    using r holds_write [OF h p assms(3)] by (simp add: retiring_def)
  then show ?thesis using V unfolding in_use_def by blast
qed

lemma use_sep: "in_use a V \<Longrightarrow> V p = Some k \<Longrightarrow> V q = Some j \<Longrightarrow> p \<noteq> q \<Longrightarrow> p + k \<le> q \<or> q + j \<le> p"
  unfolding in_use_def retiring_def using holds_sep without_Some by metis

lemma use_bounds: "in_use a V \<Longrightarrow> V p = Some k \<Longrightarrow> 0 < p \<and> p < 2 ^ 32"
  unfolding in_use_def retiring_def using holds_bounds without_Some by fastforce


section \<open>The object interface\<close>

locale object_heap =
  fixes ok :: "'a \<Rightarrow> (nat \<rightharpoonup> nat) \<Rightarrow> bool"
    and memory :: "'a \<Rightarrow> mem"
    and store :: "'a \<Rightarrow> mem \<Rightarrow> 'a"
    and get :: "nat \<Rightarrow> 'a \<Rightarrow> (nat option \<times> 'a) option"
    and discard :: "nat \<Rightarrow> nat \<Rightarrow> 'a \<Rightarrow> 'a"
    and tick :: "nat \<Rightarrow> 'a \<Rightarrow> 'a option"
    and limit :: nat
  assumes get_law: "ok a V \<Longrightarrow> 0 < n \<Longrightarrow> n \<le> limit \<Longrightarrow> get n a = Some (None, a) \<or>
      (\<exists>p k a'. get n a = Some (Some p, a') \<and> ok a' (V(p \<mapsto> k)) \<and> V p = None \<and> n \<le> k \<and> intact V (memory a) (memory a'))"
    and discard_law: "ok a V \<Longrightarrow> V p = Some k \<Longrightarrow> now < 2 ^ 64 \<Longrightarrow>
      ok (discard p now a) (V(p := None)) \<and> intact (V(p := None)) (memory a) (memory (discard p now a))"
    and tick_law: "ok a V \<Longrightarrow> \<exists>a'. tick now a = Some a' \<and> ok a' V \<and> intact V (memory a) (memory a')"
    and store_law: "ok a V \<Longrightarrow> V p = Some k \<Longrightarrow> (\<And>y. \<not> (p \<le> y \<and> y < p + k) \<Longrightarrow> m y = memory a y) \<Longrightarrow> ok (store a m) V"
    and memory_store_law: "memory (store a m) = m"
    and separate_law: "ok a V \<Longrightarrow> V p = Some k \<Longrightarrow> V q = Some j \<Longrightarrow> p \<noteq> q \<Longrightarrow> p + k \<le> q \<or> q + j \<le> p"
    and bound_law: "ok a V \<Longrightarrow> V p = Some k \<Longrightarrow> 0 < p \<and> p < 2 ^ 32"
begin

definition objects :: "'a \<Rightarrow> (nat \<rightharpoonup> bytes) \<Rightarrow> bool" where
  "objects a C \<longleftrightarrow> (\<exists>V. ok a V \<and> (\<forall>p bs. C p = Some bs \<longrightarrow>
     (\<exists>k. V p = Some k \<and> length bs \<le> k) \<and> readBytes (memory a) p (length bs) = bs))"

lemma objects_read: "objects a C \<Longrightarrow> C p = Some bs \<Longrightarrow> readBytes (memory a) p (length bs) = bs"
  by (auto simp: objects_def)

lemma objects_bound: "objects a C \<Longrightarrow> C p = Some bs \<Longrightarrow> 0 < p \<and> p < 2 ^ 32"
  unfolding objects_def using bound_law by blast

lemma objects_fewer: "objects a C \<Longrightarrow> (\<And>p bs. C' p = Some bs \<Longrightarrow> C p = Some bs) \<Longrightarrow> objects a C'"
  unfolding objects_def by blast

lemma objects_intact:
  assumes "intact V m m'" "\<forall>p bs. C p = Some bs \<longrightarrow> (\<exists>k. V p = Some k \<and> length bs \<le> k) \<and> readBytes m p (length bs) = bs"
  shows "\<forall>p bs. C p = Some bs \<longrightarrow> (\<exists>k. V p = Some k \<and> length bs \<le> k) \<and> readBytes m' p (length bs) = bs"
  using assms arena.readBytes_intact by fastforce

lemma objects_tick:
  assumes "objects a C"
  shows "\<exists>a'. tick now a = Some a' \<and> objects a' C"
proof -
  obtain V where V: "ok a V" "\<forall>p bs. C p = Some bs \<longrightarrow> (\<exists>k. V p = Some k \<and> length bs \<le> k) \<and> readBytes (memory a) p (length bs) = bs"
    using assms unfolding objects_def by blast
  obtain a' where a': "tick now a = Some a'" "ok a' V" "intact V (memory a) (memory a')" using tick_law [OF V(1)] by blast
  then show ?thesis using objects_intact [OF a'(3) V(2)] unfolding objects_def by blast
qed

lemma objects_write:
  assumes "objects a C" "C p = Some bs" "length cs = length bs"
  shows "objects (store a (writeBytes (memory a) p cs)) (C(p \<mapsto> cs))"
proof -
  obtain V where V: "ok a V" "\<And>p bs. C p = Some bs \<Longrightarrow> (\<exists>k. V p = Some k \<and> length bs \<le> k) \<and> readBytes (memory a) p (length bs) = bs"
    using assms(1) by (auto simp: objects_def)
  obtain k where k: "V p = Some k" "length cs \<le> k" using V(2) [OF assms(2)] assms(3) by auto
  let ?m = "writeBytes (memory a) p cs"
  have "ok (store a ?m) V" by (rule store_law [OF V(1) k(1)], rule writeBytes_other) (use k(2) in auto)
  moreover have "readBytes ?m q (length ds) = ds \<and> (\<exists>k. V q = Some k \<and> length ds \<le> k)" if q: "(C(p \<mapsto> cs)) q = Some ds" for q ds
  proof (cases "q = p")
    case True
    then show ?thesis using q k by (simp add: mem_simps)
  next
    case False
    then have "C q = Some ds" using q by simp
    from V(2) [OF this] obtain j where j: "V q = Some j" "length ds \<le> j" "readBytes (memory a) q (length ds) = ds" by auto
    have "readBytes ?m q (length ds) = readBytes (memory a) q (length ds)"
      using separate_law [OF V(1) k(1) j(1)] False k(2) j(2) by (intro readBytes_cong writeBytes_other) auto
    then show ?thesis using j by simp
  qed
  ultimately show ?thesis unfolding objects_def memory_store_law by blast
qed

lemma objects_get:
  assumes "objects a C" "0 < n" "n \<le> limit"
  shows "get n a = Some (None, a) \<or>
    (\<exists>p a'. get n a = Some (Some p, a') \<and> C p = None \<and> objects a' (C(p \<mapsto> readBytes (memory a') p n)))"
proof -
  obtain V where V: "ok a V" "\<forall>p bs. C p = Some bs \<longrightarrow> (\<exists>k. V p = Some k \<and> length bs \<le> k) \<and> readBytes (memory a) p (length bs) = bs"
    using assms(1) by (auto simp: objects_def)
  from get_law [OF V(1) assms(2,3)] show ?thesis
  proof (elim disjE exE conjE)
    fix p k a' assume g: "get n a = Some (Some p, a')" "ok a' (V(p \<mapsto> k))" "V p = None" "n \<le> k" "intact V (memory a) (memory a')"
    note O = objects_intact [OF g(5) V(2)]
    have "C p = None" using V(2) g(3) by (cases "C p") (simp, metis option.distinct(1))
    moreover have "length (readBytes (memory a') p n) = n" by (simp add: readBytes_def)
    ultimately have "objects a' (C(p \<mapsto> readBytes (memory a') p n))"
      unfolding objects_def using O g(2-4) by (intro exI [of _ "V(p \<mapsto> k)"]) auto
    then show ?thesis using g(1) \<open>C p = None\<close> by blast
  qed simp
qed

lemma objects_discard:
  assumes "objects a C" "C p = Some bs" "now < 2 ^ 64"
  shows "objects (discard p now a) (C(p := None))"
proof -
  obtain V where V: "ok a V" "\<forall>p bs. C p = Some bs \<longrightarrow> (\<exists>k. V p = Some k \<and> length bs \<le> k) \<and> readBytes (memory a) p (length bs) = bs"
    using assms(1) by (auto simp: objects_def)
  obtain k where k: "V p = Some k" using V(2) assms(2) by blast
  note D = discard_law [OF V(1) k assms(3)]
  have "\<forall>q bs. (C(p := None)) q = Some bs \<longrightarrow> (\<exists>k. (V(p := None)) q = Some k \<and> length bs \<le> k) \<and> readBytes (memory a) q (length bs) = bs"
    using V(2) by auto
  from objects_intact [OF conjunct2 [OF D] this] show ?thesis unfolding objects_def using D by blast
qed

end

interpretation heap: object_heap in_use mem "\<lambda>a m. a\<lparr>mem := m\<rparr>" alloc "\<lambda>p. retire (Some p)" reclaim alloc_limit
  by unfold_locales (use use_alloc use_retire use_reclaim use_write use_sep use_bounds in auto)

section \<open>Putting a byte string\<close>

lemma heap_put:
  assumes "heap.objects a C" "src \<noteq> []" "length src \<le> alloc_limit"
  shows "put src a = Some (None, a) \<or> (\<exists>p a'. put src a = Some (Some p, a') \<and> C p = None \<and> heap.objects a' (C(p \<mapsto> src)))"
proof -
  from heap.objects_get [OF assms(1) _ assms(3)] assms(2) consider "alloc (length src) a = Some (None, a)"
    | p a1 where "alloc (length src) a = Some (Some p, a1)" "C p = None" "heap.objects a1 (C(p \<mapsto> readBytes (mem a1) p (length src)))"
    by auto
  then show ?thesis
  proof cases
    case 2
    from heap.objects_write [OF 2(3), of p "readBytes (mem a1) p (length src)" src]
    have "heap.objects (a1\<lparr>mem := writeBytes (mem a1) p src\<rparr>) (C(p \<mapsto> src))"
      by (simp add: readBytes_def)
    then show ?thesis using 2 by (simp add: put_def)
  qed (simp add: put_def)
qed

text \<open>A fresh arena holds no objects.\<close>

lemma heap_init:
  assumes "88 < len" "len < 2 ^ 32" "8 dvd len"
  shows "\<exists>a'. arena_init (Some m) len a = (True, a') \<and> heap.objects a' Map.empty"
proof -
  obtain a' where a': "arena_init (Some m) len a = (True, a')" "holds a' Map.empty" using init_holds [OF assms] by blast
  then have "retire_head (ctl a') = 0" by (auto simp: arena_init_def Let_def split: if_splits)
  then have "retiring a' Map.empty []" using a'(2) by (simp add: retiring_def)
  then have "in_use a' Map.empty" unfolding in_use_def by force
  then show ?thesis using a'(1) by (auto simp: heap.objects_def)
qed


section \<open>Room for objects\<close>

text \<open>A heap whose free space is one block of \<open>n\<close> bytes: it serves every request that fits.\<close>

definition roomy :: "arena \<Rightarrow> (nat \<rightharpoonup> bytes) \<Rightarrow> nat \<Rightarrow> bool" where
  "roomy a C n \<longleftrightarrow> heap.objects a C \<and> (\<exists>B x. heap_inv a B [x] \<and> B x = Some n)"

lemma roomy_put:
  assumes r: "roomy a C n" and src: "src \<noteq> []" "block_for (length src) + 24 \<le> n" "length src < 2 ^ 32"
  shows "\<exists>p a'. put src a = Some (Some p, a') \<and> C p = None \<and> roomy a' (C(p \<mapsto> src)) (n - block_for (length src))"
proof -
  obtain B x where h: "heap.objects a C" "heap_inv a B [x]" "B x = Some n" using r by (auto simp: roomy_def)
  let ?w = "block_for (length src)"
  have lim: "length src \<le> alloc_limit" "length src + 34 < 2 ^ 64" using src(3) by (simp_all add: alloc_limit_def)
  note W = block_for_spec [OF _ lim(2)]
  from alloc_cases [OF h(2), of "length src"] src h(3) have al: "alloc (length src) a = Some (Some (x + 16), carve x ?w a)" by auto
  let ?a = "(carve x ?w a)\<lparr>mem := writeBytes (mem (carve x ?w a)) (x + 16) src\<rparr>"
  have p: "put src a = Some (Some (x + 16), ?a)" by (simp add: put_def al)
  from heap_put [OF h(1) src(1) lim(1)] p have o: "C (x + 16) = None" "heap.objects ?a (C(x + 16 \<mapsto> src))" by auto
  have r24: "24 \<le> n - ?w" using src(2) by simp
  have s: "heap_inv (carve x ?w a) (B(x \<mapsto> ?w, x + ?w \<mapsto> n - ?w)) [x + ?w]"
    using carve_split(1) [of a B "[]" x "[]" n ?w] h(2,3) W src(1) r24 by simp
  have lv: "live (B(x \<mapsto> ?w, x + ?w \<mapsto> n - ?w)) [x + ?w] (x + 16) = Some (?w - 20)"
    using W src(1) by (simp add: live_def)
  have "heap_inv ?a (B(x \<mapsto> ?w, x + ?w \<mapsto> n - ?w)) [x + ?w]"
    by (rule heap_write [OF s lv], rule writeBytes_other) (use W(3) src(1) in auto)
  then have "roomy ?a (C(x + 16 \<mapsto> src)) (n - ?w)" using o(2) unfolding roomy_def by (metis fun_upd_same)
  then show ?thesis using p o(1) by blast
qed

lemma roomy_init:
  assumes "88 < len" "len < 2 ^ 32" "8 dvd len"
  shows "\<exists>a'. arena_init (Some m) len a = (True, a') \<and> roomy a' Map.empty (len - 64)"
proof -
  obtain a' where a': "arena_init (Some m) len a = (True, a')" "heap.objects a' Map.empty" using heap_init [OF assms] by blast
  from init_inv [OF assms, of m a] a'(1) have "heap_inv a' [64 \<mapsto> len - 64] [64]" by auto
  then show ?thesis using a' unfolding roomy_def by (metis fun_upd_same)
qed

end
