(* ===== verification/Shared.thy ===== *)
theory Shared
  imports Pool HeapView
begin

text \<open>
  The client's side of the shared state, \<open>src/src/uclient/shared.{h,cpp}\<close>: finding a statement, reading its payload out of the arena,
  taking a pipe for a connection and giving it back. \<open>mapped\<close> says that the arena is mapped in this process, \<open>cfg_pin\<close> that the configuration
  map could be opened. Every definition is one uninterrupted run; the interleavings of several clients are in \<open>PipeLock\<close>.
\<close>

section \<open>Model\<close>

record shared =
  sh_arena :: arena
  sh_maps :: maps
  mapped :: bool
  cfg_pin :: bool

record switches =
  client_on :: nat
  generation :: nat
  sw_local_on :: nat

definition set_mem :: "mem \<Rightarrow> shared \<Rightarrow> shared" where
  "set_mem m s = s\<lparr>sh_arena := (sh_arena s)\<lparr>mem := m\<rparr>\<rparr>"

definition set_lock :: "nat \<Rightarrow> shared \<Rightarrow> shared" where
  "set_lock v s = s\<lparr>sh_arena := (sh_arena s)\<lparr>ctl := (ctl (sh_arena s))\<lparr>lock := v\<rparr>\<rparr>\<rparr>"

definition post :: "(bytes \<Rightarrow> int) \<Rightarrow> bytes \<Rightarrow> bool" where
  "post send buf \<longleftrightarrow> send buf = int (length buf)"

subsection \<open>The lock\<close>

definition LOCK_TRIES :: nat where "LOCK_TRIES = 4096"

fun lockLoop :: "nat \<Rightarrow> nat \<Rightarrow> shared \<Rightarrow> bool \<times> shared" where
  "lockLoop 0 now s = (False, s)"
| "lockLoop (Suc i) now s =
     (if lock (ctl (sh_arena s)) = 0
      then (True, s\<lparr>sh_arena := (sh_arena s)\<lparr>ctl := (ctl (sh_arena s))\<lparr>lock := 1, taken_ns := now\<rparr>\<rparr>\<rparr>)
      else lockLoop i now s)"

definition lockPipes :: "nat \<Rightarrow> shared \<Rightarrow> bool \<times> shared" where
  "lockPipes now s = (if \<not> mapped s then (False, s) else lockLoop LOCK_TRIES now s)"

definition unlockPipes :: "shared \<Rightarrow> shared" where
  "unlockPipes s = set_lock 0 s"

subsection \<open>The free list\<close>

definition popDpipe :: "maps \<Rightarrow> nat option \<times> maps" where
  "popDpipe m =
     (let meta = dpipes_meta_map m in
      if num_free meta = 0 then (None, m)
      else let slot = num_free meta - 1 in
        case array_lookup (dpipe_freelist m) slot of
          None \<Rightarrow> (None, m)
        | Some key \<Rightarrow> (Some key, m\<lparr>dpipes_meta_map := meta\<lparr>num_free := slot\<rparr>\<rparr>))"

definition pushDpipe :: "nat \<Rightarrow> maps \<Rightarrow> maps" where
  "pushDpipe key m =
     (let meta = dpipes_meta_map m; slot = num_free meta in
      case array_update (dpipe_freelist m) slot key of
        None \<Rightarrow> m
      | Some fl \<Rightarrow> m\<lparr>dpipe_freelist := fl, dpipes_meta_map := meta\<lparr>num_free := wrap32 (slot + 1)\<rparr>\<rparr>)"

subsection \<open>The operations of the agent\<close>

text \<open>
  What there is under the pin directory: the arena, whether it maps at its fixed address, and the maps by name. A map that is not there reads as one in which every lookup and every
  update fails, and so does a descriptor that was closed; the free list and its length are only ever used together. The first thing \<open>openShared\<close> does is to close those of an earlier attach. The kernel's answer for the socket storage is an
  input of \<open>acquire\<close>.
\<close>

record pins =
  pin_arena :: "arena option"
  pin_fixed :: bool
  pin_there :: "string \<Rightarrow> bool"
  pin_maps :: maps

definition reachable_maps :: "pins \<Rightarrow> maps" where
  "reachable_maps q =
     (let m = pin_maps q
      in m\<lparr>stmts_map := if pin_there q ''stmts_map'' then stmts_map m else [],
           dpipes := if pin_there q ''dpipes'' then dpipes m else [],
           dpipe_freelist := if pin_there q ''dpipe_freelist'' \<and> pin_there q ''dpipes_meta_map'' then dpipe_freelist m else [],
           cpipe_map := if pin_there q ''cpipe_map'' then cpipe_map m else []\<rparr>)"

definition openShared :: "pins \<Rightarrow> shared \<Rightarrow> bool \<times> shared" where
  "openShared q s =
     (let s = s\<lparr>sh_maps := no_maps, cfg_pin := False\<rparr> in
      case pin_arena q of
        None \<Rightarrow> (False, s)
      | Some a \<Rightarrow>
          if \<not> pin_fixed q then (False, s)
          else (list_all (pin_there q) [''stmts_map'', ''dpipes'', ''dpipe_freelist'', ''dpipes_meta_map'', ''cpipe_map'', ''pipe_sk_info_map''],
                s\<lparr>sh_arena := a, mapped := True, sh_maps := reachable_maps q, cfg_pin := pin_there q ''cfg''\<rparr>))"

definition daemonAlive :: "pins \<Rightarrow> bool" where
  "daemonAlive q \<longleftrightarrow> pin_there q ''cfg''"

definition cfgRead :: "shared \<Rightarrow> switches option" where
  "cfgRead s =
     (if \<not> cfg_pin s then None
      else case (array_lookup (cfg (sh_maps s)) BNCL_CFG_CLIENT_ON, array_lookup (cfg (sh_maps s)) BNCL_CFG_GENERATION,
                 array_lookup (cfg (sh_maps s)) BNCL_CFG_LOCAL_ON) of
        (Some a, Some b, Some c) \<Rightarrow> Some \<lparr>client_on = a, generation = b, sw_local_on = c\<rparr>
      | _ \<Rightarrow> None)"

text \<open>The statement's record, as both \<open>lookupPayload\<close> and \<open>acquire\<close> find it.\<close>

definition findStmt :: "bytes \<Rightarrow> shared \<Rightarrow> nat option" where
  "findStmt sql s =
     (if \<not> mapped s \<or> length sql > BNCL_STMT_MAX - 1 then None
      else case map_of (stmts_map (sh_maps s)) (stmt_key sql) of
        None \<Rightarrow> None
      | Some ref \<Rightarrow> if ref = 0 then None else Some ref)"

text \<open>The age check of the client, in whole seconds.\<close>

definition clientExpired :: "stmt \<Rightarrow> nat \<Rightarrow> bool" where
  "clientExpired st now \<longleftrightarrow> stmt_ttl st \<noteq> 0 \<and> stmt_ts st \<noteq> 0 \<and> now > stmt_ts st
     \<and> (now - stmt_ts st) div NS_PER_S > stmt_ttl st"

definition lookupPayload :: "bytes \<Rightarrow> nat \<Rightarrow> shared \<Rightarrow> (bytes \<times> nat) option \<times> shared" where
  "lookupPayload sql now s =
     (case findStmt sql s of
        None \<Rightarrow> (None, s)
      | Some p \<Rightarrow>
          let (got, m) = bncl_stmt_get p (mem (sh_arena s)) in
          if \<not> got then (None, s)
          else let st = read_stmt m p in
            if stmt_state st \<noteq> STMT_S_LOCAL \<or> stmt_data st = None \<or> stmt_data_len st = 0
            then (None, set_mem (snd (bncl_stmt_put p m)) s)
            else if clientExpired st now
            then (None, set_mem (snd (bncl_stmt_put p m)) s)
            else (Some (readBytes m (the (stmt_data st)) (stmt_data_len st), stmt_id st), set_mem (snd (bncl_stmt_put p m)) s))"

text \<open>Putting a popped key back and letting go of the lock, on the failure paths of \<open>acquire\<close>.\<close>

definition giveBack :: "nat \<Rightarrow> shared \<Rightarrow> shared" where
  "giveBack key s = unlockPipes (s\<lparr>sh_maps := pushDpipe key (sh_maps s)\<rparr>)"

text \<open>The section under the lock: pop a key and point its pipe at the statement, or give everything back.\<close>

definition claimPipe :: "nat \<Rightarrow> shared \<Rightarrow> nat option \<times> shared" where
  "claimPipe ref s =
     (case popDpipe (sh_maps s) of
        (None, m) \<Rightarrow> (None, unlockPipes (s\<lparr>sh_maps := m\<rparr>))
      | (Some key, m) \<Rightarrow>
          let s = s\<lparr>sh_maps := m\<rparr> in
          case array_lookup (dpipes m) key of
            None \<Rightarrow> (None, giveBack key s)
          | Some rec \<Rightarrow>
              let (got, memory) = bncl_stmt_get ref (mem (sh_arena s)) in
              if \<not> got then (None, giveBack key s)
              else let s = set_mem memory s;
                       ds = (dpipes (sh_maps s))[key := rec\<lparr>dp_stmt := Some ref, dp_in_use := 1\<rparr>]
                   in (Some key, unlockPipes (s\<lparr>sh_maps := (sh_maps s)\<lparr>dpipes := ds\<rparr>\<rparr>)))"

text \<open>What \<open>acquire\<close> does when the socket cannot be hijacked.\<close>

definition abandon :: "nat \<Rightarrow> nat \<Rightarrow> shared \<Rightarrow> shared" where
  "abandon now key s = (let (locked, s) = lockPipes now s in if locked then giveBack key s else s)"

text \<open>
  \<open>sockmap_ok\<close> and \<open>storage_ok\<close> say whether the kernel accepts the socket into the socket map and its storage; \<open>now\<close> and
  \<open>now'\<close> are the clock at the two locks.
\<close>

definition acquire :: "bool \<Rightarrow> bool \<Rightarrow> nat \<Rightarrow> nat \<Rightarrow> bytes \<Rightarrow> nat \<Rightarrow> shared \<Rightarrow> nat option \<times> shared" where
  "acquire sockmap_ok storage_ok now now' sql sock s =
     (case findStmt sql s of
        None \<Rightarrow> (None, s)
      | Some ref \<Rightarrow>
          let (locked, s) = lockPipes now s in
          if \<not> locked then (None, s)
          else case claimPipe ref s of
            (None, s) \<Rightarrow> (None, s)
          | (Some key, s) \<Rightarrow>
              (case (if sockmap_ok then array_update (cpipe_map (sh_maps s)) key (Some sock) else None) of
                 None \<Rightarrow> (None, abandon now' key s)
               | Some cm \<Rightarrow>
                   let s = s\<lparr>sh_maps := (sh_maps s)\<lparr>cpipe_map := cm\<rparr>\<rparr>;
                       info = AList.update sock \<lparr>si_key = key, si_paired = 1\<rparr> (pipe_sk_info_map (sh_maps s))
                   in if storage_ok then (Some key, s\<lparr>sh_maps := (sh_maps s)\<lparr>pipe_sk_info_map := info\<rparr>\<rparr>)
                      else (None, abandon now' key s)))"

definition askLookup :: "(bytes \<Rightarrow> int) \<Rightarrow> bool" where
  "askLookup send = post send (bncl_req BNCL_REQ_LOOKUP 0)"

definition askStore :: "(bytes \<Rightarrow> int) \<Rightarrow> bytes \<Rightarrow> bool" where
  "askStore send canonical =
     (if canonical = [] \<or> length canonical > BNCL_STORE_MAX then False
      else post send (bncl_req BNCL_REQ_STORE (length canonical) @ canonical))"

definition release :: "nat \<Rightarrow> nat \<Rightarrow> nat \<Rightarrow> shared \<Rightarrow> shared" where
  "release now sock key s =
     (let s = s\<lparr>sh_maps := (sh_maps s)\<lparr>pipe_sk_info_map :=
                 AList.update sock \<lparr>si_key = 0, si_paired = 0\<rparr> (pipe_sk_info_map (sh_maps s)),
               cpipe_map := (cpipe_map (sh_maps s))[key := None]\<rparr>\<rparr>;
          s = (case array_lookup (dpipes (sh_maps s)) key of
                 Some rec \<Rightarrow> (case dp_stmt rec of
                                None \<Rightarrow> s
                              | Some p \<Rightarrow> set_mem (snd (bncl_stmt_put p (mem (sh_arena s)))) s)
               | None \<Rightarrow> s);
          (locked, s) = lockPipes now s
      in if locked then unlockPipes (s\<lparr>sh_maps := pushDpipe key (sh_maps s)\<rparr>) else s)"


section \<open>Records in the arena\<close>

text \<open>The object behind \<open>p\<close> is the record \<open>st\<close>.\<close>

definition record_at :: "(nat \<rightharpoonup> bytes) \<Rightarrow> nat \<Rightarrow> stmt \<Rightarrow> bool" where
  "record_at C p st \<longleftrightarrow> C p = Some (enc_stmt st) \<and> stmt_fits st"

lemma record_bytes: "heap.objects a C \<Longrightarrow> record_at C p st \<Longrightarrow> readBytes (mem a) p STMT_BYTES = enc_stmt st"
  using heap.objects_read [of a C p "enc_stmt st"] by (simp add: record_at_def)

lemma read_record: "heap.objects a C \<Longrightarrow> record_at C p st \<Longrightarrow> read_stmt (mem a) p = st"
  using record_bytes [of a C p st] by (simp add: read_stmt_def dec_enc_stmt record_at_def)

lemma record_fits: "record_at C p st \<Longrightarrow> stmt_fits st"
  by (simp add: record_at_def)

lemma fits_refs: "stmt_fits st \<Longrightarrow> n < 2 ^ 32 \<Longrightarrow> stmt_fits (st\<lparr>stmt_refs := n\<rparr>)"
  by (simp add: stmt_fits_def)

lemma write_record:
  assumes "heap.objects a C" "record_at C p st" "stmt_fits st'"
  shows "heap.objects (a\<lparr>mem := write_stmt (mem a) p st'\<rparr>) (C(p \<mapsto> enc_stmt st'))" "record_at (C(p \<mapsto> enc_stmt st')) p st'"
  using heap.objects_write [OF assms(1), of p "enc_stmt st" "enc_stmt st'"] assms(2,3)
  by (simp_all add: write_stmt_def record_at_def)

lemma writeBytes_twice: "length xs = length ys \<Longrightarrow> writeBytes (writeBytes m a xs) a ys = writeBytes m a ys"
proof (rule ext)
  fix y assume l: "length xs = length ys"
  show "writeBytes (writeBytes m a xs) a ys y = writeBytes m a ys y"
  proof (cases "a \<le> y \<and> y < a + length ys")
    case True
    then have "y = a + (y - a)" "y - a < length ys" by auto
    then show ?thesis using writeBytes_in by metis
  next
    case False
    then show ?thesis using l by (simp add: writeBytes_other not_le not_less)
  qed
qed

lemma writeBytes_same: "writeBytes m a (readBytes m a n) = m"
proof (rule ext)
  fix y
  show "writeBytes m a (readBytes m a n) y = m y"
  proof (cases "a \<le> y \<and> y < a + n")
    case True
    then have "y = a + (y - a)" "y - a < length (readBytes m a n)" by (auto simp: readBytes_def)
    then have "writeBytes m a (readBytes m a n) y = readBytes m a n ! (y - a)" using writeBytes_in by metis
    moreover have "readBytes m a n ! (y - a) = m y" using True by (auto simp: readBytes_def)
    ultimately show ?thesis by simp
  next
    case False
    then show ?thesis by (intro writeBytes_other) (auto simp: readBytes_def)
  qed
qed

text \<open>The record with one more reference.\<close>

definition bump :: "stmt \<Rightarrow> stmt" where
  "bump st = st\<lparr>stmt_refs := stmt_refs st + 1\<rparr>"

lemma bump_sel [simp]: "stmt_refs (bump st) = Suc (stmt_refs st)" "stmt_state (bump st) = stmt_state st" "stmt_data (bump st) = stmt_data st"
    "stmt_data_len (bump st) = stmt_data_len st" "stmt_id (bump st) = stmt_id st" "stmt_ttl (bump st) = stmt_ttl st" "stmt_ts (bump st) = stmt_ts st"
    "(bump st)\<lparr>stmt_refs := stmt_refs st\<rparr> = st"
  by (simp_all add: bump_def)

text \<open>A reference taken and given back leaves no trace.\<close>

lemma refs_step:
  assumes "heap.objects a C" "record_at C p st" "0 < stmt_refs st" "stmt_refs st < 2 ^ 32 - 1"
  shows "bncl_stmt_get p (mem a) = (True, write_stmt (mem a) p (bump st))"
    "stmt_fits (bump st)"
  using assms read_record [OF assms(1,2)] record_fits [OF assms(2)]
  by (simp_all add: bncl_stmt_get_def Let_def fits_refs bump_def)

lemma put_step:
  assumes "heap.objects a C" "record_at C p st" "0 < stmt_refs st"
  shows "bncl_stmt_put p (mem a) = (stmt_refs st = 1, write_stmt (mem a) p (st\<lparr>stmt_refs := stmt_refs st - 1\<rparr>))"
    "stmt_fits (st\<lparr>stmt_refs := stmt_refs st - 1\<rparr>)"
proof -
  have e: "stmt_refs st + 2 ^ 32 - 1 = (stmt_refs st - 1) + 2 ^ 32" using assms(3) by simp
  have "stmt_refs st < 2 ^ 32" using record_fits [OF assms(2)] by (simp add: stmt_fits_def)
  then have b: "stmt_refs st - 1 < 2 ^ 32" by linarith
  have "wrap32 (stmt_refs st + 2 ^ 32 - 1) = stmt_refs st - 1" unfolding e wrap32_def using b by (simp only: mod_add_self2 mod_less)
  then show "bncl_stmt_put p (mem a) = (stmt_refs st = 1, write_stmt (mem a) p (st\<lparr>stmt_refs := stmt_refs st - 1\<rparr>))"
    using assms(3) read_record [OF assms(1,2)] by (auto simp: bncl_stmt_put_def Let_def)
  show "stmt_fits (st\<lparr>stmt_refs := stmt_refs st - 1\<rparr>)" using record_fits [OF assms(2)] b by (rule fits_refs)
qed

lemma write_back:
  assumes "heap.objects a C" "record_at C p st"
  shows "write_stmt (write_stmt (mem a) p st') p st = mem a"
  using writeBytes_twice [of "enc_stmt st'" "enc_stmt st" "mem a" p] writeBytes_same [of "mem a" p STMT_BYTES] record_bytes [OF assms]
  by (simp add: write_stmt_def)

lemma refs_balanced:
  assumes "heap.objects a C" "record_at C p st" "0 < stmt_refs st" "stmt_refs st < 2 ^ 32 - 1"
  shows "\<exists>last. bncl_stmt_put p (snd (bncl_stmt_get p (mem a))) = (last, mem a)"
proof -
  let ?st = "bump st"
  let ?a = "a\<lparr>mem := write_stmt (mem a) p ?st\<rparr>"
  note G = refs_step [OF assms]
  note W = write_record [OF assms(1,2) G(2)]
  from put_step [OF W] have "bncl_stmt_put p (mem ?a) = (stmt_refs ?st = 1, mem a)"
    using write_back [OF assms(1,2)] by simp
  then show ?thesis using G(1) by simp
qed

lemma read_frame:
  assumes "heap.objects a C" "C q = Some bs" "record_at C p st" "q \<noteq> p"
  shows "stmt_fits st' \<Longrightarrow> readBytes (write_stmt (mem a) p st') q (length bs) = bs"
  using heap.objects_read [OF write_record(1) [OF assms(1,3)], of st' q bs] assms(2,4) by simp

section \<open>The lock and the list\<close>

lemma lockLoop_spec: "lockLoop n now s =
    (if n \<noteq> 0 \<and> lock (ctl (sh_arena s)) = 0
     then (True, s\<lparr>sh_arena := (sh_arena s)\<lparr>ctl := (ctl (sh_arena s))\<lparr>lock := 1, taken_ns := now\<rparr>\<rparr>\<rparr>) else (False, s))"
  by (induction n) auto

lemma lockPipes_spec: "lockPipes now s =
    (if mapped s \<and> lock (ctl (sh_arena s)) = 0
     then (True, s\<lparr>sh_arena := (sh_arena s)\<lparr>ctl := (ctl (sh_arena s))\<lparr>lock := 1, taken_ns := now\<rparr>\<rparr>\<rparr>) else (False, s))"
  by (simp add: lockPipes_def lockLoop_spec LOCK_TRIES_def)

lemma popDpipe_last:
  assumes "freelist_ok m" "free_keys m = ks @ [key]"
  shows "popDpipe m = (Some key, m\<lparr>dpipes_meta_map := (dpipes_meta_map m)\<lparr>num_free := length ks\<rparr>\<rparr>)"
proof -
  have n: "num_free (dpipes_meta_map m) = Suc (length ks)" "Suc (length ks) \<le> length (dpipe_freelist m)"
    using length_free_keys [OF assms(1)] assms by (auto simp: freelist_ok_def)
  have "free_keys m ! length ks = dpipe_freelist m ! length ks" using n by (simp add: free_keys_def)
  then show ?thesis using n assms(2) by (simp add: popDpipe_def array_lookup_def Let_def)
qed

lemma pushDpipe_pushed:
  "freelist_ok m \<Longrightarrow> num_free (dpipes_meta_map m) < length (dpipe_freelist m) \<Longrightarrow> pushDpipe key m = pushed key m"
  by (simp add: pushDpipe_def array_update_def pushed_def Let_def freelist_ok_def)

lemma objects_ctl: "heap.objects (a\<lparr>ctl := (ctl a)\<lparr>lock := v, taken_ns := w\<rparr>\<rparr>) C \<longleftrightarrow> heap.objects a C"
  by (simp add: heap.objects_def in_use_def retiring_def holds_def heap_inv_def linked_def)


section \<open>Taking a pipe\<close>

text \<open>The state right after the section under the lock of \<open>acquire\<close>.\<close>

definition claimed :: "nat \<Rightarrow> nat \<Rightarrow> nat list \<Rightarrow> nat \<Rightarrow> stmt \<Rightarrow> shared \<Rightarrow> shared" where
  "claimed key p ks now st s =
     (let m = sh_maps s in
      s\<lparr>sh_arena := (sh_arena s)\<lparr>mem := write_stmt (mem (sh_arena s)) p (bump st),
          ctl := (ctl (sh_arena s))\<lparr>lock := 0, taken_ns := now\<rparr>\<rparr>,
        sh_maps := m\<lparr>dpipes_meta_map := (dpipes_meta_map m)\<lparr>num_free := length ks\<rparr>,
          dpipes := (dpipes m)[key := (dpipes m ! key)\<lparr>dp_stmt := Some p, dp_in_use := 1\<rparr>]\<rparr>\<rparr>)"

text \<open>What taking a pipe for the record \<open>st\<close> at \<open>p\<close> needs: a free lock, a free key whose pipe exists, a live record.\<close>

definition ready :: "shared \<Rightarrow> (nat \<rightharpoonup> bytes) \<Rightarrow> nat list \<Rightarrow> nat \<Rightarrow> nat \<Rightarrow> stmt \<Rightarrow> bool" where
  "ready s C ks key p st \<longleftrightarrow> mapped s \<and> lock (ctl (sh_arena s)) = 0 \<and> heap.objects (sh_arena s) C \<and> record_at C p st
     \<and> 0 < stmt_refs st \<and> stmt_refs st < 2 ^ 32 - 1 \<and> freelist_ok (sh_maps s) \<and> free_keys (sh_maps s) = ks @ [key]
     \<and> key < length (dpipes (sh_maps s)) \<and> key < length (cpipe_map (sh_maps s))"

lemma claim_ok:
  assumes r: "ready s C ks key p st"
  shows "claimPipe p (snd (lockPipes now s)) = (Some key, claimed key p ks now st s)" "fst (lockPipes now s)"
proof -
  note R = r [unfolded ready_def]
  let ?s = "s\<lparr>sh_arena := (sh_arena s)\<lparr>ctl := (ctl (sh_arena s))\<lparr>lock := 1, taken_ns := now\<rparr>\<rparr>\<rparr>"
  have l: "lockPipes now s = (True, ?s)" using R by (simp add: lockPipes_spec)
  have g: "bncl_stmt_get p (mem (sh_arena s)) = (True, write_stmt (mem (sh_arena s)) p (bump st))"
    using refs_step [of "sh_arena s" C p st] R by simp
  have o: "popDpipe (sh_maps ?s) = (Some key, (sh_maps s)\<lparr>dpipes_meta_map := (dpipes_meta_map (sh_maps s))\<lparr>num_free := length ks\<rparr>\<rparr>)"
    using popDpipe_last [of "sh_maps s"] R by simp
  show "claimPipe p (snd (lockPipes now s)) = (Some key, claimed key p ks now st s)"
    using R o by (simp add: l claimPipe_def g array_lookup_def Let_def unlockPipes_def set_lock_def set_mem_def claimed_def)
  show "fst (lockPipes now s)" by (simp add: l)
qed

lemma claimed_objects:
  assumes "ready s C ks key p st"
  shows "heap.objects (sh_arena (claimed key p ks now st s)) (C(p \<mapsto> enc_stmt (bump st)))"
    "record_at (C(p \<mapsto> enc_stmt (bump st))) p (bump st)"
    "mem (sh_arena (claimed key p ks now st s)) = write_stmt (mem (sh_arena s)) p (bump st)"
    "lock (ctl (sh_arena (claimed key p ks now st s))) = 0" "mapped (claimed key p ks now st s)"
proof -
  note R = assms [unfolded ready_def]
  have f: "stmt_fits (bump st)" using refs_step(2) [of "sh_arena s" C p st] R by simp
  note W = write_record [of "sh_arena s" C p st, OF _ _ f]
  have e: "sh_arena (claimed key p ks now st s) = (let a = (sh_arena s)\<lparr>mem := write_stmt (mem (sh_arena s)) p (bump st)\<rparr>
      in a\<lparr>ctl := (ctl a)\<lparr>lock := 0, taken_ns := now\<rparr>\<rparr>)" by (simp add: claimed_def Let_def)
  show "heap.objects (sh_arena (claimed key p ks now st s)) (C(p \<mapsto> enc_stmt (bump st)))"
    unfolding e Let_def objects_ctl using W(1) R by blast
  show "record_at (C(p \<mapsto> enc_stmt (bump st))) p (bump st)"
    using W(2) R by blast
  show "mem (sh_arena (claimed key p ks now st s)) = write_stmt (mem (sh_arena s)) p (bump st)"
    "lock (ctl (sh_arena (claimed key p ks now st s))) = 0" "mapped (claimed key p ks now st s)"
    using R by (simp_all add: claimed_def Let_def)
qed

text \<open>The free list while one key is out, and after it has come back.\<close>

lemma freelist_out:
  assumes "ready s C ks key p st" "dpipe_freelist m = dpipe_freelist (sh_maps s)"
    "dpipes_meta_map m = (dpipes_meta_map (sh_maps s))\<lparr>num_free := length ks\<rparr>"
  shows "free_keys m = ks" "freelist_ok m" "free_keys (pushDpipe key m) = ks @ [key]"
proof -
  note R = assms(1) [unfolded ready_def]
  have n: "num_free (dpipes_meta_map (sh_maps s)) = Suc (length ks)" "Suc (length ks) \<le> length (dpipe_freelist (sh_maps s))"
    using R length_free_keys [of "sh_maps s"] by (auto simp: freelist_ok_def)
  have "take (length ks) (free_keys (sh_maps s)) = take (length ks) (dpipe_freelist (sh_maps s))"
    using n by (simp add: free_keys_def take_take)
  moreover have "take (length ks) (free_keys (sh_maps s)) = ks" using R by simp
  ultimately show k: "free_keys m = ks" using assms(2,3) by (simp add: free_keys_def)
  show f: "freelist_ok m" using R n k assms(2,3) by (auto simp: freelist_ok_def)
  have l: "num_free (dpipes_meta_map m) < length (dpipe_freelist m)" using n assms(2,3) by simp
  show "free_keys (pushDpipe key m) = ks @ [key]" using pushDpipe_pushed [OF f l] free_keys_pushed [OF l] k by simp
qed

lemma acquire_claimed:
  assumes "ready s C ks key p st" "findStmt sql s = Some p"
  shows "acquire True True now now' sql sock s =
     (Some key, (let c = claimed key p ks now st s in c\<lparr>sh_maps := (sh_maps c)\<lparr>cpipe_map := (cpipe_map (sh_maps s))[key := Some sock],
        pipe_sk_info_map := AList.update sock \<lparr>si_key = key, si_paired = 1\<rparr> (pipe_sk_info_map (sh_maps s))\<rparr>\<rparr>))"
proof -
  obtain s1 where l: "lockPipes now s = (True, s1)" using claim_ok(2) [OF assms(1)] by (metis prod.collapse)
  have c: "claimPipe p s1 = (Some key, claimed key p ks now st s)" using claim_ok(1) [OF assms(1), of now] l by simp
  have "key < length (cpipe_map (sh_maps s))" using assms(1) by (simp add: ready_def)
  then show ?thesis using assms(2) l c by (simp add: acquire_def array_update_def Let_def) (simp add: claimed_def Let_def)
qed

lemma release_gives_back:
  assumes "heap.objects (sh_arena s) C" "record_at C p st" "0 < stmt_refs st" "mapped s" "lock (ctl (sh_arena s)) = 0"
    "key < length (dpipes (sh_maps s))" "dp_stmt (dpipes (sh_maps s) ! key) = Some p"
  shows "release now sock key s =
    (let a = sh_arena s; m = sh_maps s in
     s\<lparr>sh_arena := a\<lparr>mem := write_stmt (mem a) p (st\<lparr>stmt_refs := stmt_refs st - 1\<rparr>), ctl := (ctl a)\<lparr>lock := 0, taken_ns := now\<rparr>\<rparr>,
       sh_maps := pushDpipe key (m\<lparr>pipe_sk_info_map := AList.update sock \<lparr>si_key = 0, si_paired = 0\<rparr> (pipe_sk_info_map m),
         cpipe_map := (cpipe_map m)[key := None]\<rparr>)\<rparr>)"
  using assms(4-7) put_step [OF assms(1-3)]
  by (simp add: release_def array_lookup_def Let_def lockPipes_spec set_mem_def unlockPipes_def set_lock_def)

lemma pushDpipe_frame: "pipe_sk_info_map (pushDpipe key m) = pipe_sk_info_map m" "cpipe_map (pushDpipe key m) = cpipe_map m"
    "stmts_map (pushDpipe key m) = stmts_map m"
  by (simp_all add: pushDpipe_def Let_def split: option.splits)

text \<open>The socket is spliced to the pipe \<open>key\<close>, which points at a statement's record.\<close>

definition hijacked :: "shared \<Rightarrow> nat \<Rightarrow> nat \<Rightarrow> bool" where
  "hijacked s sock key \<longleftrightarrow> map_of (pipe_sk_info_map (sh_maps s)) sock = Some \<lparr>si_key = key, si_paired = 1\<rparr>
     \<and> array_lookup (cpipe_map (sh_maps s)) key = Some (Some sock)
     \<and> (\<exists>rec p. array_lookup (dpipes (sh_maps s)) key = Some rec \<and> dp_stmt rec = Some p)"

lemma claimPipe_points:
  assumes "claimPipe ref s = (Some key, s')"
  shows "\<exists>rec. array_lookup (dpipes (sh_maps s')) key = Some rec \<and> dp_stmt rec = Some ref"
proof -
  obtain m where m: "popDpipe (sh_maps s) = (Some key, m)" using assms
    by (auto simp: claimPipe_def Let_def split: prod.splits option.splits if_splits)
  then obtain rec where "array_lookup (dpipes m) key = Some rec" using assms
    by (auto simp: claimPipe_def Let_def split: prod.splits option.splits if_splits)
  then show ?thesis using assms m
    by (auto simp: claimPipe_def Let_def array_lookup_def unlockPipes_def set_lock_def set_mem_def split: prod.splits option.splits if_splits)
qed

lemma acquire_hijacks:
  assumes "acquire mo so now now' sql sock s = (Some key, s')"
  shows "hijacked s' sock key"
proof -
  obtain ref s1 s2 cm where c: "claimPipe ref s1 = (Some key, s2)" "array_update (cpipe_map (sh_maps s2)) key (Some sock) = Some cm"
    "s' = (s2\<lparr>sh_maps := (sh_maps s2)\<lparr>cpipe_map := cm\<rparr>\<rparr>)\<lparr>sh_maps := (sh_maps s2)\<lparr>cpipe_map := cm,
       pipe_sk_info_map := AList.update sock \<lparr>si_key = key, si_paired = 1\<rparr> (pipe_sk_info_map (sh_maps s2))\<rparr>\<rparr>"
    using assms by (auto simp: acquire_def Let_def split: option.splits prod.splits if_splits)
  then show ?thesis using claimPipe_points [OF c(1)]
    by (auto simp: hijacked_def update_conv' array_update_def array_lookup_def split: if_splits)
qed

lemma acquire_frame:
  assumes "acquire mo so now now' sql sock s = (Some key, s')"
  shows "dpipe_map (sh_maps s') = dpipe_map (sh_maps s)" "cfg (sh_maps s') = cfg (sh_maps s)" "cpipe_map (sh_maps s') = (cpipe_map (sh_maps s))[key := Some sock]"
    "pipe_sk_info_map (sh_maps s') = AList.update sock \<lparr>si_key = key, si_paired = 1\<rparr> (pipe_sk_info_map (sh_maps s))"
  using assms
  by (auto simp: acquire_def claimPipe_def popDpipe_def lockPipes_spec array_update_def set_mem_def unlockPipes_def set_lock_def Let_def
      split: option.splits prod.splits if_splits)

lemma release_frame [simp]:
  "dpipe_map (sh_maps (release now sock key s)) = dpipe_map (sh_maps s)" "cfg (sh_maps (release now sock key s)) = cfg (sh_maps s)"
  "cpipe_map (sh_maps (release now sock key s)) = (cpipe_map (sh_maps s))[key := None]"
  "pipe_sk_info_map (sh_maps (release now sock key s)) = AList.update sock \<lparr>si_key = 0, si_paired = 0\<rparr> (pipe_sk_info_map (sh_maps s))"
  by (auto simp: release_def pushDpipe_def lockPipes_spec set_mem_def unlockPipes_def set_lock_def Let_def split: option.splits prod.splits if_splits)

section \<open>Looking up\<close>

lemma lookup_spec:
  assumes "heap.objects (sh_arena s) C" "findStmt sql s = Some p" "record_at C p st" "stmt_refs st < 2 ^ 32 - 1"
    "case stmt_data st of None \<Rightarrow> True | Some q \<Rightarrow> q \<noteq> p \<and> C q = Some bs \<and> length bs = stmt_data_len st"
  shows "lookupPayload sql now s =
    (if 0 < stmt_refs st \<and> stmt_state st = STMT_S_LOCAL \<and> stmt_data st \<noteq> None \<and> bs \<noteq> [] \<and> \<not> clientExpired st now
     then Some (bs, stmt_id st) else None, s)"
proof (cases "stmt_refs st = 0")
  case True
  then have "bncl_stmt_get p (mem (sh_arena s)) = (False, mem (sh_arena s))"
    using read_record [OF assms(1,3)] by (simp add: bncl_stmt_get_def)
  then show ?thesis using assms(2) True by (simp add: lookupPayload_def)
next
  case False
  then have r: "0 < stmt_refs st" by simp
  let ?st = "bump st" and ?m = "mem (sh_arena s)"
  note G = refs_step [OF assms(1,3) r assms(4)]
  have rd: "read_stmt (write_stmt ?m p ?st) p = ?st" using G(2) by (rule read_write_stmt)
  obtain last where "bncl_stmt_put p (write_stmt ?m p ?st) = (last, ?m)"
    using refs_balanced [OF assms(1,3) r assms(4)] G(1) by auto
  then have b: "set_mem (snd (bncl_stmt_put p (write_stmt ?m p ?st))) s = s" by (simp add: set_mem_def)
  have e: "clientExpired ?st now = clientExpired st now" by (simp add: clientExpired_def)
  show ?thesis
  proof (cases "stmt_data st")
    case None
    then show ?thesis using assms(2) by (simp add: lookupPayload_def G(1) rd b Let_def)
  next
    case (Some q)
    then have q: "q \<noteq> p" "C q = Some bs" "length bs = stmt_data_len st" using assms(5) by auto
    then have "readBytes (write_stmt ?m p ?st) q (stmt_data_len st) = bs" using read_frame [OF assms(1) q(2) assms(3) q(1) G(2)] by simp
    moreover have "stmt_data_len st = 0 \<longleftrightarrow> bs = []" using q(3) by auto
    ultimately show ?thesis using assms(2) Some r by (simp add: lookupPayload_def G(1) rd b e Let_def)
  qed
qed

section \<open>A shared state with one statement\<close>

definition demo_stmt :: stmt where
  "demo_stmt = \<lparr>stmt_txt = Some 80, stmt_len = 1, stmt_ts = 5, stmt_state = STMT_S_LOCAL, stmt_id = 7,
     stmt_data = Some 120, stmt_data_len = 9, stmt_ttl = 0, stmt_refs = 1\<rparr>"

definition demo_published :: "nat \<Rightarrow> arena \<Rightarrow> shared" where
  "demo_published p a = \<lparr>sh_arena = a\<lparr>ctl := (ctl a)\<lparr>lock := 0, taken_ns := 0\<rparr>\<rparr>,
     sh_maps = demo_maps\<lparr>stmts_map := [(stmt_key [65], p)], dpipe_freelist := [0, 1]\<rparr>, mapped = True, cfg_pin = True\<rparr>"

text \<open>One statement, its record and a payload fit into a fresh arena.\<close>

lemma demo_objects:
  "\<exists>a p q C. heap.objects a C \<and> q \<noteq> p \<and> 0 < p \<and> 0 < q \<and> q < 2 ^ 32 \<and> C q = Some (replicate 9 1)
     \<and> record_at C p (demo_stmt\<lparr>stmt_data := Some q\<rparr>)"
proof -
  let ?st = "\<lambda>q. demo_stmt\<lparr>stmt_data := Some q\<rparr>"
  have b: "block_for 9 = 40" "block_for 56 = 80" by (simp_all add: block_for_def align8_def arena_consts MIN_BLOCK_24 Let_def)
  obtain a0 where a0: "roomy a0 Map.empty (4096 - 64)" using roomy_init [of 4096] by fastforce
  obtain q a1 where q: "roomy a1 [q \<mapsto> replicate 9 1] 3992"
    using roomy_put [OF a0, of "replicate 9 1"] b by auto
  obtain p a2 where p: "[q \<mapsto> replicate 9 (1 :: u8)] p = None" "roomy a2 [q \<mapsto> replicate 9 1, p \<mapsto> enc_stmt (?st q)] 3912"
    using roomy_put [OF q, of "enc_stmt (?st q)"] b by (auto simp: STMT_BYTES_def)
  let ?C = "[q \<mapsto> replicate 9 (1 :: u8), p \<mapsto> enc_stmt (?st q)]"
  have o: "heap.objects a2 ?C" using p(2) by (simp add: roomy_def)
  have "q \<noteq> p" using p(1) by (auto split: if_splits)
  then have "?C q = Some (replicate 9 1)" by simp
  moreover have "?C p = Some (enc_stmt (?st q))" by simp
  ultimately have bd: "0 < q" "q < 2 ^ 32" "0 < p" using heap.objects_bound [OF o] by blast+
  then have "stmt_fits (?st q)" by (simp add: stmt_fits_def demo_stmt_def STMT_S_LOCAL_def enc_ptr_def)
  then show ?thesis using o bd \<open>q \<noteq> p\<close> by (intro exI [of _ a2] exI [of _ p] exI [of _ q] exI [of _ ?C]) (simp add: record_at_def)
qed

lemma demo_ready:
  assumes "heap.objects a C" "record_at C p st" "stmt_refs st = 1" "0 < p"
  shows "ready (demo_published p a) C [0] 1 p st" "findStmt [65] (demo_published p a) = Some p"
    "heap.objects (sh_arena (demo_published p a)) C"
  using assms objects_ctl
  by (simp_all add: ready_def demo_published_def demo_maps_def freelist_ok_def free_keys_def findStmt_def BNCL_STMT_MAX_def)

section \<open>Properties\<close>

text \<open>
  C25: looking a statement up hands out its payload exactly when the record is live, local, has a non-empty payload and has not aged out,
  and then it is the bytes behind the record's pointer; in every case the shared memory is afterwards what it was, so no reference is leaked or lost.
\<close>

theorem lookup_exact:
  assumes "heap.objects (sh_arena s) C" "findStmt sql s = Some p" "record_at C p st" "stmt_refs st < 2 ^ 32 - 1"
    "case stmt_data st of None \<Rightarrow> True | Some q \<Rightarrow> q \<noteq> p \<and> C q = Some bs \<and> length bs = stmt_data_len st"
  shows "lookupPayload sql now s =
    (if 0 < stmt_refs st \<and> stmt_state st = STMT_S_LOCAL \<and> stmt_data st \<noteq> None \<and> bs \<noteq> [] \<and> \<not> clientExpired st now
     then Some (bs, stmt_id st) else None, s)"
  using lookup_spec [OF assms] .


theorem lookup_exact_witness:
  "\<exists>s. lookupPayload [65] 6 s = (Some (replicate 9 1, 7), s)"
proof -
  obtain a p q C where d: "heap.objects a C" "q \<noteq> p" "0 < p" "C q = Some (replicate 9 1)" "record_at C p (demo_stmt\<lparr>stmt_data := Some q\<rparr>)"
    using demo_objects by blast
  note R = demo_ready [OF d(1,5) _ d(3)]
  show ?thesis
    using lookup_exact [OF R(3) R(2) d(5), of "replicate 9 1" 6] d by (auto simp: demo_stmt_def clientExpired_def)
qed

text \<open>
  C26: taking a pipe and giving it back is balanced. With a free lock, a free pipe and a live record, \<open>acquire\<close> pops the last free key, points its
  pipe at the record, adds one reference, hijacks the socket and leaves the lock free; \<open>release\<close> then restores the shared memory byte for byte and
  puts the key back where it was, and neither the socket nor the pipe is paired any more.
\<close>

theorem acquire_release:
  assumes "ready s C ks key p st" "findStmt sql s = Some p"
  shows "\<exists>s'. acquire True True now now' sql sock s = (Some key, s')
    \<and> free_keys (sh_maps s') = ks \<and> dp_stmt (dpipes (sh_maps s') ! key) = Some p \<and> read_stmt (mem (sh_arena s')) p = bump st
    \<and> cpipe_map (sh_maps s') ! key = Some sock \<and> map_of (pipe_sk_info_map (sh_maps s')) sock = Some \<lparr>si_key = key, si_paired = 1\<rparr>
    \<and> lock (ctl (sh_arena s')) = 0
    \<and> (let r = release now'' sock key s' in
        mem (sh_arena r) = mem (sh_arena s) \<and> lock (ctl (sh_arena r)) = 0 \<and> free_keys (sh_maps r) = ks @ [key]
        \<and> cpipe_map (sh_maps r) ! key = None \<and> map_of (pipe_sk_info_map (sh_maps r)) sock = Some \<lparr>si_key = 0, si_paired = 0\<rparr>)"
proof -
  note R = assms(1) [unfolded ready_def]
  let ?c = "claimed key p ks now st s"
  let ?s = "?c\<lparr>sh_maps := (sh_maps ?c)\<lparr>cpipe_map := (cpipe_map (sh_maps s))[key := Some sock],
        pipe_sk_info_map := AList.update sock \<lparr>si_key = key, si_paired = 1\<rparr> (pipe_sk_info_map (sh_maps s))\<rparr>\<rparr>"
  let ?C = "C(p \<mapsto> enc_stmt (bump st))"
  note K = claimed_objects(1) [OF assms(1), of now] claimed_objects(2) [OF assms(1)] claimed_objects(3-5) [OF assms(1), of now]
  have a: "acquire True True now now' sql sock s = (Some key, ?s)" using acquire_claimed [OF assms] by (simp add: Let_def)
  have m: "dpipe_freelist (sh_maps ?s) = dpipe_freelist (sh_maps s)"
    "dpipes_meta_map (sh_maps ?s) = (dpipes_meta_map (sh_maps s))\<lparr>num_free := length ks\<rparr>" by (simp_all add: claimed_def Let_def)
  have o: "heap.objects (sh_arena ?s) ?C" "mapped ?s" "lock (ctl (sh_arena ?s)) = 0" using K by simp_all
  have d: "key < length (dpipes (sh_maps ?s))" "dp_stmt (dpipes (sh_maps ?s) ! key) = Some p"
    using R by (simp_all add: claimed_def Let_def)
  have r: "release now'' sock key ?s =
    (let a = sh_arena ?s; m = sh_maps ?s in
     ?s\<lparr>sh_arena := a\<lparr>mem := write_stmt (mem a) p ((bump st)\<lparr>stmt_refs := stmt_refs (bump st) - 1\<rparr>), ctl := (ctl a)\<lparr>lock := 0, taken_ns := now''\<rparr>\<rparr>,
       sh_maps := pushDpipe key (m\<lparr>pipe_sk_info_map := AList.update sock \<lparr>si_key = 0, si_paired = 0\<rparr> (pipe_sk_info_map m),
         cpipe_map := (cpipe_map m)[key := None]\<rparr>)\<rparr>)"
    by (rule release_gives_back [OF o(1) K(2) _ o(2,3) d]) simp
  have w: "write_stmt (mem (sh_arena ?s)) p st = mem (sh_arena s)"
    using write_back [of "sh_arena s" C p st "bump st"] R K(3) by simp
  have f: "free_keys (pushDpipe key ((sh_maps ?s)\<lparr>pipe_sk_info_map := x, cpipe_map := y\<rparr>)) = ks @ [key]" for x y
    by (rule freelist_out(3) [OF assms(1)]) (use m in simp_all)
  have "read_stmt (mem (sh_arena ?s)) p = bump st" by (rule read_record [OF o(1) K(2)])
  then show ?thesis
    using a r w f freelist_out(1) [OF assms(1) m] d(2) o(3) R
    by (intro exI [of _ ?s]) (simp add: Let_def pushDpipe_frame update_conv')
qed

theorem acquire_release_witness:
  "\<exists>s s'. acquire True True 1 2 [65] 5 s = (Some 1, s') \<and> free_keys (sh_maps s') = [0] \<and> free_keys (sh_maps (release 3 5 1 s')) = [0, 1]"
proof -
  obtain a p q C where d: "heap.objects a C" "0 < p" "record_at C p (demo_stmt\<lparr>stmt_data := Some q\<rparr>)"
    using demo_objects by blast
  have r: "stmt_refs (demo_stmt\<lparr>stmt_data := Some q\<rparr>) = 1" by (simp add: demo_stmt_def)
  note R = demo_ready [OF d(1,3) r d(2)]
  obtain s' where "acquire True True 1 2 [65] 5 (demo_published p a) = (Some 1, s')" "free_keys (sh_maps s') = [0]"
    "free_keys (sh_maps (release 3 5 1 s')) = [0, 1]"
    using acquire_release [OF R(1,2), of 1 2 5 3] by (auto simp: Let_def)
  then show ?thesis by blast
qed

text \<open>
  When the kernel refuses the socket, \<open>acquire\<close> gives the pipe back but not the reference it took: the record's count stays one too high for good,
  so the record can no longer be retired.
\<close>

theorem failed_splice_leaks_reference:
  assumes "ready s C ks key p st" "findStmt sql s = Some p" "\<not> (sockmap_ok \<and> storage_ok)"
  shows "\<exists>s'. acquire sockmap_ok storage_ok now now' sql sock s = (None, s')
    \<and> free_keys (sh_maps s') = ks @ [key] \<and> read_stmt (mem (sh_arena s')) p = bump st"
proof -
  note R = assms(1) [unfolded ready_def]
  let ?c = "claimed key p ks now st s"
  obtain s1 where l: "lockPipes now s = (True, s1)" using claim_ok(2) [OF assms(1)] by (metis prod.collapse)
  have c: "claimPipe p s1 = (Some key, ?c)" using claim_ok(1) [OF assms(1), of now] l by simp
  note K = claimed_objects(1) [OF assms(1), of now] claimed_objects(2) [OF assms(1)] claimed_objects(3-5) [OF assms(1), of now]
  have b: "abandon now' key (?c\<lparr>sh_maps := (sh_maps ?c)\<lparr>cpipe_map := x\<rparr>\<rparr>) = ?c\<lparr>sh_arena := (sh_arena ?c)\<lparr>ctl := (ctl (sh_arena ?c))\<lparr>lock := 0, taken_ns := now'\<rparr>\<rparr>,
       sh_maps := pushDpipe key ((sh_maps ?c)\<lparr>cpipe_map := x\<rparr>)\<rparr>" for x
    using K(4,5) by (simp add: abandon_def lockPipes_spec giveBack_def unlockPipes_def set_lock_def)
  have e: "?c = ?c\<lparr>sh_maps := (sh_maps ?c)\<lparr>cpipe_map := cpipe_map (sh_maps ?c)\<rparr>\<rparr>" by simp
  obtain x where x: "acquire sockmap_ok storage_ok now now' sql sock s = (None, abandon now' key (?c\<lparr>sh_maps := (sh_maps ?c)\<lparr>cpipe_map := x\<rparr>\<rparr>))"
  proof (cases sockmap_ok)
    case True
    have "cpipe_map (sh_maps ?c) = cpipe_map (sh_maps s)" by (simp add: claimed_def Let_def)
    then show ?thesis using assms(2,3) True l c R
      by (intro that [of "(cpipe_map (sh_maps s))[key := Some sock]"]) (simp add: acquire_def array_update_def)
  next
    case False
    then show ?thesis using assms(2) l c e by (intro that [of "cpipe_map (sh_maps ?c)"]) (simp add: acquire_def)
  qed
  moreover have "free_keys (pushDpipe key ((sh_maps ?c)\<lparr>cpipe_map := x\<rparr>)) = ks @ [key]" for x
    by (rule freelist_out(3) [OF assms(1)]) (simp_all add: claimed_def Let_def)
  moreover have "read_stmt (mem (sh_arena ?c)) p = bump st" by (rule read_record [OF K(1,2)])
  ultimately show ?thesis unfolding x b by simp
qed


theorem failed_splice_leaks_reference_witness:
  "\<exists>s s' p. acquire True False 1 2 [65] 5 s = (None, s') \<and> stmt_refs (read_stmt (mem (sh_arena s')) p) = 2"
proof -
  obtain a p q C where d: "heap.objects a C" "0 < p" "record_at C p (demo_stmt\<lparr>stmt_data := Some q\<rparr>)"
    using demo_objects by blast
  have r: "stmt_refs (demo_stmt\<lparr>stmt_data := Some q\<rparr>) = 1" by (simp add: demo_stmt_def)
  note R = demo_ready [OF d(1,3) r d(2)]
  obtain s' where "acquire True False 1 2 [65] 5 (demo_published p a) = (None, s')"
    "read_stmt (mem (sh_arena s')) p = bump (demo_stmt\<lparr>stmt_data := Some q\<rparr>)"
    using failed_splice_leaks_reference [OF R(1,2), of True False 1 2 5] by auto
  then have "acquire True False 1 2 [65] 5 (demo_published p a) = (None, s') \<and> stmt_refs (read_stmt (mem (sh_arena s')) p) = 2"
    using r by simp
  then show ?thesis by blast
qed

end
