(* ===== verification/PipeLock.thy ===== *)
theory PipeLock
  imports Shared
begin

text \<open>
  The free list under contention: any number of client threads run the locked sections of \<open>acquire\<close> and \<open>release\<close> of
  \<open>src/src/uclient/shared.cpp\<close>, interleaved between every two accesses to the shared lock, the map of counts and the free list, and the daemon's idle tick
  runs \<open>breakStaleLock\<close> of \<open>src/src/daemon/main.cpp\<close>.
\<close>

section \<open>Model\<close>

text \<open>
  Where a thread is. \<open>Spin n\<close> and \<open>RSpin n key\<close> have \<open>n\<close> attempts left; \<open>Stamped\<close> and \<open>RStamped\<close> have the lock and are about to write
  \<open>taken_ns\<close>; the \<open>Pop\<close> and \<open>Push\<close> states stand before each of the three map calls of \<open>popDpipe\<close> and \<open>pushDpipe\<close>; \<open>Claim\<close> stands before the
  reference is taken; \<open>Has key\<close> is outside the lock with a pipe.
\<close>

datatype place = Out | Spin nat | Stamped | PopRead | PopSlot nat | PopMeta nat nat | Claim nat | UnlockKeep nat | Has nat
  | RSpin nat nat | RStamped nat | PushRead nat | PushSlot nat nat | PushMeta nat nat | Unlock

record pstate =
  lk :: bool
  taken :: nat
  clock :: nat
  nfree :: nat
  flist :: "nat list"
  at :: "nat \<Rightarrow> place"

abbreviation go :: "pstate \<Rightarrow> nat \<Rightarrow> place \<Rightarrow> pstate" where
  "go s t w \<equiv> s\<lparr>at := (at s)(t := w)\<rparr>"

inductive pstep :: "pstate \<Rightarrow> pstate \<Rightarrow> bool" where
  time: "pstep s (s\<lparr>clock := clock s + d\<rparr>)"
| start: "at s t = Out \<Longrightarrow> pstep s (go s t (Spin LOCK_TRIES))"
| give_up: "at s t = Spin 0 \<Longrightarrow> pstep s (go s t Out)"
| spin_lost: "at s t = Spin (Suc i) \<Longrightarrow> lk s \<Longrightarrow> pstep s (go s t (Spin i))"
| spin_won: "at s t = Spin (Suc i) \<Longrightarrow> \<not> lk s \<Longrightarrow> pstep s (go (s\<lparr>lk := True\<rparr>) t Stamped)"
| stamp: "at s t = Stamped \<Longrightarrow> pstep s (go (s\<lparr>taken := clock s\<rparr>) t PopRead)"
| pop_empty: "at s t = PopRead \<Longrightarrow> nfree s = 0 \<Longrightarrow> pstep s (go s t Unlock)"
| pop_read: "at s t = PopRead \<Longrightarrow> nfree s \<noteq> 0 \<Longrightarrow> pstep s (go s t (PopSlot (nfree s - 1)))"
| pop_bad: "at s t = PopSlot k \<Longrightarrow> array_lookup (flist s) k = None \<Longrightarrow> pstep s (go s t Unlock)"
| pop_slot: "at s t = PopSlot k \<Longrightarrow> array_lookup (flist s) k = Some key \<Longrightarrow> pstep s (go s t (PopMeta k key))"
| pop_meta: "at s t = PopMeta k key \<Longrightarrow> pstep s (go (s\<lparr>nfree := k\<rparr>) t (Claim key))"
| claim_won: "at s t = Claim key \<Longrightarrow> pstep s (go s t (UnlockKeep key))"
| claim_lost: "at s t = Claim key \<Longrightarrow> pstep s (go s t (PushRead key))"
| unlock_keep: "at s t = UnlockKeep key \<Longrightarrow> pstep s (go (s\<lparr>lk := False\<rparr>) t (Has key))"
| unlock: "at s t = Unlock \<Longrightarrow> pstep s (go (s\<lparr>lk := False\<rparr>) t Out)"
| let_go: "at s t = Has key \<Longrightarrow> pstep s (go s t (RSpin LOCK_TRIES key))"
| rgive_up: "at s t = RSpin 0 key \<Longrightarrow> pstep s (go s t Out)"
| rspin_lost: "at s t = RSpin (Suc i) key \<Longrightarrow> lk s \<Longrightarrow> pstep s (go s t (RSpin i key))"
| rspin_won: "at s t = RSpin (Suc i) key \<Longrightarrow> \<not> lk s \<Longrightarrow> pstep s (go (s\<lparr>lk := True\<rparr>) t (RStamped key))"
| rstamp: "at s t = RStamped key \<Longrightarrow> pstep s (go (s\<lparr>taken := clock s\<rparr>) t (PushRead key))"
| push_read: "at s t = PushRead key \<Longrightarrow> pstep s (go s t (PushSlot key (nfree s)))"
| push_full: "at s t = PushSlot key k \<Longrightarrow> array_update (flist s) k key = None \<Longrightarrow> pstep s (go s t Unlock)"
| push_slot: "at s t = PushSlot key k \<Longrightarrow> array_update (flist s) k key = Some fl \<Longrightarrow> pstep s (go (s\<lparr>flist := fl\<rparr>) t (PushMeta key k))"
| push_meta: "at s t = PushMeta key k \<Longrightarrow> pstep s (go (s\<lparr>nfree := k + 1\<rparr>) t Unlock)"

text \<open>The daemon's tick on the lock.\<close>

definition stale :: "pstate \<Rightarrow> bool" where
  "stale s \<longleftrightarrow> lk s \<and> taken s \<noteq> 0 \<and> taken s \<le> clock s \<and> NS_PER_S \<le> clock s - taken s"

definition breakLock :: "pstate \<Rightarrow> pstate" where
  "breakLock s = (if stale s then s\<lparr>lk := False\<rparr> else s)"

definition pinit :: "nat \<Rightarrow> pstate" where
  "pinit n = \<lparr>lk = False, taken = 0, clock = 1, nfree = n, flist = [0..<n], at = \<lambda>_. Out\<rparr>"

inductive preach :: "nat \<Rightarrow> pstate \<Rightarrow> bool" for n where
  preach_init: "preach n (pinit n)"
| preach_step: "preach n s \<Longrightarrow> pstep s s' \<Longrightarrow> preach n s'"

text \<open>With the daemon's tick among the steps.\<close>

inductive breach :: "nat \<Rightarrow> pstate \<Rightarrow> bool" for n where
  breach_init: "breach n (pinit n)"
| breach_step: "breach n s \<Longrightarrow> pstep s s' \<Longrightarrow> breach n s'"
| breach_tick: "breach n s \<Longrightarrow> breach n (breakLock s)"

fun inside_lock :: "place \<Rightarrow> bool" where
  "inside_lock (Spin _) = False" | "inside_lock (RSpin _ _) = False" | "inside_lock (Has _) = False" | "inside_lock Out = False"
| "inside_lock _ = True"

text \<open>The pipe a thread is responsible for.\<close>

fun holds_key :: "place \<Rightarrow> nat option" where
  "holds_key (Claim k) = Some k" | "holds_key (UnlockKeep k) = Some k" | "holds_key (Has k) = Some k" | "holds_key (RSpin _ k) = Some k"
| "holds_key (RStamped k) = Some k" | "holds_key (PushRead k) = Some k" | "holds_key (PushSlot k _) = Some k" | "holds_key (PushMeta k _) = Some k"
| "holds_key _ = None"

section \<open>Invariant\<close>

definition frees :: "pstate \<Rightarrow> nat list" where
  "frees s = take (nfree s) (flist s)"

text \<open>What a thread inside the lock knows of the list.\<close>

fun sees :: "nat \<Rightarrow> nat list \<Rightarrow> place \<Rightarrow> bool" where
  "sees n fl (PopSlot k) \<longleftrightarrow> n = Suc k"
| "sees n fl (PopMeta k key) \<longleftrightarrow> n = Suc k \<and> fl ! k = key"
| "sees n fl (PushSlot key k) \<longleftrightarrow> n = k"
| "sees n fl (PushMeta key k) \<longleftrightarrow> n = k \<and> k < length fl \<and> fl ! k = key"
| "sees n fl _ \<longleftrightarrow> True"

definition locked_ok :: "pstate \<Rightarrow> bool" where
  "locked_ok s \<longleftrightarrow> (\<forall>t. inside_lock (at s t) \<longrightarrow> lk s) \<and> (\<forall>t u. inside_lock (at s t) \<longrightarrow> inside_lock (at s u) \<longrightarrow> t = u)"

definition keys_ok :: "pstate \<Rightarrow> bool" where
  "keys_ok s \<longleftrightarrow> nfree s \<le> length (flist s) \<and> distinct (frees s)
     \<and> (\<forall>t k. holds_key (at s t) = Some k \<longrightarrow> k \<notin> set (frees s))
     \<and> (\<forall>t u k. holds_key (at s t) = Some k \<longrightarrow> holds_key (at s u) = Some k \<longrightarrow> t = u)"

definition pinv :: "pstate \<Rightarrow> bool" where
  "pinv s \<longleftrightarrow> locked_ok s \<and> keys_ok s \<and> (\<forall>t. sees (nfree s) (flist s) (at s t))"

lemma sees_outside: "\<not> inside_lock w \<Longrightarrow> sees n fl w"
  by (cases w) auto

lemma keys_moved:
  "keys_ok s \<Longrightarrow> holds_key w = holds_key (at s t) \<Longrightarrow> nfree s' = nfree s \<Longrightarrow> flist s' = flist s \<Longrightarrow> at s' = (at s)(t := w) \<Longrightarrow> keys_ok s'"
  by (auto simp: keys_ok_def frees_def split: if_splits)

lemma keys_dropped:
  "keys_ok s \<Longrightarrow> holds_key w = None \<Longrightarrow> nfree s' = nfree s \<Longrightarrow> flist s' = flist s \<Longrightarrow> at s' = (at s)(t := w) \<Longrightarrow> keys_ok s'"
  by (auto simp: keys_ok_def frees_def split: if_splits)

text \<open>A step of the thread that has the lock, which may change the list.\<close>

lemma pinv_inside:
  assumes "pinv s" "inside_lock (at s t)" "at s' = (at s)(t := w)" "lk s' = lk s \<or> \<not> inside_lock w" "keys_ok s'" "sees (nfree s') (flist s') w"
  shows "pinv s'"
proof -
  have u: "\<not> inside_lock (at s u)" if "u \<noteq> t" for u using assms(1,2) that by (auto simp: pinv_def locked_ok_def)
  have "lk s" using assms(1,2) by (auto simp: pinv_def locked_ok_def)
  then have "locked_ok s'" using u assms(3,4) by (auto simp: locked_ok_def)
  moreover have "sees (nfree s') (flist s') (at s' u)" for u using assms(3,6) u sees_outside by (cases "u = t") auto
  ultimately show ?thesis using assms(5) by (simp add: pinv_def)
qed

lemma pinv_move:
  assumes "pinv s" "inside_lock (at s t)" "at s' = (at s)(t := w)" "nfree s' = nfree s" "flist s' = flist s"
    "lk s' = lk s \<or> \<not> inside_lock w" "holds_key w = holds_key (at s t) \<or> holds_key w = None" "sees (nfree s) (flist s) w"
  shows "pinv s'"
proof -
  have "keys_ok s'" using assms(1,3-5,7) keys_moved keys_dropped unfolding pinv_def by metis
  then show ?thesis using pinv_inside [OF assms(1-3,6)] assms(4,5,8) by simp
qed

text \<open>A step of a thread that stays outside, or enters a lock nobody has.\<close>

lemma pinv_outside:
  assumes "pinv s" "\<not> inside_lock (at s t)" "at s' = (at s)(t := w)" "nfree s' = nfree s" "flist s' = flist s"
    "lk s' = lk s \<and> \<not> inside_lock w \<or> \<not> lk s \<and> lk s'" "holds_key w = holds_key (at s t) \<or> holds_key w = None" "sees (nfree s) (flist s) w"
  shows "pinv s'"
proof -
  have "keys_ok s'" using assms(1,3-5,7) keys_moved keys_dropped unfolding pinv_def by metis
  moreover have "locked_ok s'" using assms(1,3,6) by (auto simp: pinv_def locked_ok_def split: if_splits)
  ultimately show ?thesis using assms(1,3-5,8) by (auto simp: pinv_def)
qed

lemma pop_keys:
  assumes "keys_ok s" "nfree s = Suc k" "flist s ! k = key" "holds_key (at s t) = None"
  shows "keys_ok (go (s\<lparr>nfree := k\<rparr>) t (Claim key))"
proof -
  have f: "frees s = take k (flist s) @ [key]" using assms(1-3) by (simp add: frees_def keys_ok_def take_Suc_conv_app_nth)
  then show ?thesis using assms by (auto simp: keys_ok_def frees_def split: if_splits)
qed

lemma push_keys:
  assumes "keys_ok s" "nfree s = k" "k < length (flist s)" "flist s ! k = key" "holds_key (at s t) = Some key"
  shows "keys_ok (go (s\<lparr>nfree := k + 1\<rparr>) t Unlock)"
proof -
  have f: "take (k + 1) (flist s) = frees s @ [key]" using assms(2-4) by (simp add: frees_def take_Suc_conv_app_nth)
  have "key \<notin> set (frees s)" "\<And>u. u \<noteq> t \<Longrightarrow> holds_key (at s u) \<noteq> Some key" using assms(1,5) by (auto simp: keys_ok_def)
  then show ?thesis using assms(1,3) f by (auto simp: keys_ok_def frees_def split: if_splits)
qed

lemma slot_keys:
  assumes "keys_ok s" "nfree s = k" "k < length (flist s)" "holds_key (at s t) = Some key"
  shows "keys_ok (go (s\<lparr>flist := (flist s)[k := key]\<rparr>) t (PushMeta key k))"
  using assms by (auto simp: keys_ok_def frees_def split: if_splits)

lemma pinv_step:
  assumes "pstep s s'" "pinv s"
  shows "pinv s'"
  using assms
proof (cases rule: pstep.cases)
  case (time d)
  then show ?thesis using assms(2) by (auto simp: pinv_def locked_ok_def keys_ok_def frees_def)
next
  case (pop_read t)
  then show ?thesis by (intro pinv_move [OF assms(2), of t]) auto
next
  case (pop_slot t k key)
  have "sees (nfree s) (flist s) (at s t)" using assms(2) by (simp add: pinv_def)
  with pop_slot show ?thesis by (intro pinv_move [OF assms(2), of t]) (auto simp: array_lookup_def split: if_splits)
next
  case (pop_meta t k key)
  have "sees (nfree s) (flist s) (at s t)" using assms(2) by (simp add: pinv_def)
  then have k: "nfree s = Suc k" "flist s ! k = key" using pop_meta(2) by auto
  from pop_keys [OF _ k] assms(2) pop_meta show ?thesis
    by (intro pinv_inside [OF assms(2), of t]) (auto simp: pinv_def)
next
  case (push_slot t key k fl)
  have "sees (nfree s) (flist s) (at s t)" using assms(2) by (simp add: pinv_def)
  then have k: "nfree s = k" "k < length (flist s)" "fl = (flist s)[k := key]" using push_slot(2,3) by (auto simp: array_update_def split: if_splits)
  from slot_keys [OF _ k(1,2)] assms(2) push_slot k show ?thesis
    by (intro pinv_inside [OF assms(2), of t]) (auto simp: pinv_def)
next
  case (push_meta t key k)
  have "sees (nfree s) (flist s) (at s t)" using assms(2) by (simp add: pinv_def)
  then have k: "nfree s = k" "k < length (flist s)" "flist s ! k = key" using push_meta(2) by auto
  from push_keys [OF _ k] assms(2) push_meta show ?thesis
    by (intro pinv_inside [OF assms(2), of t]) (auto simp: pinv_def)
next
  case (start t)
  then show ?thesis by (intro pinv_outside [OF assms(2), of t]) auto
next
  case (give_up t)
  then show ?thesis by (intro pinv_outside [OF assms(2), of t]) auto
next
  case (spin_lost t i)
  then show ?thesis by (intro pinv_outside [OF assms(2), of t]) auto
next
  case (spin_won t i)
  then show ?thesis by (intro pinv_outside [OF assms(2), of t]) auto
next
  case (let_go t key)
  then show ?thesis by (intro pinv_outside [OF assms(2), of t]) auto
next
  case (rgive_up t key)
  then show ?thesis by (intro pinv_outside [OF assms(2), of t]) auto
next
  case (rspin_lost t i key)
  then show ?thesis by (intro pinv_outside [OF assms(2), of t]) auto
next
  case (rspin_won t i key)
  then show ?thesis by (intro pinv_outside [OF assms(2), of t]) auto
next
  case (stamp t)
  then show ?thesis by (intro pinv_move [OF assms(2), of t]) auto
next
  case (pop_empty t)
  then show ?thesis by (intro pinv_move [OF assms(2), of t]) auto
next
  case (pop_bad t k)
  then show ?thesis by (intro pinv_move [OF assms(2), of t]) auto
next
  case (claim_won t key)
  then show ?thesis by (intro pinv_move [OF assms(2), of t]) auto
next
  case (claim_lost t key)
  then show ?thesis by (intro pinv_move [OF assms(2), of t]) auto
next
  case (unlock_keep t key)
  then show ?thesis by (intro pinv_move [OF assms(2), of t]) auto
next
  case (unlock t)
  then show ?thesis by (intro pinv_move [OF assms(2), of t]) auto
next
  case (rstamp t key)
  then show ?thesis by (intro pinv_move [OF assms(2), of t]) auto
next
  case (push_read t key)
  then show ?thesis by (intro pinv_move [OF assms(2), of t]) auto
next
  case (push_full t key k)
  then show ?thesis by (intro pinv_move [OF assms(2), of t]) auto
qed


lemma pinv_reach: "preach n s \<Longrightarrow> pinv s"
proof (induction rule: preach.induct)
  case preach_init
  show ?case by (auto simp: pinv_def locked_ok_def keys_ok_def frees_def pinit_def)
qed (rule pinv_step)

section \<open>Runs of one thread\<close>

lemma run_enter:
  assumes "breach n s" "at s t = Out" "\<not> lk s"
  shows "breach n (s\<lparr>lk := True, at := (at s)(t := Stamped)\<rparr>)"
proof -
  have "breach n (go s t (Spin (Suc 4095)))" using breach_step [OF assms(1) start [of s t, OF assms(2)]] by (simp add: LOCK_TRIES_def)
  from breach_step [OF this spin_won [of _ t 4095]] assms(3) show ?thesis by simp
qed

lemma run_read:
  assumes "breach n s" "at s t = Stamped" "nfree s = Suc k" "k < length (flist s)"
  shows "breach n (s\<lparr>taken := clock s, at := (at s)(t := PopMeta k (flist s ! k))\<rparr>)"
proof -
  have 1: "breach n (s\<lparr>taken := clock s, at := (at s)(t := PopRead)\<rparr>)" using breach_step [OF assms(1) stamp [of s t]] assms(2) by simp
  have 2: "breach n (s\<lparr>taken := clock s, at := (at s)(t := PopSlot k)\<rparr>)" using breach_step [OF 1 pop_read [of _ t]] assms(3) by simp
  show ?thesis using breach_step [OF 2 pop_slot [of _ t k "flist s ! k"]] assms(4) by (simp add: array_lookup_def)
qed

lemma run_take:
  assumes "breach n s" "at s t = PopMeta k key"
  shows "breach n (s\<lparr>nfree := k, lk := False, at := (at s)(t := Has key)\<rparr>)"
proof -
  have 1: "breach n (s\<lparr>nfree := k, at := (at s)(t := Claim key)\<rparr>)" using breach_step [OF assms(1) pop_meta [of s t k key]] assms(2) by simp
  have 2: "breach n (s\<lparr>nfree := k, at := (at s)(t := UnlockKeep key)\<rparr>)" using breach_step [OF 1 claim_won [of _ t key]] by simp
  show ?thesis using breach_step [OF 2 unlock_keep [of _ t key]] by simp
qed

lemma run_give:
  assumes "breach n s" "at s t = Has key" "\<not> lk s" "nfree s < length (flist s)"
  shows "breach n (s\<lparr>taken := clock s, flist := (flist s)[nfree s := key], nfree := nfree s + 1, at := (at s)(t := Out)\<rparr>)"
proof -
  have 1: "breach n (go s t (RSpin (Suc 4095) key))" using breach_step [OF assms(1) let_go [of s t key]] assms(2) by (simp add: LOCK_TRIES_def)
  have 2: "breach n (s\<lparr>lk := True, at := (at s)(t := RStamped key)\<rparr>)" using breach_step [OF 1 rspin_won [of _ t 4095 key]] assms(3) by simp
  have 3: "breach n (s\<lparr>lk := True, taken := clock s, at := (at s)(t := PushRead key)\<rparr>)" using breach_step [OF 2 rstamp [of _ t key]] by simp
  have 4: "breach n (s\<lparr>lk := True, taken := clock s, at := (at s)(t := PushSlot key (nfree s))\<rparr>)" using breach_step [OF 3 push_read [of _ t key]] by simp
  have 5: "breach n (s\<lparr>lk := True, taken := clock s, flist := (flist s)[nfree s := key], at := (at s)(t := PushMeta key (nfree s))\<rparr>)"
    using breach_step [OF 4 push_slot [of _ t key "nfree s" "(flist s)[nfree s := key]"]] assms(4) by (simp add: array_update_def)
  have 6: "breach n (s\<lparr>lk := True, taken := clock s, flist := (flist s)[nfree s := key], nfree := nfree s + 1, at := (at s)(t := Unlock)\<rparr>)"
    using breach_step [OF 5 push_meta [of _ t key "nfree s"]] by simp
  have "s\<lparr>lk := False\<rparr> = s" using assms(3) by (cases s) simp
  with breach_step [OF 6 unlock [of _ t]] show ?thesis by (cases s) (simp add: assms(3))
qed

text \<open>The work left for a thread before its call returns.\<close>

fun rank :: "place \<Rightarrow> nat" where
  "rank Out = 0" | "rank (Has _) = 0" | "rank Unlock = 1" | "rank (UnlockKeep _) = 1" | "rank (PushMeta _ _) = 2"
| "rank (PushSlot _ _) = 3" | "rank (PushRead _) = 4" | "rank (RStamped _) = 5" | "rank (RSpin n _) = 6 + n"
| "rank (Claim _) = 5" | "rank (PopMeta _ _) = 6" | "rank (PopSlot _) = 7" | "rank PopRead = 8" | "rank Stamped = 9" | "rank (Spin n) = 10 + n"

definition idle :: "place \<Rightarrow> bool" where
  "idle w \<longleftrightarrow> rank w = 0"

lemma moved: "pstep s s' \<Longrightarrow> at s' t \<noteq> at s t \<Longrightarrow> \<exists>s'. pstep s s' \<and> at s' t \<noteq> at s t"
  by blast

lemma spin_progress:
  "at s t = Spin n \<Longrightarrow> \<exists>s'. pstep s s' \<and> at s' t \<noteq> at s t"
  using moved [OF give_up [of s t], of t] moved [OF spin_lost [of s t], of "n - 1" t] moved [OF spin_won [of s t], of "n - 1" t]
  by (cases n; cases "lk s") simp_all

lemma rspin_progress:
  "at s t = RSpin n key \<Longrightarrow> \<exists>s'. pstep s s' \<and> at s' t \<noteq> at s t"
  using moved [OF rgive_up [of s t], of key t] moved [OF rspin_lost [of s t], of "n - 1" key t] moved [OF rspin_won [of s t], of "n - 1" key t]
  by (cases n; cases "lk s") simp_all

lemma read_progress: "at s t = PopRead \<Longrightarrow> \<exists>s'. pstep s s' \<and> at s' t \<noteq> at s t"
  using moved [OF pop_empty [of s t], of t] moved [OF pop_read [of s t], of t] by (cases "nfree s = 0") simp_all

lemma slot_progress: "at s t = PopSlot k \<Longrightarrow> \<exists>s'. pstep s s' \<and> at s' t \<noteq> at s t"
  using moved [OF pop_bad [of s t], of k t] moved [OF pop_slot [of s t], of k _ t]
  by (cases "array_lookup (flist s) k") simp_all

lemma push_progress: "at s t = PushSlot key k \<Longrightarrow> \<exists>s'. pstep s s' \<and> at s' t \<noteq> at s t"
  using moved [OF push_full [of s t], of key k t] moved [OF push_slot [of s t], of key k _ t]
  by (cases "array_update (flist s) k key") simp_all

lemma thread_progress:
  assumes "\<not> idle (at s t)"
  shows "\<exists>s'. pstep s s' \<and> at s' t \<noteq> at s t"
proof (cases "at s t")
  case Stamped
  show ?thesis by (rule moved [OF stamp [of s t]]) (simp_all add: Stamped)
next
  case (PopMeta k key)
  show ?thesis by (rule moved [OF pop_meta [of s t]]) (simp_all add: PopMeta)
next
  case (Claim key)
  show ?thesis by (rule moved [OF claim_won [of s t]]) (simp_all add: Claim)
next
  case (UnlockKeep key)
  show ?thesis by (rule moved [OF unlock_keep [of s t]]) (simp_all add: UnlockKeep)
next
  case (RStamped key)
  show ?thesis by (rule moved [OF rstamp [of s t]]) (simp_all add: RStamped)
next
  case (PushRead key)
  show ?thesis by (rule moved [OF push_read [of s t]]) (simp_all add: PushRead)
next
  case (PushMeta key k)
  show ?thesis by (rule moved [OF push_meta [of s t]]) (simp_all add: PushMeta)
next
  case Unlock
  show ?thesis by (rule moved [OF unlock [of s t]]) (simp_all add: Unlock)
qed (use assms spin_progress rspin_progress read_progress slot_progress push_progress in \<open>simp_all add: idle_def\<close>)

section \<open>Properties\<close>



text \<open>
  C15: no client waits for another. A thread in the middle of \<open>acquire\<close> or \<open>release\<close> always has a next step of its own, whatever the others do, and every such step
  brings it closer to the end of its call: the call is over after at most 4106 of them.
\<close>

theorem bounded_wait:
  "(\<not> idle (at s t) \<longrightarrow> (\<exists>s'. pstep s s' \<and> at s' t \<noteq> at s t))
   \<and> (\<forall>s'. pstep s s' \<longrightarrow> \<not> idle (at s t) \<longrightarrow> at s' t \<noteq> at s t \<longrightarrow> rank (at s' t) < rank (at s t))
   \<and> rank (Spin LOCK_TRIES) = 4106"
proof (intro conjI allI impI)
  show "\<not> idle (at s t) \<Longrightarrow> \<exists>s'. pstep s s' \<and> at s' t \<noteq> at s t" by (rule thread_progress)
next
  fix s' assume "pstep s s'" "\<not> idle (at s t)" "at s' t \<noteq> at s t"
  then show "rank (at s' t) < rank (at s t)"
    by (cases rule: pstep.cases) (auto simp: idle_def split: if_splits)
qed (simp add: LOCK_TRIES_def)


theorem bounded_wait_witness: "\<exists>s'. pstep (go (pinit 1) 0 (Spin 0)) s' \<and> at s' 0 \<noteq> Spin 0"
  using bounded_wait [of "go (pinit 1) 0 (Spin 0)" 0] by (simp add: idle_def)

text \<open>
  C39: breaking the lock does not wait for a dead holder. The stamp is written after the lock is taken and never cleared, so a lock taken this very instant still carries the
  stamp of the last holder and is stale if that was a second ago; once the daemon breaks it, two running clients come away with the same pipe.
\<close>

theorem broken_lock_shares_pipe:
  "(\<exists>s s'. breach 1 s \<and> \<not> lk s \<and> pstep s s' \<and> stale s')
   \<and> (\<exists>s. breach 1 s \<and> at s 1 = Has 0 \<and> at s 2 = Has 0)"
proof -
  let ?s = "\<lambda>l n k f. \<lparr>lk = l, taken = n, clock = k, nfree = f, flist = [0], at = \<lambda>_. Out\<rparr>"
  have 1: "breach 1 ((?s False 1 1 0)\<lparr>at := (\<lambda>_. Out)(0 := Has 0)\<rparr>)"
    using run_take [OF run_read [OF run_enter [OF breach_init, of 1 0]], of 0 0 0 0] by (simp add: pinit_def)
  have 2: "breach 1 (?s False 1 1 1)" using run_give [OF 1, of 0 0] by (simp add: fun_upd_idem)
  let ?late = "?s False 1 1000000001 1"
  have 3: "breach 1 ?late" using breach_step [OF 2 time [of _ 1000000000]] by simp
  have 4: "breach 1 (go ?late 1 (Spin (Suc 4095)))" using breach_step [OF 3 start [of _ 1]] by (simp add: LOCK_TRIES_def)
  have 5: "pstep (go ?late 1 (Spin (Suc 4095))) (?late\<lparr>lk := True, at := (\<lambda>_. Out)(1 := Stamped)\<rparr>)"
    using spin_won [of "go ?late 1 (Spin (Suc 4095))" 1 4095] by simp
  have 6: "stale (?late\<lparr>lk := True, at := (\<lambda>_. Out)(1 := Stamped)\<rparr>)" by (simp add: stale_def NS_PER_S_def)
  have 7: "breach 1 (?late\<lparr>at := (\<lambda>_. Out)(1 := Stamped)\<rparr>)"
    using breach_tick [OF breach_step [OF 4 5]] 6 by (simp add: breakLock_def)
  have 8: "breach 1 (?late\<lparr>taken := 1000000001, at := (\<lambda>_. Out)(1 := PopMeta 0 0)\<rparr>)"
    using run_read [OF 7, of 1 0] by simp
  have 9: "breach 1 (?late\<lparr>taken := 1000000001, nfree := 0, at := (\<lambda>_. Out)(1 := PopMeta 0 0, 2 := Has 0)\<rparr>)"
    using run_take [OF run_read [OF run_enter [OF 8, of 2]], of 2 0 2 0 0] by simp
  let ?both = "?late\<lparr>taken := 1000000001, nfree := 0, at := (\<lambda>_. Out)(2 := Has 0, 1 := Has 0)\<rparr>"
  have "breach 1 ?both"
    using run_take [OF 9, of 1 0 0] by (simp add: fun_upd_twist)
  then have "\<exists>s. breach 1 s \<and> at s 1 = Has 0 \<and> at s 2 = Has 0" by (intro exI [of _ ?both]) simp
  moreover have "breach 1 (go ?late 1 (Spin (Suc 4095))) \<and> \<not> lk (go ?late 1 (Spin (Suc 4095)))" using 4 by simp
  ultimately show ?thesis using 5 6 by blast
qed

end
