(* ===== verification/Valkey.thy ===== *)
theory Valkey
  imports Wire
begin

text \<open>
  The Valkey client of \<open>src/src/common/valkey.{h,cpp}\<close>. The network is what its system calls return from now on:
  the results of the successive \<open>read\<close>, \<open>write\<close> and connection attempts, in order. A script that has run out stands for
  a peer that is gone. \<open>sent\<close> collects the bytes written.
\<close>

datatype rd = Got bytes | ReadEintr | ReadFail
datatype wr = Wrote nat | WriteEintr | WriteFail

record valkey =
  fd_open :: bool
  host :: bytes
  port :: nat
  inbuf :: bytes
  reads :: "rd list"
  writes :: "wr list"
  connects :: "bool list"
  sent :: bytes

definition CRLF :: bytes where "CRLF = [13, 10]"

section \<open>The library functions it uses\<close>

fun to_string :: "nat \<Rightarrow> bytes" where
  "to_string n = (if n < 10 then [of_nat (48 + n)] else to_string (n div 10) @ [of_nat (48 + n mod 10)])"

declare to_string.simps [simp del]

definition is_digit :: "u8 \<Rightarrow> bool" where
  "is_digit b \<longleftrightarrow> 48 \<le> b \<and> b \<le> 57"

fun digits_value :: "nat \<Rightarrow> bytes \<Rightarrow> nat" where
  "digits_value acc [] = acc"
| "digits_value acc (b # bs) = (if is_digit b then digits_value (acc * 10 + (unat b - 48)) bs else acc)"

definition is_space :: "u8 \<Rightarrow> bool" where
  "is_space b \<longleftrightarrow> b = 32 \<or> 9 \<le> b \<and> b \<le> 13"

definition LONG_MAX :: int where "LONG_MAX = 2 ^ 63 - 1"

text \<open>\<open>strtol(s, nullptr, 10)\<close>: blanks, a sign, digits, saturating at the range of a \<open>long\<close>.\<close>

definition strtol :: "bytes \<Rightarrow> int" where
  "strtol s =
     (let s = dropWhile is_space s;
          neg = (s \<noteq> [] \<and> hd s = 45);
          s = (if s \<noteq> [] \<and> (hd s = 45 \<or> hd s = 43) then tl s else s);
          n = int (digits_value 0 s)
      in if neg then max (- n) (- LONG_MAX - 1) else min n LONG_MAX)"

text \<open>\<open>inbuf_.find("\r\n")\<close>.\<close>

fun find_crlf :: "bytes \<Rightarrow> nat option" where
  "find_crlf (a # b # bs) = (if a = 13 \<and> b = 10 then Some 0 else map_option Suc (find_crlf (b # bs)))"
| "find_crlf _ = None"

section \<open>The client\<close>

definition healthy :: "valkey \<Rightarrow> bool" where
  "healthy v = fd_open v"

definition disconnect :: "valkey \<Rightarrow> valkey" where
  "disconnect v = v\<lparr>fd_open := False, inbuf := []\<rparr>"

definition vk_connect :: "bytes \<Rightarrow> nat \<Rightarrow> valkey \<Rightarrow> bool \<times> valkey" where
  "vk_connect h p v =
     (if fd_open v then (True, v)
      else let v = v\<lparr>host := h, port := p\<rparr>
        in case connects v of
             [] \<Rightarrow> (False, v)
           | c # cs \<Rightarrow> (c, v\<lparr>connects := cs, fd_open := c\<rparr>))"

definition resp_bulk :: "bytes \<Rightarrow> bytes" where
  "resp_bulk a = [36] @ to_string (length a) @ CRLF @ a @ CRLF"

definition resp_command :: "bytes list \<Rightarrow> bytes" where
  "resp_command args = [42] @ to_string (length args) @ CRLF @ concat (map resp_bulk args)"

text \<open>The write loop, with what is left of \<open>out\<close> from \<open>off\<close> on.\<close>

function sendLoop :: "bytes \<Rightarrow> valkey \<Rightarrow> bool \<times> valkey" where
  "sendLoop out v =
     (if out = [] then (True, v)
      else case writes v of
        [] \<Rightarrow> (False, disconnect v)
      | WriteFail # ws \<Rightarrow> (False, disconnect (v\<lparr>writes := ws\<rparr>))
      | WriteEintr # ws \<Rightarrow> sendLoop out (v\<lparr>writes := ws\<rparr>)
      | Wrote n # ws \<Rightarrow>
          if n = 0 then (False, disconnect (v\<lparr>writes := ws\<rparr>))
          else sendLoop (drop n out) (v\<lparr>writes := ws, sent := sent v @ take n out\<rparr>))"
  by pat_completeness auto
termination by (relation "measure (\<lambda>(out, v). length (writes v))") auto

definition sendCommand :: "bytes list \<Rightarrow> valkey \<Rightarrow> bool \<times> valkey" where
  "sendCommand args v = sendLoop (resp_command args) v"

function readLine :: "valkey \<Rightarrow> bytes option \<times> valkey" where
  "readLine v =
     (case find_crlf (inbuf v) of
        Some nl \<Rightarrow> (Some (take nl (inbuf v)), v\<lparr>inbuf := drop (nl + 2) (inbuf v)\<rparr>)
      | None \<Rightarrow>
          (case reads v of
             [] \<Rightarrow> (None, disconnect v)
           | ReadFail # rs \<Rightarrow> (None, disconnect (v\<lparr>reads := rs\<rparr>))
           | ReadEintr # rs \<Rightarrow> readLine (v\<lparr>reads := rs\<rparr>)
           | Got bs # rs \<Rightarrow>
               if bs = [] then (None, disconnect (v\<lparr>reads := rs\<rparr>))
               else readLine (v\<lparr>reads := rs, inbuf := inbuf v @ bs\<rparr>)))"
  by pat_completeness auto
termination by (relation "measure (\<lambda>v. length (reads v))") auto

function vk_readExactly :: "nat \<Rightarrow> valkey \<Rightarrow> bytes option \<times> valkey" where
  "vk_readExactly want v =
     (if length (inbuf v) < want
      then (case reads v of
              [] \<Rightarrow> (None, disconnect v)
            | ReadFail # rs \<Rightarrow> (None, disconnect (v\<lparr>reads := rs\<rparr>))
            | ReadEintr # rs \<Rightarrow> vk_readExactly want (v\<lparr>reads := rs\<rparr>)
            | Got bs # rs \<Rightarrow>
                if bs = [] then (None, disconnect (v\<lparr>reads := rs\<rparr>))
                else vk_readExactly want (v\<lparr>reads := rs, inbuf := inbuf v @ bs\<rparr>))
      else (Some (take want (inbuf v)), v\<lparr>inbuf := drop want (inbuf v)\<rparr>))"
  by pat_completeness auto
termination by (relation "measure (\<lambda>(want, v). length (reads v))") auto

declare sendLoop.simps [simp del] readLine.simps [simp del] vk_readExactly.simps [simp del]

text \<open>\<open>if (fd_ < 0 && !connect(host_, port_)) return false;\<close>\<close>

definition ensure_connected :: "valkey \<Rightarrow> bool \<times> valkey" where
  "ensure_connected v = (if fd_open v then (True, v) else vk_connect (host v) (port v) v)"

definition vk_get :: "bytes \<Rightarrow> valkey \<Rightarrow> bytes option \<times> valkey" where
  "vk_get key v =
     (let (up, v) = ensure_connected v in
      if \<not> up then (None, v)
      else let (ok, v) = sendCommand [lit ''GET'', key] v in
      if \<not> ok then (None, v)
      else let (line, v) = readLine v in
      case line of
        None \<Rightarrow> (None, v)
      | Some [] \<Rightarrow> (None, v)
      | Some (c # cs) \<Rightarrow>
          if c = 36
          then let n = strtol cs in
            if n < 0 then (None, v)
            else (case vk_readExactly (nat n + 2) v of
                    (None, v) \<Rightarrow> (None, v)
                  | (Some body, v) \<Rightarrow> (Some (take (nat n) body), v))
          else if c = 45 then (None, v)
          else (None, disconnect v))"

definition vk_dbsize :: "valkey \<Rightarrow> int option \<times> valkey" where
  "vk_dbsize v =
     (let (up, v) = ensure_connected v in
      if \<not> up then (None, v)
      else let (ok, v) = sendCommand [lit ''DBSIZE''] v in
      if \<not> ok then (None, v)
      else let (line, v) = readLine v in
      case line of
        None \<Rightarrow> (None, v)
      | Some l \<Rightarrow> if length l < 2 \<or> hd l \<noteq> 58 then (None, v) else (Some (strtol (tl l)), v))"

text \<open>The seconds as \<open>std::to_string\<close> prints them; after the clamp they are positive.\<close>

definition vk_setex :: "bytes \<Rightarrow> bytes \<Rightarrow> int \<Rightarrow> valkey \<Rightarrow> bool \<times> valkey" where
  "vk_setex key val ttl_secs v =
     (let (up, v) = ensure_connected v in
      if \<not> up then (False, v)
      else let ttl_secs = (if ttl_secs \<le> 0 then 1 else ttl_secs);
               (ok, v) = sendCommand [lit ''SETEX'', key, to_string (nat ttl_secs), val] v in
      if \<not> ok then (False, v)
      else let (line, v) = readLine v in
      case line of
        None \<Rightarrow> (False, v)
      | Some l \<Rightarrow> (l \<noteq> [] \<and> hd l = 43, v))"


section \<open>What the scripts deliver\<close>

text \<open>The bytes a sequence of reads delivers before it fails, and the number a sequence of writes accepts.\<close>

fun arrives :: "rd list \<Rightarrow> bytes" where
  "arrives (Got bs # rs) = (if bs = [] then [] else bs @ arrives rs)"
| "arrives (ReadEintr # rs) = arrives rs"
| "arrives _ = []"

fun accepts :: "wr list \<Rightarrow> nat" where
  "accepts (Wrote n # ws) = (if n = 0 then 0 else n + accepts ws)"
| "accepts (WriteEintr # ws) = accepts ws"
| "accepts _ = 0"

text \<open>What has come in and what is still to come.\<close>

definition stream_in :: "valkey \<Rightarrow> bytes" where
  "stream_in v = inbuf v @ arrives (reads v)"

text \<open>A reader of the wire format on the other side, the reference for the encoder.\<close>

definition take_line :: "bytes \<Rightarrow> (bytes \<times> bytes) option" where
  "take_line bs = map_option (\<lambda>nl. (take nl bs, drop (nl + 2) bs)) (find_crlf bs)"

definition resp_parse_bulk :: "bytes \<Rightarrow> (bytes \<times> bytes) option" where
  "resp_parse_bulk bs =
     (case bs of
        [] \<Rightarrow> None
      | c # cs \<Rightarrow>
          if c \<noteq> 36 then None
          else (case take_line cs of
                  None \<Rightarrow> None
                | Some (l, r) \<Rightarrow>
                    let n = digits_value 0 l
                    in if take 2 (drop n r) = CRLF then Some (take n r, drop (n + 2) r) else None))"

fun resp_parse_bulks :: "nat \<Rightarrow> bytes \<Rightarrow> (bytes list \<times> bytes) option" where
  "resp_parse_bulks 0 bs = Some ([], bs)"
| "resp_parse_bulks (Suc n) bs =
     (case resp_parse_bulk bs of
        None \<Rightarrow> None
      | Some (a, r) \<Rightarrow> map_option (\<lambda>(as, r). (a # as, r)) (resp_parse_bulks n r))"

definition resp_parse :: "bytes \<Rightarrow> (bytes list \<times> bytes) option" where
  "resp_parse bs =
     (case bs of
        [] \<Rightarrow> None
      | c # cs \<Rightarrow> if c \<noteq> 42 then None
          else (case take_line cs of None \<Rightarrow> None | Some (l, r) \<Rightarrow> resp_parse_bulks (digits_value 0 l) r))"

section \<open>Numbers\<close>

lemma digit_byte: "n < 10 \<Longrightarrow> is_digit (of_nat (48 + n)) \<and> unat (of_nat (48 + n) :: u8) = 48 + n"
proof -
  assume n: "n < 10"
  then have "unat (of_nat (48 + n) :: u8) = 48 + n" by (simp only: unat_of_nat) simp
  with n show ?thesis by (simp add: is_digit_def word_le_nat_alt)
qed

lemma to_string_digits: "b \<in> set (to_string n) \<Longrightarrow> is_digit b"
proof (induction n rule: to_string.induct)
  case (1 n)
  then show ?case using digit_byte [of n] digit_byte [of "n mod 10"]
    by (subst (asm) (2) to_string.simps) (auto split: if_splits)
qed

lemma to_string_ne: "to_string n \<noteq> []"
  by (subst to_string.simps) simp

lemma digits_value_append:
  "\<forall>b\<in>set xs. is_digit b \<Longrightarrow> digits_value acc (xs @ ys) = digits_value (digits_value acc xs) ys"
  by (induction xs arbitrary: acc) auto

lemma digits_to_string: "digits_value 0 (to_string n) = n"
proof (induction n rule: to_string.induct)
  case (1 n)
  show ?case
  proof (cases "n < 10")
    case True
    then show ?thesis using digit_byte [of n] by (simp add: to_string.simps [of n])
  next
    case False
    then have "to_string n = to_string (n div 10) @ [of_nat (48 + n mod 10)]" by (simp add: to_string.simps [of n])
    moreover have "digits_value 0 (to_string (n div 10) @ [of_nat (48 + n mod 10)]) = n"
      using 1 [OF False] digit_byte [of "n mod 10"] by (subst digits_value_append) (auto dest: to_string_digits)
    ultimately show ?thesis by simp
  qed
qed

lemma digit_not: "is_digit b \<Longrightarrow> b \<noteq> 13 \<and> \<not> is_space b \<and> b \<noteq> 45 \<and> b \<noteq> 43"
  by (auto simp: is_digit_def is_space_def word_le_nat_alt)

lemma strtol_to_string: "strtol (to_string n) = min (int n) LONG_MAX"
proof -
  obtain b bs where b: "to_string n = b # bs" using to_string_ne by (cases "to_string n") auto
  then have "is_digit b" using to_string_digits [of b n] by simp
  then show ?thesis using digit_not [of b] digits_to_string [of n] by (simp add: strtol_def b)
qed

section \<open>Lines\<close>

lemma find_crlf_bound: "find_crlf bs = Some k \<Longrightarrow> k + 2 \<le> length bs"
  by (induction bs arbitrary: k rule: find_crlf.induct) (auto split: if_splits)

lemma find_crlf_append: "find_crlf bs = Some k \<Longrightarrow> find_crlf (bs @ cs) = Some k"
  by (induction bs arbitrary: k rule: find_crlf.induct) (auto split: if_splits)

lemma find_crlf_line: "13 \<notin> set l \<Longrightarrow> find_crlf (l @ CRLF @ r) = Some (length l)"
proof (induction l)
  case (Cons a l)
  then show ?case by (cases l) (auto simp: CRLF_def)
qed (simp add: CRLF_def)

lemma take_line_line: "13 \<notin> set l \<Longrightarrow> take_line (l @ CRLF @ r) = Some (l, r)"
  using find_crlf_line [of l r] by (simp add: take_line_def) (simp add: CRLF_def)

lemma take_line_number [simp]: "take_line (to_string n @ CRLF @ r) = Some (to_string n, r)"
  by (rule take_line_line) (metis to_string_digits digit_not)

section \<open>Reading and writing through short calls\<close>

lemma sendLoop_ok:
  "length out \<le> accepts (writes v) \<Longrightarrow> \<exists>ws. sendLoop out v = (True, v\<lparr>writes := ws, sent := sent v @ out\<rparr>)"
proof (induction out v rule: sendLoop.induct)
  case (1 out v)
  show ?case
  proof (cases "out = []")
    case True
    then have "sendLoop out v = (True, v\<lparr>writes := writes v, sent := sent v @ out\<rparr>)" by (simp add: sendLoop.simps)
    then show ?thesis ..
  next
    case False
    then consider (w) n ws where "writes v = Wrote n # ws" "n \<noteq> 0" | (e) ws where "writes v = WriteEintr # ws"
      using 1(3) by (cases "writes v" rule: accepts.cases) (auto split: if_splits)
    then show ?thesis
    proof cases
      case w
      let ?v = "v\<lparr>writes := ws, sent := sent v @ take n out\<rparr>"
      obtain ws' where "sendLoop (drop n out) ?v = (True, ?v\<lparr>writes := ws', sent := sent ?v @ drop n out\<rparr>)"
        using 1(1) [OF False w(1) refl w(2)] 1(3) w by (simp add: le_diff_conv) (metis add.commute le_diff_conv)
      then have "sendLoop out v = (True, v\<lparr>writes := ws', sent := sent v @ out\<rparr>)"
        using False w by (subst sendLoop.simps) simp
      then show ?thesis ..
    next
      case e
      then show ?thesis using 1(2) [OF False e refl] 1(3) False by (subst sendLoop.simps) auto
    qed
  qed
qed

lemma sendLoop_fail: "accepts (writes v) < length out \<Longrightarrow> fst (sendLoop out v) = False \<and> \<not> fd_open (snd (sendLoop out v))"
proof (induction out v rule: sendLoop.induct)
  case (1 out v)
  then have "out \<noteq> []" by auto
  with 1 show ?case
    by (cases "writes v" rule: accepts.cases) (auto simp: sendLoop.simps [of out v] disconnect_def split: if_splits)
qed

lemma readLine_ok:
  "find_crlf (stream_in v) = Some nl \<Longrightarrow>
   \<exists>i rs. readLine v = (Some (take nl (stream_in v)), v\<lparr>inbuf := i, reads := rs\<rparr>) \<and> i @ arrives rs = drop (nl + 2) (stream_in v)"
proof (induction v rule: readLine.induct)
  case (1 v)
  show ?case
  proof (cases "find_crlf (inbuf v)")
    case None
    then consider (g) bs rs where "reads v = Got bs # rs" "bs \<noteq> []" | (e) rs where "reads v = ReadEintr # rs"
      using 1(3) by (cases "reads v" rule: arrives.cases) (auto simp: stream_in_def split: if_splits)
    then show ?thesis
    proof cases
      case g
      let ?v = "v\<lparr>reads := rs, inbuf := inbuf v @ bs\<rparr>"
      have s: "stream_in ?v = stream_in v" using g by (simp add: stream_in_def)
      have "readLine v = readLine ?v" using None g by (subst readLine.simps) simp
      then show ?thesis using 1(1) [OF None g(1) refl g(2)] 1(3) s by auto
    next
      case e
      let ?v = "v\<lparr>reads := rs\<rparr>"
      have s: "stream_in ?v = stream_in v" using e by (simp add: stream_in_def)
      have "readLine v = readLine ?v" using None e by (subst readLine.simps) simp
      then show ?thesis using 1(2) [OF None e refl] 1(3) s by auto
    qed
  next
    case (Some k)
    from find_crlf_append [OF this, of "arrives (reads v)"] 1(3) have k: "k = nl" by (simp add: stream_in_def)
    have b: "nl + 2 \<le> length (inbuf v)" using find_crlf_bound [OF Some] k by simp
    have "readLine v = (Some (take nl (stream_in v)), v\<lparr>inbuf := drop (nl + 2) (inbuf v), reads := reads v\<rparr>)"
      using Some k b by (subst readLine.simps) (simp add: stream_in_def)
    moreover have "drop (nl + 2) (inbuf v) @ arrives (reads v) = drop (nl + 2) (stream_in v)"
      using b by (simp add: stream_in_def)
    ultimately show ?thesis by blast
  qed
qed

lemma readExactly_ok:
  "want \<le> length (stream_in v) \<Longrightarrow>
   \<exists>i rs. vk_readExactly want v = (Some (take want (stream_in v)), v\<lparr>inbuf := i, reads := rs\<rparr>) \<and> i @ arrives rs = drop want (stream_in v)"
proof (induction want v rule: vk_readExactly.induct)
  case (1 want v)
  show ?case
  proof (cases "length (inbuf v) < want")
    case True
    then consider (g) bs rs where "reads v = Got bs # rs" "bs \<noteq> []" | (e) rs where "reads v = ReadEintr # rs"
      using 1(3) by (cases "reads v" rule: arrives.cases) (auto simp: stream_in_def split: if_splits)
    then show ?thesis
    proof cases
      case g
      let ?v = "v\<lparr>reads := rs, inbuf := inbuf v @ bs\<rparr>"
      have s: "stream_in ?v = stream_in v" using g by (simp add: stream_in_def)
      have "vk_readExactly want v = vk_readExactly want ?v" using True g by (subst vk_readExactly.simps) simp
      then show ?thesis using 1(1) [OF True g(1) refl g(2)] 1(3) s by auto
    next
      case e
      let ?v = "v\<lparr>reads := rs\<rparr>"
      have s: "stream_in ?v = stream_in v" using e by (simp add: stream_in_def)
      have "vk_readExactly want v = vk_readExactly want ?v" using True e by (subst vk_readExactly.simps) simp
      then show ?thesis using 1(2) [OF True e refl] 1(3) s by auto
    qed
  next
    case False
    then have "vk_readExactly want v = (Some (take want (stream_in v)), v\<lparr>inbuf := drop want (inbuf v), reads := reads v\<rparr>)"
      by (subst vk_readExactly.simps) (simp add: stream_in_def)
    moreover have "drop want (inbuf v) @ arrives (reads v) = drop want (stream_in v)"
      using False by (simp add: stream_in_def)
    ultimately show ?thesis by blast
  qed
qed


section \<open>The operations\<close>

lemma sendCommand_ok:
  "length (resp_command args) \<le> accepts (writes v) \<Longrightarrow>
   \<exists>ws. sendCommand args v = (True, v\<lparr>writes := ws, sent := sent v @ resp_command args\<rparr>)"
  unfolding sendCommand_def by (rule sendLoop_ok)

lemma get_after_send:
  assumes "fd_open v" "inbuf v = []" "length (resp_command [lit ''GET'', key]) \<le> accepts (writes v)"
    "arrives (reads v) = c # cs @ CRLF @ r" "13 \<notin> set cs" "c \<noteq> 13"
  obtains ws i rs where "i @ arrives rs = r"
    "vk_get key v = (let v = v\<lparr>writes := ws, sent := sent v @ resp_command [lit ''GET'', key], inbuf := i, reads := rs\<rparr> in
       if c = 36
       then let n = strtol cs in
         if n < 0 then (None, v)
         else (case vk_readExactly (nat n + 2) v of
                 (None, v) \<Rightarrow> (None, v)
               | (Some body, v) \<Rightarrow> (Some (take (nat n) body), v))
       else if c = 45 then (None, v)
       else (None, disconnect v))"
proof -
  let ?cmd = "resp_command [lit ''GET'', key]"
  obtain ws where ws: "sendCommand [lit ''GET'', key] v = (True, v\<lparr>writes := ws, sent := sent v @ ?cmd\<rparr>)"
    using sendCommand_ok [OF assms(3)] by blast
  let ?v = "v\<lparr>writes := ws, sent := sent v @ ?cmd\<rparr>"
  have s: "stream_in ?v = (c # cs) @ CRLF @ r" using assms(2,4) by (simp add: stream_in_def)
  have f: "find_crlf (stream_in ?v) = Some (length (c # cs))" unfolding s by (rule find_crlf_line) (use assms(5,6) in simp)
  obtain i rs where ir: "readLine ?v = (Some (take (length (c # cs)) (stream_in ?v)), ?v\<lparr>inbuf := i, reads := rs\<rparr>)"
    "i @ arrives rs = drop (length (c # cs) + 2) (stream_in ?v)" using readLine_ok [OF f] by blast
  have "take (length (c # cs)) (stream_in ?v) = c # cs" "i @ arrives rs = r" using ir(2) by (auto simp: s CRLF_def)
  then show ?thesis using ir(1) ws assms(1) that [of i rs ws]
    by (simp add: vk_get_def ensure_connected_def Let_def)
qed

lemma vk_readExactly_bound: "vk_readExactly want v = (Some body, v') \<Longrightarrow> length body = want"
  by (induction want v rule: vk_readExactly.induct)
    (subst (asm) (3) vk_readExactly.simps, auto split: if_splits list.splits rd.splits)

lemma vk_get_bound:
  assumes "vk_get key v = (Some val, v')"
  shows "length val < 2 ^ 63"
proof -
  obtain cs v1 body where b: "vk_readExactly (nat (strtol cs) + 2) v1 = (Some body, v')" "val = take (nat (strtol cs)) body"
    using assms by (auto simp: vk_get_def Let_def split: prod.splits if_splits option.splits list.splits)
  have "strtol cs \<le> LONG_MAX" by (simp add: strtol_def Let_def LONG_MAX_def)
  then have "nat (strtol cs) < 2 ^ 63" by (simp add: LONG_MAX_def)
  then show ?thesis using b(2) by simp
qed

lemma vk_get_value:
  assumes "fd_open v" "inbuf v = []" "length (resp_command [lit ''GET'', key]) \<le> accepts (writes v)"
    and a: "arrives (reads v) = resp_bulk val @ rest" and l: "length val < 2 ^ 63"
  shows "\<exists>v'. vk_get key v = (Some val, v') \<and> healthy v' \<and> stream_in v' = rest"
proof -
  have a': "arrives (reads v) = 36 # to_string (length val) @ CRLF @ (val @ CRLF @ rest)" using a by (simp add: resp_bulk_def)
  have no: "13 \<notin> set (to_string (length val))" using to_string_digits digit_not by metis
  have n: "strtol (to_string (length val)) = int (length val)" using l by (simp add: strtol_to_string LONG_MAX_def)
  have c: "(36 :: u8) \<noteq> 13" by simp
  obtain ws i rs where g: "i @ arrives rs = val @ CRLF @ rest"
    "vk_get key v = (let v = v\<lparr>writes := ws, sent := sent v @ resp_command [lit ''GET'', key], inbuf := i, reads := rs\<rparr> in
       if (36 :: u8) = 36
       then let n = strtol (to_string (length val)) in
         if n < 0 then (None, v)
         else (case vk_readExactly (nat n + 2) v of
                 (None, v) \<Rightarrow> (None, v)
               | (Some body, v) \<Rightarrow> (Some (take (nat n) body), v))
       else if (36 :: u8) = 45 then (None, v)
       else (None, disconnect v))"
    by (rule get_after_send [OF assms(1-3) a' no c])
  let ?v = "v\<lparr>writes := ws, sent := sent v @ resp_command [lit ''GET'', key], inbuf := i, reads := rs\<rparr>"
  have s: "stream_in ?v = val @ CRLF @ rest" using g(1) by (simp add: stream_in_def)
  then have "length val + 2 \<le> length (stream_in ?v)" by (simp add: CRLF_def)
  from readExactly_ok [OF this] obtain j qs where r: "vk_readExactly (length val + 2) ?v = (Some (take (length val + 2) (stream_in ?v)), ?v\<lparr>inbuf := j, reads := qs\<rparr>)"
    "j @ arrives qs = drop (length val + 2) (stream_in ?v)" by blast
  have "vk_get key v = (Some val, ?v\<lparr>inbuf := j, reads := qs\<rparr>)" "stream_in (?v\<lparr>inbuf := j, reads := qs\<rparr>) = rest"
    using g(2) n r(1,2) [unfolded s] by (auto simp: CRLF_def stream_in_def)
  then show ?thesis using assms(1) by (intro exI conjI) (auto simp: healthy_def)
qed

lemma vk_get_nil:
  assumes "fd_open v" "inbuf v = []" "length (resp_command [lit ''GET'', key]) \<le> accepts (writes v)"
    and a: "arrives (reads v) = lit ''$-1'' @ CRLF @ rest"
  shows "\<exists>v'. vk_get key v = (None, v') \<and> healthy v' \<and> stream_in v' = rest"
proof -
  have a': "arrives (reads v) = 36 # [45, 49] @ CRLF @ rest" using a by (simp add: lit_def)
  have n: "strtol [45, 49] = -1" by (simp add: strtol_def is_space_def is_digit_def LONG_MAX_def)
  show ?thesis
    by (rule get_after_send [OF assms(1-3) a']; use assms(1) n in \<open>simp add: Let_def healthy_def stream_in_def\<close>)
qed

lemma vk_get_other:
  assumes "fd_open v" "inbuf v = []" "length (resp_command [lit ''GET'', key]) \<le> accepts (writes v)"
    and a: "arrives (reads v) = c # line @ CRLF @ rest" "13 \<notin> set (c # line)" "c \<noteq> 36"
  shows "\<exists>v'. vk_get key v = (None, v') \<and> (healthy v' \<longleftrightarrow> c = 45) \<and> (c = 45 \<longrightarrow> stream_in v' = rest)"
  by (rule get_after_send [OF assms(1-3) a(1)];
    use assms(1) a(2,3) in \<open>simp add: Let_def healthy_def stream_in_def disconnect_def\<close>)

section \<open>Properties\<close>

text \<open>
  C33: a reader of the protocol takes apart every command the client encodes into exactly the arguments it was given,
  whatever bytes they hold, so no statement text can pass for a second command; and however the kernel splits or interrupts the
  writes, a command goes out whole, or the connection is dropped.
\<close>

theorem resp_command_roundtrip:
  "resp_parse (resp_command args @ rest) = Some (args, rest)
   \<and> (if length (resp_command args) \<le> accepts (writes v)
      then \<exists>ws. sendCommand args v = (True, v\<lparr>writes := ws, sent := sent v @ resp_command args\<rparr>)
      else \<not> fst (sendCommand args v) \<and> \<not> healthy (snd (sendCommand args v)))"
proof
  have bulk: "resp_parse_bulk (resp_bulk a @ r) = Some (a, r)" for a r
    by (simp add: resp_parse_bulk_def resp_bulk_def digits_to_string) (simp add: CRLF_def)
  have "resp_parse_bulks (length args) (concat (map resp_bulk args) @ rest) = Some (args, rest)"
    by (induction args) (simp_all add: bulk)
  then show "resp_parse (resp_command args @ rest) = Some (args, rest)"
    by (simp add: resp_parse_def resp_command_def digits_to_string)
  show "if length (resp_command args) \<le> accepts (writes v)
      then \<exists>ws. sendCommand args v = (True, v\<lparr>writes := ws, sent := sent v @ resp_command args\<rparr>)
      else \<not> fst (sendCommand args v) \<and> \<not> healthy (snd (sendCommand args v))"
    using sendCommand_ok [of args v] sendLoop_fail [of v "resp_command args"]
    by (simp add: sendCommand_def healthy_def)
qed


text \<open>The reply comes in three pieces with an interruption, and the value holds the line end.\<close>

definition demo_link :: valkey where
  "demo_link = \<lparr>fd_open = True, host = [], port = 6379, inbuf = [],
     reads = [Got (lit ''$4''), ReadEintr, Got [13, 10, 65, 13], Got [10, 66, 13, 10, 43]],
     writes = [Wrote 7, WriteEintr, Wrote 100], connects = [], sent = []\<rparr>"


end
