(* ===== verification/Daemon.thy ===== *)
theory Daemon
  imports Shared Valkey ResultSet StmtList
begin

text \<open>
  The daemon of \<open>src/src/daemon/main.cpp\<close>: the list of statements and their records, serving a client's requests, storing what a client observed, the two cache
  tiers, retirement and the idle tick, the control commands. Time is an argument: each reading of the clock a function makes. An operation that returns \<open>None\<close> has no defined
  result in the source: an allocator loop that does not end, or a read through a null pointer.
\<close>

section \<open>State\<close>

record options =
  o_stmt_list :: bytes
  o_host :: bytes
  o_port :: nat
  o_mysql_port :: nat
  o_pipes :: nat
  o_max_stmts :: nat
  o_max_pipes :: nat
  o_ttl :: int
  o_error_ttl :: int
  o_ctl_path :: bytes
  o_local_on :: bool
  o_verbose :: bool

record counters =
  hits :: nat
  misses :: nat
  errors :: nat
  stores :: nat
  refused :: nat
  reloads :: nat
  lockbreaks :: nat

text \<open>
  \<open>polling\<close> and \<open>ctl_open\<close> say that \<open>epfd\<close> and \<open>ctl_fd\<close> are not \<open>-1\<close>; the maps of \<open>skel\<close> are \<open>d_maps\<close>; \<open>replies\<close> is what the daemon has written to its sockets.
\<close>

record daemon =
  opt :: options
  d_arena :: arena
  d_maps :: maps
  d_pool :: pool
  d_list :: stmtList
  d_valkey :: valkey
  key_of_fd :: "(nat \<times> nat) list"
  known :: "(bytes \<times> nat) list"
  next_id :: nat
  orphans :: "nat list"
  cnt :: counters
  local_on :: bool
  started :: nat
  polling :: bool
  ctl_open :: bool
  loaded :: bool
  c2d_on :: bool
  d2c_on :: bool
  replies :: "(nat \<times> bytes) list"

definition u32_of_int :: "int \<Rightarrow> nat" where
  "u32_of_int i = nat (i mod 2 ^ 32)"

definition rec_at :: "daemon \<Rightarrow> nat \<Rightarrow> stmt" where
  "rec_at d p = read_stmt (mem (d_arena d)) p"

definition set_rec :: "nat \<Rightarrow> stmt \<Rightarrow> daemon \<Rightarrow> daemon" where
  "set_rec p st d = d\<lparr>d_arena := (d_arena d)\<lparr>mem := write_stmt (mem (d_arena d)) p st\<rparr>\<rparr>"

section \<open>Expiry\<close>

definition expired :: "stmt \<Rightarrow> nat \<Rightarrow> bool" where
  "expired st now =
     (if stmt_ttl st = 0 then False
      else if stmt_ts st = 0 then True
      else wrap64 (now + 2 ^ 64 - stmt_ts st) > wrap64 (stmt_ttl st * NS_PER_S))"

section \<open>Retirement\<close>

definition retireStmt :: "nat \<Rightarrow> nat \<Rightarrow> daemon \<Rightarrow> daemon" where
  "retireStmt p now d =
     (let d = (if stmt_data (rec_at d p) \<noteq> None
               then let d = d\<lparr>d_arena := retire (stmt_data (rec_at d p)) now (d_arena d)\<rparr>
                    in set_rec p ((rec_at d p)\<lparr>stmt_data := None, stmt_data_len := 0\<rparr>) d
               else d);
          d = (if stmt_txt (rec_at d p) \<noteq> None
               then let d = d\<lparr>d_arena := retire (stmt_txt (rec_at d p)) now (d_arena d)\<rparr>
                    in set_rec p ((rec_at d p)\<lparr>stmt_txt := None\<rparr>) d
               else d)
      in d\<lparr>d_arena := retire (Some p) now (d_arena d)\<rparr>)"

text \<open>The records still in use stay in order.\<close>

fun collectLoop :: "nat \<Rightarrow> nat list \<Rightarrow> daemon \<Rightarrow> nat list \<times> daemon" where
  "collectLoop now [] d = ([], d)"
| "collectLoop now (p # ps) d =
     (if stmt_refs (rec_at d p) = 0
      then collectLoop now ps (retireStmt p now d)
      else let (ks, d) = collectLoop now ps d in (p # ks, d))"

definition collectOrphans :: "nat \<Rightarrow> daemon \<Rightarrow> daemon" where
  "collectOrphans now d = (let (ks, d) = collectLoop now (orphans d) d in d\<lparr>orphans := ks\<rparr>)"

definition breakStaleLock :: "nat \<Rightarrow> daemon \<Rightarrow> daemon" where
  "breakStaleLock now d =
     (let c = ctl (d_arena d) in
      if \<not> opened (d_arena d) \<or> lock c = 0 then d
      else if taken_ns c = 0 \<or> now < taken_ns c \<or> now - taken_ns c < NS_PER_S then d
      else d\<lparr>d_arena := (d_arena d)\<lparr>ctl := c\<lparr>lock := 0\<rparr>\<rparr>, cnt := (cnt d)\<lparr>lockbreaks := lockbreaks (cnt d) + 1\<rparr>\<rparr>)"

section \<open>Publishing the list\<close>

text \<open>One statement of the list: its record, found or made, and its map entry. The first component is \<open>false\<close> where the source returns \<open>false\<close>.\<close>

definition newRecord :: "bytes \<Rightarrow> daemon \<Rightarrow> (nat option \<times> daemon) option" where
  "newRecord sql d =
     (case put (sql @ [0]) (d_arena d) of
        None \<Rightarrow> None
      | Some (txt, a) \<Rightarrow>
          (case alloc STMT_BYTES a of
             None \<Rightarrow> None
           | Some (rec, a) \<Rightarrow>
               let d = d\<lparr>d_arena := a\<rparr> in
               case (txt, rec) of
                 (Some t, Some p) \<Rightarrow>
                   Some (Some p, (set_rec p (zero_stmt\<lparr>stmt_refs := 1, stmt_txt := Some t, stmt_len := length sql,
                     stmt_id := next_id d, stmt_ttl := u32_of_int (o_ttl (opt d))\<rparr>) d)\<lparr>next_id := wrap32 (next_id d + 1)\<rparr>)
               | _ \<Rightarrow> Some (None, d)))"

definition findOrMake :: "bytes \<Rightarrow> daemon \<Rightarrow> (nat option \<times> daemon) option" where
  "findOrMake sql d =
     (case map_of (known d) sql of
        Some p \<Rightarrow> Some (Some p, set_rec p ((rec_at d p)\<lparr>stmt_ttl := u32_of_int (o_ttl (opt d))\<rparr>) d)
      | None \<Rightarrow> newRecord sql d)"

fun publishAll :: "bytes list \<Rightarrow> (bytes \<times> nat) list \<Rightarrow> daemon \<Rightarrow> (bool \<times> (bytes \<times> nat) list \<times> daemon) option" where
  "publishAll [] next d = Some (True, next, d)"
| "publishAll (sql # rest) next d =
     (if length sql > BNCL_STMT_MAX - 1 then publishAll rest next d
      else case findOrMake sql d of
        None \<Rightarrow> None
      | Some (None, d) \<Rightarrow> Some (False, next, d)
      | Some (Some p, d) \<Rightarrow>
          (case hash_update (max_stmts (d_maps d)) (stmt_key sql) p (stmts_map (d_maps d)) of
             None \<Rightarrow> Some (False, next, d)
           | Some sm \<Rightarrow> publishAll rest (AList.update sql p next) (d\<lparr>d_maps := (d_maps d)\<lparr>stmts_map := sm\<rparr>\<rparr>)))"

text \<open>Statements that left the list: the key goes first, then the list's own reference.\<close>

definition unpublish :: "nat \<Rightarrow> bytes \<Rightarrow> nat \<Rightarrow> daemon \<Rightarrow> daemon" where
  "unpublish now sql p d =
     (let d = d\<lparr>d_maps := (d_maps d)\<lparr>stmts_map := AList.delete (stmt_key sql) (stmts_map (d_maps d))\<rparr>\<rparr>;
          (last, m) = bncl_stmt_put p (mem (d_arena d));
          d = d\<lparr>d_arena := (d_arena d)\<lparr>mem := m\<rparr>\<rparr>
      in if last then retireStmt p now d else d\<lparr>orphans := orphans d @ [p]\<rparr>)"

fun dropGone :: "nat \<Rightarrow> (bytes \<times> nat) list \<Rightarrow> (bytes \<times> nat) list \<Rightarrow> daemon \<Rightarrow> daemon" where
  "dropGone now next [] d = d"
| "dropGone now next ((sql, p) # rest) d =
     (if map_of next sql \<noteq> None then dropGone now next rest d else dropGone now next rest (unpublish now sql p d))"

definition loadStatements :: "bytes option \<Rightarrow> nat \<Rightarrow> daemon \<Rightarrow> (bool \<times> daemon) option" where
  "loadStatements file now d =
     (if o_stmt_list (opt d) = [] then Some (True, d)
      else case load empty_list (o_stmt_list (opt d)) file of
        Inl err \<Rightarrow> Some (False, d)
      | Inr fresh \<Rightarrow>
          (case publishAll (stmts fresh) [] d of
             None \<Rightarrow> None
           | Some (False, _, d) \<Rightarrow> Some (False, d)
           | Some (True, next, d) \<Rightarrow>
               Some (True, (dropGone now next (known d) d)\<lparr>known := next, d_list := fresh\<rparr>)))"

section \<open>Serving\<close>

definition send_reply :: "nat \<Rightarrow> agent_status \<Rightarrow> nat \<Rightarrow> daemon \<Rightarrow> daemon" where
  "send_reply fd s i d = d\<lparr>replies := replies d @ [(fd, agent_reply s i)]\<rparr>"

text \<open>\<open>read\<close> takes at most what is asked for and leaves the rest in the socket; anything but bytes ends the loop.\<close>

fun readExactly :: "nat \<Rightarrow> rd list \<Rightarrow> (bytes \<times> rd list) option" where
  "readExactly n [] = (if n = 0 then Some ([], []) else None)"
| "readExactly n (r # rs) =
     (if n = 0 then Some ([], r # rs)
      else case r of
        Got bs \<Rightarrow>
          if bs = [] then None
          else if length bs \<le> n then map_option (\<lambda>(cs, q). (bs @ cs, q)) (readExactly (n - length bs) rs)
          else Some (take n bs, Got (drop n bs) # rs)
      | _ \<Rightarrow> None)"

text \<open>\<open>std::string sql(st->stmt_txt ? st->stmt_txt : "", st->stmt_len)\<close>.\<close>

definition stmtText :: "daemon \<Rightarrow> nat \<Rightarrow> bytes option" where
  "stmtText d p =
     (let st = rec_at d p in
      case stmt_txt st of
        Some t \<Rightarrow> Some (readBytes (mem (d_arena d)) t (stmt_len st))
      | None \<Rightarrow> if stmt_len st = 0 then Some [] else None)"

definition keep :: "nat \<Rightarrow> bytes \<Rightarrow> nat \<Rightarrow> daemon \<Rightarrow> (nat option \<times> daemon) option" where
  "keep p body now d =
     (let st = rec_at d p in
      if stmt_data st \<noteq> None \<and> stmt_data_len st = length body
         \<and> readBytes (mem (d_arena d)) (the (stmt_data st)) (length body) = body
      then Some (stmt_data st, d)
      else case put body (d_arena d) of
        None \<Rightarrow> None
      | Some (q, a) \<Rightarrow>
          let d = d\<lparr>d_arena := a\<rparr>
          in if q \<noteq> None \<and> stmt_data (rec_at d p) \<noteq> None
             then Some (q, d\<lparr>d_arena := retire (stmt_data (rec_at d p)) now (d_arena d)\<rparr>)
             else Some (q, d))"

text \<open>Pointing the record at its payload, the four stores both \<open>store\<close> and \<open>serve\<close> make.\<close>

definition publishPayload :: "nat \<Rightarrow> nat option \<Rightarrow> nat \<Rightarrow> nat \<Rightarrow> daemon \<Rightarrow> daemon" where
  "publishPayload p q len ts d =
     set_rec p ((rec_at d p)\<lparr>stmt_data := q, stmt_data_len := len, stmt_ttl := u32_of_int (o_ttl (opt d)), stmt_ts := ts,
       stmt_state := STMT_S_LOCAL\<rparr>) d"

definition valkeyUp :: "daemon \<Rightarrow> bool \<times> daemon" where
  "valkeyUp d =
     (if healthy (d_valkey d) then (True, d)
      else let (ok, v) = vk_connect (o_host (opt d)) (o_port (opt d)) (d_valkey d) in (ok, d\<lparr>d_valkey := v\<rparr>))"

definition cache_key :: "bytes \<Rightarrow> bytes" where
  "cache_key sql = lit ''bncl:'' @ sql"

definition refuse :: "daemon \<Rightarrow> daemon" where
  "refuse d = d\<lparr>cnt := (cnt d)\<lparr>refused := refused (cnt d) + 1\<rparr>\<rparr>"

definition store :: "nat \<Rightarrow> bytes \<Rightarrow> nat \<Rightarrow> nat \<Rightarrow> daemon \<Rightarrow> (bool \<times> daemon) option" where
  "store key body now now' d =
     (case array_lookup (dpipes (d_maps d)) key of
        None \<Rightarrow> Some (False, d)
      | Some rec \<Rightarrow>
          (case dp_stmt rec of
             None \<Rightarrow> Some (False, d)
           | Some p \<Rightarrow>
               (case stmtText d p of
                  None \<Rightarrow> None
                | Some sql \<Rightarrow>
                    if sql = [] \<or> body = [] then Some (False, d)
                    else (case parseResultSet body BNCL_CANONICAL_CAPS of
                      None \<Rightarrow> Some (False, refuse d)
                    | Some rs \<Rightarrow>
                        if has_bits (status rs) SERVER_STATUS_IN_TRANS then Some (False, refuse d)
                        else
                          let (up, d) = valkeyUp d;
                              d = (if up then d\<lparr>d_valkey := snd (vk_setex (cache_key sql) body (o_ttl (opt d)) (d_valkey d))\<rparr> else d)
                          in case keep p body now d of
                               None \<Rightarrow> None
                             | Some (None, d) \<Rightarrow> Some (False, d)
                             | Some (Some q, d) \<Rightarrow>
                                 let d = publishPayload p (Some q) (length body) now' d
                                 in Some (True, d\<lparr>cnt := (cnt d)\<lparr>stores := stores (cnt d) + 1\<rparr>\<rparr>)))))"

definition count_status :: "agent_status \<Rightarrow> daemon \<Rightarrow> daemon" where
  "count_status s d =
     (case s of
        AGENT_OK \<Rightarrow> d\<lparr>cnt := (cnt d)\<lparr>hits := hits (cnt d) + 1\<rparr>\<rparr>
      | AGENT_WRITE_THROUGH \<Rightarrow> d\<lparr>cnt := (cnt d)\<lparr>misses := misses (cnt d) + 1\<rparr>\<rparr>
      | AGENT_CACHE_ERROR \<Rightarrow> d\<lparr>cnt := (cnt d)\<lparr>errors := errors (cnt d) + 1\<rparr>\<rparr>)"

text \<open>Resolving a statement through the two tiers.\<close>

definition resolve :: "nat \<Rightarrow> nat \<Rightarrow> nat \<Rightarrow> daemon \<Rightarrow> (agent_status \<times> daemon) option" where
  "resolve p now now' d =
     (let st = rec_at d p in
      if local_on d \<and> stmt_state st = STMT_S_LOCAL \<and> stmt_data st \<noteq> None \<and> \<not> expired st now then Some (AGENT_OK, d)
      else let (up, d) = valkeyUp d in
        if \<not> up then Some (AGENT_CACHE_ERROR, d)
        else (case stmtText d p of
          None \<Rightarrow> None
        | Some sql \<Rightarrow>
            let (got, d) = (if sql = [] then (None, d)
                            else let (r, v) = vk_get (cache_key sql) (d_valkey d) in (r, d\<lparr>d_valkey := v\<rparr>))
            in if got \<noteq> None \<and> got \<noteq> Some []
               then (case keep p (the got) now' d of
                       None \<Rightarrow> None
                     | Some (None, d) \<Rightarrow> Some (AGENT_CACHE_ERROR, d)
                     | Some (Some q, d) \<Rightarrow> Some (AGENT_OK, publishPayload p (Some q) (length (the got)) now d))
               else Some (AGENT_WRITE_THROUGH, set_rec p ((rec_at d p)\<lparr>stmt_data := None, stmt_data_len := 0, stmt_ts := 0\<rparr>) d)))"

text \<open>
  One request on the socket \<open>fd\<close>, with what its reads return. \<open>splice_ok\<close> says whether the kernel takes the pairing of the daemon's own end.
\<close>

definition serve :: "nat \<Rightarrow> rd list \<Rightarrow> bool \<Rightarrow> nat \<Rightarrow> nat \<Rightarrow> daemon \<Rightarrow> daemon option" where
  "serve fd input splice_ok now now' d =
     (case readExactly 8 input of
        None \<Rightarrow> Some d
      | Some (hdr, input) \<Rightarrow>
          (case map_of (key_of_fd d) fd of
             None \<Rightarrow> Some d
           | Some key \<Rightarrow>
               let kind = le (take 4 hdr); len = le (drop 4 hdr) in
               if kind = BNCL_REQ_STORE
               then (if len = 0 \<or> len > BNCL_STORE_MAX then Some d
                     else case readExactly len input of
                       None \<Rightarrow> Some d
                     | Some (body, _) \<Rightarrow> map_option snd (store key body now now' d))
               else (case array_lookup (dpipes (d_maps d)) key of
                 None \<Rightarrow> Some d
               | Some rec \<Rightarrow>
                   (case byKey (d_pool d) key of
                      None \<Rightarrow> Some d
                    | Some pi \<Rightarrow>
                        if \<not> splice_ok then Some d
                        else let info = AList.update (nat (p_sfd pi)) \<lparr>si_key = key, si_paired = 1\<rparr> (pipe_sk_info_map (d_maps d));
                                 d = d\<lparr>d_maps := (d_maps d)\<lparr>pipe_sk_info_map := info\<rparr>\<rparr>
                        in case dp_stmt rec of
                             None \<Rightarrow> Some (send_reply fd AGENT_CACHE_ERROR 0 (count_status AGENT_CACHE_ERROR d))
                           | Some p \<Rightarrow>
                               (case resolve p now now' d of
                                  None \<Rightarrow> None
                                | Some (s, d) \<Rightarrow> Some (send_reply fd s (stmt_id (rec_at d p)) (count_status s d)))))))"

section \<open>Control\<close>

definition cfgSet :: "nat \<Rightarrow> nat \<Rightarrow> daemon \<Rightarrow> daemon" where
  "cfgSet slot val d =
     (case array_update (cfg (d_maps d)) slot val of
        None \<Rightarrow> d
      | Some c \<Rightarrow> d\<lparr>d_maps := (d_maps d)\<lparr>cfg := c\<rparr>\<rparr>)"

definition cfgGet :: "nat \<Rightarrow> daemon \<Rightarrow> nat" where
  "cfgGet slot d = (case array_lookup (cfg (d_maps d)) slot of None \<Rightarrow> 0 | Some v \<Rightarrow> v)"

text \<open>The figures of the \<open>status\<close> report that come from the daemon's state, before they are printed.\<close>

record figures =
  f_statements :: nat
  f_cached :: nat
  f_refs :: nat
  f_pipes :: nat
  f_pipes_free :: nat
  f_cnt :: counters
  f_generation :: nat
  f_client_on :: nat
  f_local_on :: bool
  f_ttl :: int
  f_valkey_ok :: bool
  f_valkey_keys :: int
  f_arena_used :: nat
  f_arena_cap :: nat
  f_arena_retired :: nat

definition stats :: "nat \<Rightarrow> daemon \<Rightarrow> (figures \<times> daemon) option" where
  "stats now d =
     (let cached = length (filter (\<lambda>(_, p). stmt_data (rec_at d p) \<noteq> None \<and> \<not> expired (rec_at d p) now) (known d));
          refs = sum_list (map (\<lambda>(_, p). stmt_refs (rec_at d p)) (known d));
          (up, d) = valkeyUp d;
          (keys, d) = (if up then let (k, v) = vk_dbsize (d_valkey d) in (case k of None \<Rightarrow> -1 | Some n \<Rightarrow> n, d\<lparr>d_valkey := v\<rparr>) else (-1, d))
      in case retired (d_arena d) of
           None \<Rightarrow> None
         | Some r \<Rightarrow>
             Some (\<lparr>f_statements = list_size (d_list d), f_cached = cached, f_refs = refs, f_pipes = length (pipes (d_pool d)),
               f_pipes_free = freeCount (d_maps d), f_cnt = cnt d, f_generation = cfgGet BNCL_CFG_GENERATION d,
               f_client_on = cfgGet BNCL_CFG_CLIENT_ON d, f_local_on = local_on d, f_ttl = o_ttl (opt d), f_valkey_ok = healthy (d_valkey d),
               f_valkey_keys = keys, f_arena_used = arena_used (d_arena d), f_arena_cap = cap (d_arena d), f_arena_retired = r\<rparr>, d))"

datatype answer = Text bytes | Report figures

fun dropEol :: "bytes \<Rightarrow> bytes" where
  "dropEol [] = []"
| "dropEol (b # bs) = (case dropEol bs of [] \<Rightarrow> if b = 10 \<or> b = 13 then [] else [b] | cs \<Rightarrow> b # cs)"

text \<open>\<open>sent_in\<close> is what one \<open>read\<close> of at most 255 bytes returned; the command ends at its first zero byte.\<close>

definition control :: "bytes \<Rightarrow> bytes option \<Rightarrow> nat \<Rightarrow> daemon \<Rightarrow> (answer option \<times> daemon) option" where
  "control sent_in file now d =
     (if sent_in = [] then Some (None, d)
      else let cmd = dropEol (takeWhile (\<lambda>b. b \<noteq> 0) sent_in) in
        if cmd = lit ''PING'' then Some (Some (Text (lit ''ok'' @ [10])), d)
        else if cmd = lit ''STATS'' then map_option (\<lambda>(f, d). (Some (Report f), d)) (stats now d)
        else if cmd = lit ''RELOAD''
        then (case loadStatements file now d of
                None \<Rightarrow> None
              | Some (True, d) \<Rightarrow>
                  let d = d\<lparr>cnt := (cnt d)\<lparr>reloads := reloads (cnt d) + 1\<rparr>\<rparr>;
                      d = cfgSet BNCL_CFG_GENERATION (wrap32 (cfgGet BNCL_CFG_GENERATION d + 1)) d
                  in Some (Some (Text (lit ''ok '' @ to_string (list_size (d_list d)) @ lit '' statement(s)'' @ [10])), d)
              | Some (False, d) \<Rightarrow> Some (Some (Text (lit ''error cannot reload '' @ o_stmt_list (opt d) @ [10])), d))
        else if cmd = lit ''CLIENT on'' \<or> cmd = lit ''CLIENT off''
        then Some (Some (Text (lit ''ok'' @ [10])), cfgSet BNCL_CFG_CLIENT_ON (if cmd = lit ''CLIENT on'' then 1 else 0) d)
        else if cmd = lit ''LOCAL on'' \<or> cmd = lit ''LOCAL off''
        then (let d = d\<lparr>local_on := (cmd = lit ''LOCAL on'')\<rparr>
              in Some (Some (Text (lit ''ok'' @ [10])), cfgSet BNCL_CFG_LOCAL_ON (if local_on d then 1 else 0) d))
        else Some (Some (Text (lit ''error unknown command'' @ [10])), d))"

section \<open>The idle tick\<close>

definition tick :: "nat \<Rightarrow> daemon \<Rightarrow> daemon option" where
  "tick now d =
     (let d = collectOrphans now (breakStaleLock now d)
      in map_option (\<lambda>a. d\<lparr>d_arena := a\<rparr>) (reclaim now (d_arena d)))"

end
