(* ===== verification/CacheView.thy ===== *)
theory CacheView
  imports Shared
begin

text \<open>
  What the daemon keeps in the arena, as data: a map from record pointers to the record, its text and its payload. \<open>owns a R\<close> says that the arena holds exactly these
  records, each with its own text block and payload block, no block shared. The lemmas say what the operations the daemon composes do to the map.
\<close>

type_synonym entry = "stmt \<times> bytes \<times> bytes"

definition opt_list :: "'a option \<Rightarrow> 'a list" where
  "opt_list x = (case x of None \<Rightarrow> [] | Some a \<Rightarrow> [a])"

definition blocks :: "nat \<Rightarrow> stmt \<Rightarrow> nat list" where
  "blocks p st = p # opt_list (stmt_txt st) @ opt_list (stmt_data st)"

definition entry_ok :: "(nat \<rightharpoonup> bytes) \<Rightarrow> nat \<Rightarrow> entry \<Rightarrow> bool" where
  "entry_ok C p e \<longleftrightarrow> (case e of (st, sql, pay) \<Rightarrow>
     record_at C p st \<and> distinct (blocks p st)
     \<and> (\<exists>t. stmt_txt st = Some t \<and> C t = Some (sql @ [0])) \<and> stmt_len st = length sql
     \<and> (case stmt_data st of None \<Rightarrow> pay = [] | Some q \<Rightarrow> C q = Some pay \<and> stmt_data_len st = length pay))"

definition apart_entries :: "(nat \<rightharpoonup> entry) \<Rightarrow> bool" where
  "apart_entries R \<longleftrightarrow> (\<forall>p p' st sql pay st' sql' pay'. R p = Some (st, sql, pay) \<longrightarrow> R p' = Some (st', sql', pay') \<longrightarrow> p \<noteq> p' \<longrightarrow>
     set (blocks p st) \<inter> set (blocks p' st') = {})"

definition owns :: "arena \<Rightarrow> (nat \<rightharpoonup> entry) \<Rightarrow> bool" where
  "owns a R \<longleftrightarrow> (\<exists>C. heap.objects a C \<and> (\<forall>p e. R p = Some e \<longrightarrow> entry_ok C p e) \<and> apart_entries R)"

lemma ownsE:
  assumes "owns a R"
  obtains C where "heap.objects a C" "\<And>p e. R p = Some e \<Longrightarrow> entry_ok C p e" "apart_entries R"
  using assms unfolding owns_def by blast

lemma ownsI: "heap.objects a C \<Longrightarrow> (\<And>p e. R p = Some e \<Longrightarrow> entry_ok C p e) \<Longrightarrow> apart_entries R \<Longrightarrow> owns a R"
  unfolding owns_def by blast

lemma set_blocks: "x \<in> set (blocks p st) \<longleftrightarrow> x = p \<or> stmt_txt st = Some x \<or> stmt_data st = Some x"
  by (auto simp: blocks_def opt_list_def split: option.splits)

lemma entry_cong:
  assumes "entry_ok C p (st, sql, pay)" "\<And>x. x \<in> set (blocks p st) \<Longrightarrow> C' x = C x"
  shows "entry_ok C' p (st, sql, pay)"
  using assms by (auto simp: entry_ok_def record_at_def set_blocks split: option.splits)

lemma entry_blocks: "entry_ok C p (st, sql, pay) \<Longrightarrow> x \<in> set (blocks p st) \<Longrightarrow> C x \<noteq> None"
  by (auto simp: entry_ok_def record_at_def set_blocks split: option.splits)

lemma apartD:
  "apart_entries R \<Longrightarrow> R p = Some (st, sql, pay) \<Longrightarrow> R p' = Some (st', sql', pay') \<Longrightarrow> p \<noteq> p' \<Longrightarrow> x \<in> set (blocks p st) \<Longrightarrow> x \<notin> set (blocks p' st')"
  unfolding apart_entries_def by blast

lemma entry_ne: "entry_ok C p (st, sql, pay) \<Longrightarrow> stmt_txt st \<noteq> Some p \<and> stmt_data st \<noteq> Some p \<and> stmt_data st \<noteq> stmt_txt st"
  by (auto simp: entry_ok_def blocks_def opt_list_def)

lemma entry_write:
  assumes "entry_ok C p (st, sql, pay)" "record_at C' p st'" "\<And>x. x \<noteq> p \<Longrightarrow> C' x = C x" "stmt_txt st' = stmt_txt st" "stmt_len st' = stmt_len st"
    "stmt_data st' = stmt_data st \<and> stmt_data_len st' = stmt_data_len st \<and> pay' = pay \<or> stmt_data st' = None \<and> pay' = []"
  shows "entry_ok C' p (st', sql, pay')"
proof -
  obtain t where t: "stmt_txt st = Some t" "C t = Some (sql @ [0])" "t \<noteq> p" using assms(1) entry_ne [OF assms(1)] by (auto simp: entry_ok_def)
  have c: "C' t = Some (sql @ [0])" using t assms(3) by simp
  have l: "stmt_len st' = length sql" using assms(1,5) by (simp add: entry_ok_def)
  show ?thesis
  proof (cases "stmt_data st'")
    case None
    then have "pay' = []" using assms(1,6) by (auto simp: entry_ok_def)
    moreover have "distinct (blocks p st')" using None t assms(4) by (simp add: blocks_def opt_list_def)
    ultimately show ?thesis using assms(2,4) c t l None by (simp add: entry_ok_def)
  next
    case (Some q)
    then have q: "stmt_data st = Some q" "stmt_data_len st' = stmt_data_len st" "pay' = pay" using assms(6) by auto
    then have "q \<noteq> p" "C q = Some pay" "stmt_data_len st = length pay" "q \<noteq> t" using assms(1) entry_ne [OF assms(1)] t by (auto simp: entry_ok_def)
    then show ?thesis using assms(2,4) c t l Some q assms(3) by (simp add: entry_ok_def blocks_def opt_list_def)
  qed
qed

section \<open>Reading\<close>

lemma owns_read:
  assumes "owns a R" "R p = Some (st, sql, pay)"
  shows "read_stmt (mem a) p = st" "stmt_fits st" "stmt_len st = length sql"
    "stmt_txt st = Some t \<Longrightarrow> readBytes (mem a) t (length sql) = sql" "stmt_txt st \<noteq> None"
    "stmt_data st = Some q \<Longrightarrow> readBytes (mem a) q (length pay) = pay" "stmt_data st = Some q \<Longrightarrow> stmt_data_len st = length pay"
    "stmt_data st = None \<Longrightarrow> pay = []" "0 < p"
proof -
  obtain C where C: "heap.objects a C" "entry_ok C p (st, sql, pay)" using assms by (auto elim!: ownsE)
  then have r: "record_at C p st" by (simp add: entry_ok_def)
  show "read_stmt (mem a) p = st" by (rule read_record [OF C(1) r])
  show "stmt_fits st" using r by (rule record_fits)
  show "stmt_len st = length sql" "stmt_txt st \<noteq> None" using C(2) by (auto simp: entry_ok_def)
  show "0 < p" using heap.objects_bound [OF C(1)] r by (auto simp: record_at_def)
  show "readBytes (mem a) t (length sql) = sql" if "stmt_txt st = Some t"
  proof -
    have "C t = Some (sql @ [0])" using C(2) that by (auto simp: entry_ok_def)
    from heap.objects_read [OF C(1) this] have "readBytes (mem a) t (length (sql @ [0])) = sql @ [0]" .
    then show ?thesis by (simp add: readBytes_def)
  qed
  show "readBytes (mem a) q (length pay) = pay" if "stmt_data st = Some q"
    using C that heap.objects_read [OF C(1), of q pay] by (auto simp: entry_ok_def)
  show "stmt_data st = Some q \<Longrightarrow> stmt_data_len st = length pay" "stmt_data st = None \<Longrightarrow> pay = []"
    using C(2) by (auto simp: entry_ok_def)
qed

section \<open>Changing one entry\<close>

text \<open>A new entry at \<open>p\<close> whose blocks are old ones of \<open>p\<close> or fresh.\<close>

lemma owns_change:
  assumes "heap.objects a C" "\<And>p e. R p = Some e \<Longrightarrow> entry_ok C0 p e" "apart_entries R" "entry_ok C p (st', sql', pay')"
    and same: "\<And>p' st sql pay x. R p' = Some (st, sql, pay) \<Longrightarrow> p' \<noteq> p \<Longrightarrow> x \<in> set (blocks p' st) \<Longrightarrow> C x = C0 x"
    and own: "\<And>x. x \<in> set (blocks p st') \<Longrightarrow> C0 x = None \<or> (\<exists>st sql pay. R p = Some (st, sql, pay) \<and> x \<in> set (blocks p st))"
  shows "owns a (R(p \<mapsto> (st', sql', pay')))"
proof (rule ownsI [OF assms(1)])
  fix p' e assume e: "(R(p \<mapsto> (st', sql', pay'))) p' = Some e"
  show "entry_ok C p' e"
  proof (cases "p' = p")
    case True
    then show ?thesis using e assms(4) by simp
  next
    case False
    then obtain st sql pay where s: "e = (st, sql, pay)" "R p' = Some (st, sql, pay)" using e by (cases e) auto
    show ?thesis unfolding s(1) by (rule entry_cong [OF assms(2) [OF s(2)]]) (use same [OF s(2) False] in simp)
  qed
next
  have fresh: "x \<notin> set (blocks p' st)" if "R p' = Some (st, sql, pay)" "p' \<noteq> p" "x \<in> set (blocks p st')" for p' st sql pay x
    using own [OF that(3)] entry_blocks [OF assms(2) [OF that(1)], of x] apartD [OF assms(3)] that(1,2) by blast
  show "apart_entries (R(p \<mapsto> (st', sql', pay')))"
    unfolding apart_entries_def
  proof (intro allI impI)
    fix q q' s s' and t t' u u' :: bytes
    assume a: "(R(p \<mapsto> (st', sql', pay'))) q = Some (s, t, u)" "(R(p \<mapsto> (st', sql', pay'))) q' = Some (s', t', u')" "q \<noteq> q'"
    consider "q = p" "q' \<noteq> p" | "q \<noteq> p" "q' = p" | "q \<noteq> p" "q' \<noteq> p" using a(3) by auto
    then show "set (blocks q s) \<inter> set (blocks q' s') = {}"
    proof cases
      case 1
      then show ?thesis using a fresh [of q' s' t' u'] by auto
    next
      case 2
      then show ?thesis using a fresh [of q s t u] by auto
    next
      case 3
      then have "R q = Some (s, t, u)" "R q' = Some (s', t', u')" using a by auto
      then show ?thesis using assms(3) a(3) unfolding apart_entries_def by blast
    qed
  qed
qed

text \<open>Overwriting a record in place: other fields than the pointers, or letting go of the payload without freeing it.\<close>

lemma owns_write:
  assumes "owns a R" "R p = Some (st, sql, pay)" "stmt_fits st'" "stmt_txt st' = stmt_txt st" "stmt_len st' = stmt_len st"
    "stmt_data st' = stmt_data st \<and> stmt_data_len st' = stmt_data_len st \<and> pay' = pay \<or> stmt_data st' = None \<and> pay' = []"
  shows "owns (a\<lparr>mem := write_stmt (mem a) p st'\<rparr>) (R(p \<mapsto> (st', sql, pay')))"
proof -
  obtain C where C: "heap.objects a C" "\<And>p e. R p = Some e \<Longrightarrow> entry_ok C p e" "apart_entries R" by (rule ownsE [OF assms(1)]) blast
  have e: "entry_ok C p (st, sql, pay)" by (rule C(2) [OF assms(2)])
  then have r: "record_at C p st" by (simp add: entry_ok_def)
  note W = write_record [OF C(1) r assms(3)]
  show ?thesis
  proof (rule owns_change [OF W(1) C(2,3)])
    show "entry_ok (C(p \<mapsto> enc_stmt st')) p (st', sql, pay')" by (rule entry_write [OF e W(2) _ assms(4-6)]) simp
  next
    fix p' s u v x assume "R p' = Some (s, u, v)" "p' \<noteq> p" "x \<in> set (blocks p' s)"
    then have "x \<noteq> p" using apartD [OF C(3) assms(2), of p' s u v p] by (auto simp: set_blocks)
    then show "(C(p \<mapsto> enc_stmt st')) x = C x" by simp
  next
    fix x assume "x \<in> set (blocks p st')"
    then show "C x = None \<or> (\<exists>s u v. R p = Some (s, u, v) \<and> x \<in> set (blocks p s))"
      using assms(2,4,6) by (auto simp: set_blocks)
  qed
qed

section \<open>New payloads\<close>

text \<open>
  Putting a payload, retiring the one it replaces and pointing the record at it. Between the steps the record still reads as before.
\<close>

lemma owns_put:
  assumes "owns a R" "R p = Some (st, sql, pay)" "body \<noteq> []" "length body \<le> alloc_limit" "now < 2 ^ 64"
  shows "put body a = Some (None, a) \<or>
    (\<exists>q a'. put body a = Some (Some q, a') \<and> read_stmt (mem a') p = st \<and> q < 2 ^ 32 \<and> 0 < q
       \<and> read_stmt (mem (if stmt_data st = None then a' else retire (stmt_data st) now a')) p = st
       \<and> (\<forall>st'. stmt_fits st' \<longrightarrow> stmt_txt st' = stmt_txt st \<longrightarrow> stmt_len st' = stmt_len st \<longrightarrow> stmt_data st' = Some q \<longrightarrow> stmt_data_len st' = length body \<longrightarrow>
            owns (let b = (if stmt_data st = None then a' else retire (stmt_data st) now a') in b\<lparr>mem := write_stmt (mem b) p st'\<rparr>)
              (R(p \<mapsto> (st', sql, body)))))"
proof -
  obtain C where C: "heap.objects a C" "\<And>p e. R p = Some e \<Longrightarrow> entry_ok C p e" "apart_entries R" by (rule ownsE [OF assms(1)]) blast
  have e: "entry_ok C p (st, sql, pay)" by (rule C(2) [OF assms(2)])
  then have r: "record_at C p st" by (simp add: entry_ok_def)
  obtain t where t: "stmt_txt st = Some t" "C t = Some (sql @ [0])" "t \<noteq> p" "stmt_len st = length sql"
    using e entry_ne [OF e] by (auto simp: entry_ok_def)
  from heap_put [OF C(1) assms(3,4)] show ?thesis
  proof (elim disjE exE conjE)
    fix q a' assume q: "put body a = Some (Some q, a')" "C q = None" "heap.objects a' (C(q \<mapsto> body))"
    have qn: "q \<noteq> p" "q \<noteq> t" "stmt_data st \<noteq> Some q" using q(2) t(2) r e by (auto simp: record_at_def entry_ok_def)
    let ?b = "if stmt_data st = None then a' else retire (stmt_data st) now a'"
    obtain D where D: "heap.objects ?b D" "D q = Some body" "\<And>x. x \<noteq> q \<Longrightarrow> stmt_data st \<noteq> Some x \<Longrightarrow> D x = C x"
    proof (cases "stmt_data st")
      case None
      then show ?thesis using that [of "C(q \<mapsto> body)"] q(3) by simp
    next
      case (Some z)
      then have "C z = Some pay" "z \<noteq> q" using e q(2) by (auto simp: entry_ok_def)
      then have "(C(q \<mapsto> body)) z = Some pay" by simp
      note ob' = heap.objects_discard [OF q(3) this assms(5)]
      have b: "?b = retire (Some z) now a'" using Some by simp
      have ob: "heap.objects ?b ((C(q \<mapsto> body))(z := None))" unfolding b by (rule ob')
      show ?thesis by (rule that [OF ob]) (use Some \<open>z \<noteq> q\<close> in auto)
    qed
    have rD: "record_at D p st" using r D(3) [of p] qn entry_ne [OF e] by (auto simp: record_at_def)
    have r1: "read_stmt (mem a') p = st" by (rule read_record [OF q(3)]) (use r qn in \<open>simp add: record_at_def\<close>)
    have r2: "read_stmt (mem ?b) p = st" by (rule read_record [OF D(1) rD])
    have bd: "q < 2 ^ 32" "0 < q" using heap.objects_bound [OF D(1,2)] by auto
    have "owns (?b\<lparr>mem := write_stmt (mem ?b) p st'\<rparr>) (R(p \<mapsto> (st', sql, body)))"
      if s: "stmt_fits st'" "stmt_txt st' = stmt_txt st" "stmt_len st' = stmt_len st" "stmt_data st' = Some q" "stmt_data_len st' = length body" for st'
    proof (rule owns_change [OF write_record(1) [OF D(1) rD s(1)] C(2,3)])
      have "D t = Some (sql @ [0])" using D(3) [of t] t qn entry_ne [OF e] by auto
      then show "entry_ok (D(p \<mapsto> enc_stmt st')) p (st', sql, body)"
        using s t qn D(2) by (simp add: entry_ok_def record_at_def blocks_def opt_list_def)
    next
      fix p' s' u v x assume x: "R p' = Some (s', u, v)" "p' \<noteq> p" "x \<in> set (blocks p' s')"
      then have "x \<noteq> p" "stmt_data st \<noteq> Some x"
        using apartD [OF C(3) x(1) assms(2) x(2,3)] by (auto simp: set_blocks)
      moreover have "x \<noteq> q" using entry_blocks [OF C(2) [OF x(1)] x(3)] q(2) by auto
      ultimately show "(D(p \<mapsto> enc_stmt st')) x = C x" using D(3) by simp
    next
      fix x assume "x \<in> set (blocks p st')"
      then show "C x = None \<or> (\<exists>s u v. R p = Some (s, u, v) \<and> x \<in> set (blocks p s))"
        using assms(2) s(2,4) q(2) by (auto simp: set_blocks)
    qed
    then show ?thesis using q(1) r1 r2 bd by (auto simp: Let_def)
  qed simp
qed


section \<open>Retiring and making records\<close>

lemma apart_sub: "apart_entries R \<Longrightarrow> (\<And>p e. R' p = Some e \<Longrightarrow> R p = Some e) \<Longrightarrow> apart_entries R'"
  unfolding apart_entries_def by blast

lemma owns_subset: "owns a R \<Longrightarrow> (\<And>p e. R' p = Some e \<Longrightarrow> R p = Some e) \<Longrightarrow> owns a R'"
proof -
  assume o: "owns a R" and s: "\<And>p e. R' p = Some e \<Longrightarrow> R p = Some e"
  obtain C where C: "heap.objects a C" "\<And>p e. R p = Some e \<Longrightarrow> entry_ok C p e" "apart_entries R" by (rule ownsE [OF o]) blast
  have "apart_entries R'" using apart_sub [OF C(3)] s by blast
  then show ?thesis using C(1,2) s by (intro ownsI) auto
qed

text \<open>
  \<open>holds_rec\<close>: the arena still holds the record at \<open>p\<close>, being taken apart, beside the entries of \<open>R\<close>.
\<close>

definition holds_rec :: "arena \<Rightarrow> (nat \<rightharpoonup> entry) \<Rightarrow> nat \<Rightarrow> stmt \<Rightarrow> bool" where
  "holds_rec a R p st \<longleftrightarrow> (\<exists>C. heap.objects a C \<and> (\<forall>p e. R p = Some e \<longrightarrow> entry_ok C p e) \<and> apart_entries R \<and> record_at C p st
     \<and> distinct (blocks p st) \<and> (\<forall>x\<in>set (blocks p st). C x \<noteq> None)
     \<and> (\<forall>p' s u v. R p' = Some (s, u, v) \<longrightarrow> set (blocks p' s) \<inter> set (blocks p st) = {}))"

lemma owns_holds_rec:
  assumes "owns a R" "R p = Some (st, sql, pay)"
  shows "holds_rec a (R(p := None)) p st"
proof -
  obtain C where C: "heap.objects a C" "\<And>p e. R p = Some e \<Longrightarrow> entry_ok C p e" "apart_entries R" by (rule ownsE [OF assms(1)]) blast
  have e: "entry_ok C p (st, sql, pay)" by (rule C(2) [OF assms(2)])
  have sub: "(R(p := None)) p' = Some f \<Longrightarrow> R p' = Some f \<and> p' \<noteq> p" for p' f by (auto split: if_splits)
  have "apart_entries (R(p := None))" by (rule apart_sub [OF C(3)]) (use sub in blast)
  moreover have "set (blocks p' s) \<inter> set (blocks p st) = {}" if "(R(p := None)) p' = Some (s, u, v)" for p' s u v
    using sub [OF that] apartD [OF C(3) _ assms(2)] by blast
  moreover have "\<forall>x\<in>set (blocks p st). C x \<noteq> None" using entry_blocks [OF e] by blast
  moreover have "\<forall>p' f. (R(p := None)) p' = Some f \<longrightarrow> entry_ok C p' f" using sub C(2) by blast
  moreover have "record_at C p st" "distinct (blocks p st)" using e by (simp_all add: entry_ok_def)
  ultimately show ?thesis unfolding holds_rec_def using C(1) by blast
qed

lemma holds_rec_read: "holds_rec a R p st \<Longrightarrow> read_stmt (mem a) p = st \<and> stmt_fits st"
  unfolding holds_rec_def using read_record record_fits by blast

text \<open>Retiring a block the record points at and clearing the pointer.\<close>

lemma holds_rec_drop:
  assumes h: "holds_rec a R p st" and q: "stmt_data st = Some q \<or> stmt_txt st = Some q" and now: "now < 2 ^ 64"
    and st': "stmt_fits st'" "blocks p st' = remove1 q (blocks p st)"
  shows "read_stmt (mem (retire (Some q) now a)) p = st"
    "holds_rec ((retire (Some q) now a)\<lparr>mem := write_stmt (mem (retire (Some q) now a)) p st'\<rparr>) R p st'"
proof -
  obtain C where C: "heap.objects a C" "\<And>p e. R p = Some e \<Longrightarrow> entry_ok C p e" "apart_entries R" "record_at C p st"
     "distinct (blocks p st)" "\<And>x. x \<in> set (blocks p st) \<Longrightarrow> C x \<noteq> None"
     "\<And>p' s u v. R p' = Some (s, u, v) \<Longrightarrow> set (blocks p' s) \<inter> set (blocks p st) = {}"
    using h unfolding holds_rec_def by blast
  have qb: "q \<in> set (blocks p st)" "q \<noteq> p" using q C(5) by (auto simp: blocks_def opt_list_def)
  obtain bs where bs: "C q = Some bs" using C(6) [OF qb(1)] by blast
  let ?a = "retire (Some q) now a"
  have o: "heap.objects ?a (C(q := None))" by (rule heap.objects_discard [OF C(1) bs now])
  have r: "record_at (C(q := None)) p st" using C(4) qb(2) by (simp add: record_at_def)
  show "read_stmt (mem ?a) p = st" by (rule read_record [OF o r])
  note W = write_record [OF o r st'(1)]
  let ?C = "(C(q := None))(p \<mapsto> enc_stmt st')"
  have pb: "p \<in> set (blocks p st)" by (simp add: set_blocks)
  have sub: "set (blocks p st') = set (blocks p st) - {q}" using st'(2) C(5) by simp
  have "entry_ok ?C p' e" if e: "R p' = Some e" for p' e
  proof -
    obtain s u v where s: "e = (s, u, v)" by (cases e)
    have "x \<noteq> q \<and> x \<noteq> p" if "x \<in> set (blocks p' s)" for x using C(7) [of p' s u v] e s that qb(1) pb by blast
    then show ?thesis unfolding s using entry_cong [OF C(2) [OF e, unfolded s]] by simp
  qed
  moreover have "?C x \<noteq> None" if "x \<in> set (blocks p st')" for x using that sub C(6) by auto
  moreover have "set (blocks p' s) \<inter> set (blocks p st') = {}" if "R p' = Some (s, u, v)" for p' s u v using C(7) [OF that] sub by blast
  moreover have "distinct (blocks p st')" using st'(2) C(5) by (simp add: distinct_remove1)
  ultimately show "holds_rec (?a\<lparr>mem := write_stmt (mem ?a) p st'\<rparr>) R p st'"
    unfolding holds_rec_def using W C(3) by blast
qed

lemma holds_rec_retire:
  assumes "holds_rec a R p st" "now < 2 ^ 64"
  shows "owns (retire (Some p) now a) R"
proof -
  obtain C where C: "heap.objects a C" "\<And>p e. R p = Some e \<Longrightarrow> entry_ok C p e" "apart_entries R" "record_at C p st"
     "\<And>p' s u v. R p' = Some (s, u, v) \<Longrightarrow> set (blocks p' s) \<inter> set (blocks p st) = {}"
    using assms(1) unfolding holds_rec_def by blast
  have "C p = Some (enc_stmt st)" using C(4) by (simp add: record_at_def)
  from heap.objects_discard [OF C(1) this assms(2)] have o: "heap.objects (retire (Some p) now a) (C(p := None))" .
  show ?thesis
  proof (rule ownsI [OF o _ C(3)])
    fix p' e assume e: "R p' = Some e"
    obtain s u v where s: "e = (s, u, v)" by (cases e)
    have "p \<notin> set (blocks p' s)" using C(5) [of p' s u v] e s by (auto simp: set_blocks)
    then show "entry_ok (C(p := None)) p' e" unfolding s by (intro entry_cong [OF C(2) [OF e, unfolded s]]) auto
  qed
qed

text \<open>A fresh record for a statement: its text, then the record itself.\<close>

lemma owns_new:
  assumes "owns a R" "length sql < BNCL_STMT_MAX"
  shows "\<exists>tx a1 rec a2. put (sql @ [0]) a = Some (tx, a1) \<and> alloc STMT_BYTES a1 = Some (rec, a2)
    \<and> (if tx = None \<or> rec = None then owns a2 R
       else R (the rec) = None \<and> the rec < 2 ^ 32 \<and> 0 < the tx \<and> the tx < 2 ^ 32
         \<and> (\<forall>st. stmt_fits st \<longrightarrow> stmt_txt st = tx \<longrightarrow> stmt_len st = length sql \<longrightarrow> stmt_data st = None \<longrightarrow>
              owns (a2\<lparr>mem := write_stmt (mem a2) (the rec) st\<rparr>) (R(the rec \<mapsto> (st, sql, [])))))"
proof -
  obtain C where C: "heap.objects a C" "\<And>p e. R p = Some e \<Longrightarrow> entry_ok C p e" "apart_entries R" by (rule ownsE [OF assms(1)]) blast
  have lim: "length (sql @ [0]) \<le> alloc_limit" "STMT_BYTES \<le> alloc_limit" "0 < STMT_BYTES"
    using assms(2) by (simp_all add: alloc_limit_def STMT_BYTES_def BNCL_STMT_MAX_def)
  have ne: "sql @ [0] \<noteq> []" by simp
  obtain tx a1 D where P: "put (sql @ [0]) a = Some (tx, a1)" "heap.objects a1 D" "\<And>x. C x \<noteq> None \<Longrightarrow> D x = C x"
    "\<And>t. tx = Some t \<Longrightarrow> C t = None \<and> D t = Some (sql @ [0])"
    using heap_put [OF C(1) ne lim(1)]
  proof (elim disjE exE conjE)
    assume "put (sql @ [0]) a = Some (None, a)"
    then show ?thesis using that [of None a C] C(1) by simp
  next
    fix t a' assume t: "put (sql @ [0]) a = Some (Some t, a')" "C t = None" "heap.objects a' (C(t \<mapsto> sql @ [0]))"
    show ?thesis by (rule that [OF t(1,3)]) (use t(2) in auto)
  qed
  have oD: "entry_ok D p e" if "R p = Some e" for p e
  proof -
    obtain s u v where s: "e = (s, u, v)" by (cases e)
    have "D x = C x" if "x \<in> set (blocks p s)" for x using entry_blocks [OF C(2) [OF \<open>R p = Some e\<close>, unfolded s] that] by (rule P(3))
    then show ?thesis unfolding s by (intro entry_cong [OF C(2) [OF \<open>R p = Some e\<close>, unfolded s]]) simp
  qed
  from heap.objects_get [OF P(2) lim(3,2)] show ?thesis
  proof (elim disjE exE conjE)
    assume "alloc STMT_BYTES a1 = Some (None, a1)"
    then show ?thesis using P(1) ownsI [OF P(2) oD C(3)] by auto
  next
    fix p a2 assume p: "alloc STMT_BYTES a1 = Some (Some p, a2)" "D p = None"
      "heap.objects a2 (D(p \<mapsto> readBytes (mem a2) p STMT_BYTES))"
    let ?E = "D(p \<mapsto> readBytes (mem a2) p STMT_BYTES)"
    have fresh: "p \<notin> set (blocks q s)" if "R q = Some (s, u, v)" for q s u v
      using entry_blocks [OF oD [OF that], of p] p(2) by auto
    then have Rp: "R p = None" by (cases "R p") (auto simp: set_blocks)
    show ?thesis
    proof (cases tx)
      case None
      have oE: "entry_ok ?E q e" if "R q = Some e" for q e
      proof -
        obtain s u v where s: "e = (s, u, v)" by (cases e)
        show ?thesis unfolding s by (rule entry_cong [OF oD [OF that, unfolded s]]) (use fresh that s in auto)
      qed
      then show ?thesis using P(1) p(1) None ownsI [OF p(3) oE C(3)] by auto
    next
      case (Some t)
      have t: "C t = None" "D t = Some (sql @ [0])" "t \<noteq> p" using P(4) [OF Some] p(2) by auto
      have bd: "0 < t" "t < 2 ^ 32" "p < 2 ^ 32"
        using heap.objects_bound [OF p(3), of t] heap.objects_bound [OF p(3), of p] t by auto
      have "owns (a2\<lparr>mem := write_stmt (mem a2) p st\<rparr>) (R(p \<mapsto> (st, sql, [])))"
        if s: "stmt_fits st" "stmt_txt st = tx" "stmt_len st = length sql" "stmt_data st = None" for st
      proof -
        have o: "heap.objects (a2\<lparr>mem := write_stmt (mem a2) p st\<rparr>) (?E(p \<mapsto> enc_stmt st))"
          using heap.objects_write [OF p(3), of p _ "enc_stmt st"] by (simp add: write_stmt_def readBytes_def)
        show ?thesis
        proof (rule owns_change [OF o C(2,3)])
          show "entry_ok (?E(p \<mapsto> enc_stmt st)) p (st, sql, [])"
            using s t Some by (simp add: entry_ok_def record_at_def blocks_def opt_list_def)
        next
          fix p' s' u v x assume x: "R p' = Some (s', u, v)" "p' \<noteq> p" "x \<in> set (blocks p' s')"
          then have "x \<noteq> p" using fresh by blast
          then show "(?E(p \<mapsto> enc_stmt st)) x = C x" using P(3) entry_blocks [OF C(2) [OF x(1)] x(3)] by simp
        next
          fix x assume "x \<in> set (blocks p st)"
          then have "x = p \<or> x = t" using s(2,4) Some by (auto simp: set_blocks)
          moreover have "C p = None" using P(3) [of p] p(2) by force
          ultimately show "C x = None \<or> (\<exists>s u v. R p = Some (s, u, v) \<and> x \<in> set (blocks p s))" using t(1) by auto
        qed
      qed
      then show ?thesis using P(1) p(1) Some Rp bd by auto
    qed
  qed
qed

section \<open>The rest of the arena's operations\<close>

lemma owns_reclaim: "owns a R \<Longrightarrow> \<exists>a'. reclaim now a = Some a' \<and> owns a' R"
  unfolding owns_def using heap.objects_tick by metis

lemma owns_lock: "owns (a\<lparr>ctl := (ctl a)\<lparr>lock := v\<rparr>\<rparr>) R \<longleftrightarrow> owns a R"
  using objects_ctl [where a = a and v = v and w = "taken_ns (ctl a)"] unfolding owns_def by simp

end
