(* ===== verification/DaemonView.thy ===== *)
theory DaemonView
  imports Daemon CacheView
begin

text \<open>
  What the daemon's operations do to the cache: each lemma states the effect of one operation on the map of records behind \<open>owns\<close>.
\<close>

lemma arena_frame [simp]:
  "d_arena (d\<lparr>d_arena := a\<rparr>) = a" "d_arena (d\<lparr>d_valkey := v\<rparr>) = d_arena d" "d_arena (d\<lparr>cnt := c\<rparr>) = d_arena d" "d_arena (d\<lparr>d_maps := m\<rparr>) = d_arena d"
  by simp_all

lemma set_rec_arena [simp]: "d_arena (set_rec p st d) = (d_arena d)\<lparr>mem := write_stmt (mem (d_arena d)) p st\<rparr>"
  by (simp add: set_rec_def)

lemma set_rec_frame: "set_rec p st d = d\<lparr>d_arena := d_arena (set_rec p st d)\<rparr>"
  by (simp add: set_rec_def)

lemma rec_owned: "owns (d_arena d) R \<Longrightarrow> R p = Some (st, sql, pay) \<Longrightarrow> rec_at d p = st"
  unfolding rec_at_def by (rule owns_read(1))

lemma text_owned:
  assumes "owns (d_arena d) R" "R p = Some (st, sql, pay)"
  shows "stmtText d p = Some sql"
proof -
  obtain t where "stmt_txt st = Some t" using owns_read(5) [OF assms] by blast
  then show ?thesis using owns_read(3,4) [OF assms] rec_owned [OF assms] by (simp add: stmtText_def)
qed

lemma valkeyUp_frame: "\<exists>v. snd (valkeyUp d) = d\<lparr>d_valkey := v\<rparr>"
proof (cases "healthy (d_valkey d)")
  case True
  then have "snd (valkeyUp d) = d\<lparr>d_valkey := d_valkey d\<rparr>" by (simp add: valkeyUp_def)
  then show ?thesis ..
qed (auto simp: valkeyUp_def split: prod.splits)

section \<open>Keeping a payload\<close>

definition with_payload :: "nat \<Rightarrow> nat \<Rightarrow> nat \<Rightarrow> nat \<Rightarrow> stmt \<Rightarrow> stmt" where
  "with_payload q len ts ttl st = st\<lparr>stmt_data := Some q, stmt_data_len := len, stmt_ttl := ttl, stmt_ts := ts, stmt_state := STMT_S_LOCAL\<rparr>"

lemma u32_bound: "u32_of_int i < 2 ^ 32"
  unfolding u32_of_int_def by (simp add: nat_less_iff)

lemma fits_payload: "stmt_fits st \<Longrightarrow> 0 < q \<Longrightarrow> q < 2 ^ 64 \<Longrightarrow> len < 2 ^ 64 \<Longrightarrow> ts < 2 ^ 64 \<Longrightarrow> stmt_fits (with_payload q len ts (u32_of_int i) st)"
  using u32_bound [of i] by (simp add: stmt_fits_def with_payload_def STMT_S_LOCAL_def enc_ptr_def)

text \<open>Keeping a payload and then publishing it replaces the payload of that one statement; failing to allocate changes nothing.\<close>

lemma keep_publish:
  assumes own: "owns (d_arena d) R" "R p = Some (st, sql, pay)" and body: "body \<noteq> []" "length body \<le> alloc_limit"
    and now: "now < 2 ^ 64" "ts < 2 ^ 64"
  shows "keep p body now d = Some (None, d) \<and> put body (d_arena d) = Some (None, d_arena d) \<or>
    (\<exists>q a. keep p body now d = Some (Some q, d\<lparr>d_arena := a\<rparr>)
       \<and> owns (d_arena (publishPayload p (Some q) (length body) ts (d\<lparr>d_arena := a\<rparr>)))
           (R(p \<mapsto> (with_payload q (length body) ts (u32_of_int (o_ttl (opt d))) st, sql, body))))"
proof -
  note r = rec_owned [OF own]
  let ?st = "\<lambda>q. with_payload q (length body) ts (u32_of_int (o_ttl (opt d))) st"
  have len: "length body < 2 ^ 64" using body(2) by (simp add: alloc_limit_def)
  have pub: "d_arena (publishPayload p (Some q) (length body) ts (d\<lparr>d_arena := a\<rparr>)) = a\<lparr>mem := write_stmt (mem a) p (?st q)\<rparr>"
    if "read_stmt (mem a) p = st" for q a
    using that by (simp add: publishPayload_def rec_at_def with_payload_def)
  show ?thesis
  proof (cases "stmt_data st \<noteq> None \<and> stmt_data_len st = length body \<and> readBytes (mem (d_arena d)) (the (stmt_data st)) (length body) = body")
    case True
    then obtain q where q: "stmt_data st = Some q" by auto
    have pay: "pay = body" using owns_read(6,7) [OF own q] True q by (metis option.sel)
    have k: "keep p body now d = Some (Some q, d\<lparr>d_arena := d_arena d\<rparr>)" using True q r by (simp add: keep_def)
    have f: "stmt_fits (?st q)" using owns_read(2) [OF own] q len now(2) by (intro fits_payload) (auto simp: stmt_fits_def enc_ptr_def)
    have "owns ((d_arena d)\<lparr>mem := write_stmt (mem (d_arena d)) p (?st q)\<rparr>) (R(p \<mapsto> (?st q, sql, body)))"
      by (rule owns_write [OF own f]) (use q True pay in \<open>simp_all add: with_payload_def\<close>)
    then show ?thesis using k pub [OF owns_read(1) [OF own], of q] by (intro disjI2 exI [of _ q] exI [of _ "d_arena d"]) (simp del: arena_frame)
  next
    case False
    from owns_put [OF own body now(1)] show ?thesis
    proof (elim disjE exE conjE)
      assume "put body (d_arena d) = Some (None, d_arena d)"
      then show ?thesis using False r by (auto simp: keep_def Let_def)
    next
      fix q a assume q: "put body (d_arena d) = Some (Some q, a)" "read_stmt (mem a) p = st" "q < 2 ^ 32" "0 < q"
        "read_stmt (mem (if stmt_data st = None then a else retire (stmt_data st) now a)) p = st"
        "\<forall>st'. stmt_fits st' \<longrightarrow> stmt_txt st' = stmt_txt st \<longrightarrow> stmt_len st' = stmt_len st \<longrightarrow> stmt_data st' = Some q \<longrightarrow> stmt_data_len st' = length body \<longrightarrow>
            owns (let b = (if stmt_data st = None then a else retire (stmt_data st) now a) in b\<lparr>mem := write_stmt (mem b) p st'\<rparr>)
              (R(p \<mapsto> (st', sql, body)))"
      let ?b = "if stmt_data st = None then a else retire (stmt_data st) now a"
      have k: "keep p body now d = Some (Some q, d\<lparr>d_arena := ?b\<rparr>)"
        using False r q(1,2) by (auto simp: keep_def Let_def rec_at_def)
      have f: "stmt_fits (?st q)" using owns_read(2) [OF own] q(3,4) len now(2) by (intro fits_payload) auto
      have "owns (?b\<lparr>mem := write_stmt (mem ?b) p (?st q)\<rparr>) (R(p \<mapsto> (?st q, sql, body)))"
        using q(6) [rule_format, OF f] by (simp add: with_payload_def Let_def)
      then show ?thesis using k pub [OF q(5)] by (intro disjI2 exI [of _ q] exI [of _ ?b]) simp
    qed
  qed
qed

section \<open>Retiring a statement\<close>

lemma retireStmt_owns:
  assumes own: "owns (d_arena d) R" "R p = Some (st, sql, pay)" and now: "now < 2 ^ 64"
  shows "\<exists>a. retireStmt p now d = d\<lparr>d_arena := a\<rparr> \<and> owns a (R(p := None))"
proof -
  let ?R = "R(p := None)"
  have h: "holds_rec (d_arena d) ?R p st" by (rule owns_holds_rec [OF own])
  have r: "rec_at d p = st" by (rule rec_owned [OF own])
  have f: "stmt_fits st" by (rule owns_read(2) [OF own])
  obtain t where t: "stmt_txt st = Some t" using owns_read(5) [OF own] by blast
  have dis: "distinct (blocks p st)" using h by (auto simp: holds_rec_def)
  obtain a1 where a1: "(if stmt_data st \<noteq> None
       then set_rec p ((rec_at (d\<lparr>d_arena := retire (stmt_data st) now (d_arena d)\<rparr>) p)\<lparr>stmt_data := None, stmt_data_len := 0\<rparr>)
              (d\<lparr>d_arena := retire (stmt_data st) now (d_arena d)\<rparr>) else d) = d\<lparr>d_arena := a1\<rparr>"
    "\<exists>st1. holds_rec a1 ?R p st1 \<and> stmt_txt st1 = Some t \<and> stmt_data st1 = None"
  proof (cases "stmt_data st")
    case None
    then show ?thesis using that [of "d_arena d"] h t by auto
  next
    case (Some q)
    let ?st = "st\<lparr>stmt_data := None, stmt_data_len := 0\<rparr>"
    have b: "blocks p ?st = remove1 q (blocks p st)" using dis Some t by (auto simp: blocks_def opt_list_def)
    have f': "stmt_fits ?st" using f by (simp add: stmt_fits_def enc_ptr_def)
    have q: "stmt_data st = Some q \<or> stmt_txt st = Some q" using Some by simp
    note D = holds_rec_drop [OF h q now f' b]
    show ?thesis
      by (rule that [of "(retire (Some q) now (d_arena d))\<lparr>mem := write_stmt (mem (retire (Some q) now (d_arena d))) p ?st\<rparr>"])
        (use D t in \<open>auto simp: Some set_rec_def rec_at_def\<close>)
  qed
  obtain st1 where st1: "holds_rec a1 ?R p st1" "stmt_txt st1 = Some t" "stmt_data st1 = None" using a1(2) by blast
  let ?st2 = "st1\<lparr>stmt_txt := None\<rparr>" and ?a2 = "retire (Some t) now a1"
  have f1: "stmt_fits st1" "read_stmt (mem a1) p = st1" using holds_rec_read [OF st1(1)] by simp_all
  have dis1: "distinct (blocks p st1)" using st1(1) by (auto simp: holds_rec_def)
  have b: "blocks p ?st2 = remove1 t (blocks p st1)" using dis1 st1(2,3) by (auto simp: blocks_def opt_list_def)
  have f2: "stmt_fits ?st2" using f1(1) by (simp add: stmt_fits_def enc_ptr_def)
  have tq: "stmt_data st1 = Some t \<or> stmt_txt st1 = Some t" using st1(2) by simp
  note D = holds_rec_drop [OF st1(1) tq now f2 b]
  let ?a3 = "?a2\<lparr>mem := write_stmt (mem ?a2) p ?st2\<rparr>"
  have "retireStmt p now d = d\<lparr>d_arena := retire (Some p) now ?a3\<rparr>"
    unfolding retireStmt_def r Let_def a1(1) by (simp add: rec_at_def f1(2) st1(2) D(1) set_rec_def)
  then show ?thesis using holds_rec_retire [OF D(2) now] by blast
qed

text \<open>The records of a list that nobody holds any more are retired, the others stay as they are.\<close>

lemma collectLoop_owns:
  assumes "owns (d_arena d) R" "\<And>p. p \<in> set ps \<Longrightarrow> R p \<noteq> None" "distinct ps" "now < 2 ^ 64"
  shows "\<exists>a. collectLoop now ps d = (filter (\<lambda>p. stmt_refs (fst (the (R p))) \<noteq> 0) ps, d\<lparr>d_arena := a\<rparr>)
    \<and> owns a (R |` (- {p \<in> set ps. stmt_refs (fst (the (R p))) = 0}))"
  using assms
proof (induction ps arbitrary: d R)
  case Nil
  then have "collectLoop now [] d = ([], d\<lparr>d_arena := d_arena d\<rparr>)" by simp
  then show ?case using Nil(1) by (intro exI [of _ "d_arena d"]) (simp add: restrict_map_def)
next
  case (Cons p ps)
  obtain st sql pay where e: "R p = Some (st, sql, pay)" using Cons.prems(2) [of p] by auto
  have r: "rec_at d p = st" by (rule rec_owned [OF Cons.prems(1) e])
  show ?case
  proof (cases "stmt_refs st = 0")
    case True
    obtain a where a: "retireStmt p now d = d\<lparr>d_arena := a\<rparr>" "owns a (R(p := None))" using retireStmt_owns [OF Cons.prems(1) e Cons.prems(4)] by blast
    have ne: "q \<noteq> p" if "q \<in> set ps" for q using that Cons.prems(3) by auto
    have R: "(R(p := None)) q = R q" if "q \<in> set ps" for q using ne [OF that] by simp
    have h1: "owns (d_arena (d\<lparr>d_arena := a\<rparr>)) (R(p := None))" using a(2) by simp
    have h2: "\<And>q. q \<in> set ps \<Longrightarrow> (R(p := None)) q \<noteq> None" using R Cons.prems(2) by (metis list.set_intros(2))
    have h3: "distinct ps" using Cons.prems(3) by simp
    obtain a' where a': "collectLoop now ps (d\<lparr>d_arena := a\<rparr>) = (filter (\<lambda>q. stmt_refs (fst (the ((R(p := None)) q))) \<noteq> 0) ps, d\<lparr>d_arena := a\<rparr>\<lparr>d_arena := a'\<rparr>)"
      "owns a' ((R(p := None)) |` (- {q \<in> set ps. stmt_refs (fst (the ((R(p := None)) q))) = 0}))"
      using Cons.IH [OF h1 h2 h3 Cons.prems(4)] by blast
    have f: "filter (\<lambda>q. stmt_refs (fst (the ((R(p := None)) q))) \<noteq> 0) ps = filter (\<lambda>q. stmt_refs (fst (the (R q))) \<noteq> 0) ps"
      using R by (intro filter_cong) auto
    have m: "(R(p := None)) |` (- {q \<in> set ps. stmt_refs (fst (the ((R(p := None)) q))) = 0}) = R |` (- {q \<in> set (p # ps). stmt_refs (fst (the (R q))) = 0})"
      using R True e by (intro ext) (auto simp: restrict_map_def)
    show ?thesis using a' f m r True e a(1) by (intro exI [of _ a']) simp
  next
    case False
    obtain a' where a': "collectLoop now ps d = (filter (\<lambda>q. stmt_refs (fst (the (R q))) \<noteq> 0) ps, d\<lparr>d_arena := a'\<rparr>)"
      "owns a' (R |` (- {q \<in> set ps. stmt_refs (fst (the (R q))) = 0}))"
      using Cons.IH [OF Cons.prems(1)] Cons.prems(2-4) by auto
    have m: "{q \<in> set ps. stmt_refs (fst (the (R q))) = 0} = {q \<in> set (p # ps). stmt_refs (fst (the (R q))) = 0}" using False e by auto
    show ?thesis using a' r False e unfolding m by (intro exI [of _ a']) simp
  qed
qed


section \<open>Resolving and storing\<close>

definition local_hit :: "daemon \<Rightarrow> stmt \<Rightarrow> nat \<Rightarrow> bool" where
  "local_hit d st now \<longleftrightarrow> local_on d \<and> stmt_state st = STMT_S_LOCAL \<and> stmt_data st \<noteq> None \<and> \<not> expired st now"

text \<open>What the shared tier answers for a statement, once the daemon is connected to it.\<close>

definition upstream :: "daemon \<Rightarrow> bytes \<Rightarrow> bytes option" where
  "upstream d sql = fst (vk_get (cache_key sql) (d_valkey (snd (valkeyUp d))))"

definition forgotten :: "stmt \<Rightarrow> stmt" where
  "forgotten st = st\<lparr>stmt_data := None, stmt_data_len := 0, stmt_ts := 0\<rparr>"

lemma alloc_limit_63: "n < 2 ^ 63 \<Longrightarrow> n \<le> alloc_limit"
  by (simp add: alloc_limit_def)

lemma resolve_spec:
  assumes own: "owns (d_arena d) R" "R p = Some (st, sql, pay)" and sql: "sql \<noteq> []" and now: "now < 2 ^ 64" "now' < 2 ^ 64"
  shows "\<exists>d'. (local_hit d st now \<and> resolve p now now' d = Some (AGENT_OK, d') \<and> owns (d_arena d') R)
    \<or> (\<not> local_hit d st now \<and> resolve p now now' d = Some (AGENT_CACHE_ERROR, d') \<and> owns (d_arena d') R
         \<and> (fst (valkeyUp d) \<longrightarrow> (\<exists>body. upstream d sql = Some body \<and> put body (d_arena d) = Some (None, d_arena d))))
    \<or> (\<not> local_hit d st now \<and> resolve p now now' d = Some (AGENT_OK, d') \<and> (\<exists>q body. upstream d sql = Some body \<and> body \<noteq> []
         \<and> owns (d_arena d') (R(p \<mapsto> (with_payload q (length body) now (u32_of_int (o_ttl (opt d))) st, sql, body)))))
    \<or> (\<not> local_hit d st now \<and> resolve p now now' d = Some (AGENT_WRITE_THROUGH, d') \<and> upstream d sql \<in> {None, Some []}
         \<and> owns (d_arena d') (R(p \<mapsto> (forgotten st, sql, []))))"
proof (cases "local_hit d st now")
  case True
  then show ?thesis using own(1) rec_owned [OF own] by (intro exI [of _ d]) (simp add: resolve_def local_hit_def)
next
  case False
  obtain up d1 where u: "valkeyUp d = (up, d1)" by (cases "valkeyUp d")
  obtain v where v: "d1 = d\<lparr>d_valkey := v\<rparr>" using valkeyUp_frame [of d] u by auto
  show ?thesis
  proof (cases up)
    case False
    then have "resolve p now now' d = Some (AGENT_CACHE_ERROR, d1)"
      using \<open>\<not> local_hit d st now\<close> u rec_owned [OF own] by (auto simp: resolve_def local_hit_def)
    then show ?thesis using \<open>\<not> local_hit d st now\<close> own(1) v u False by auto
  next
    case True
    obtain got v2 where g: "vk_get (cache_key sql) v = (got, v2)" by (cases "vk_get (cache_key sql) v")
    let ?d = "d\<lparr>d_valkey := v2\<rparr>"
    have own': "owns (d_arena ?d) R" using own(1) by simp
    have up: "upstream d sql = got" using u v g by (simp add: upstream_def)
    have t: "stmtText d1 p = Some sql" using text_owned [of d1 R p] own v by simp
    have r: "resolve p now now' d = (if got \<noteq> None \<and> got \<noteq> Some []
               then (case keep p (the got) now' ?d of
                       None \<Rightarrow> None
                     | Some (None, d) \<Rightarrow> Some (AGENT_CACHE_ERROR, d)
                     | Some (Some q, d) \<Rightarrow> Some (AGENT_OK, publishPayload p (Some q) (length (the got)) now d))
               else Some (AGENT_WRITE_THROUGH, set_rec p (forgotten (rec_at ?d p)) ?d))"
      using \<open>\<not> local_hit d st now\<close> True u v g t sql rec_owned [OF own]
      by (auto simp: resolve_def local_hit_def Let_def forgotten_def)
    show ?thesis
    proof (cases "got \<noteq> None \<and> got \<noteq> Some []")
      case True
      then obtain body where b: "got = Some body" "body \<noteq> []" by auto
      have lim: "length body \<le> alloc_limit" using vk_get_bound [of "cache_key sql" v body v2] g b alloc_limit_63 by simp
      from keep_publish [OF own' own(2) b(2) lim now(2,1)] show ?thesis
      proof (elim disjE exE conjE)
        assume k: "keep p body now' ?d = Some (None, ?d)" and "put body (d_arena ?d) = Some (None, d_arena ?d)"
        then have "put body (d_arena d) = Some (None, d_arena d)" by simp
        moreover from k have "resolve p now now' d = Some (AGENT_CACHE_ERROR, ?d)" using r b by simp
        ultimately show ?thesis using \<open>\<not> local_hit d st now\<close> own' up b(1) by blast
      next
        fix q a assume k: "keep p body now' ?d = Some (Some q, ?d\<lparr>d_arena := a\<rparr>)"
          "owns (d_arena (publishPayload p (Some q) (length body) now (?d\<lparr>d_arena := a\<rparr>)))
             (R(p \<mapsto> (with_payload q (length body) now (u32_of_int (o_ttl (opt ?d))) st, sql, body)))"
        have "resolve p now now' d = Some (AGENT_OK, publishPayload p (Some q) (length body) now (?d\<lparr>d_arena := a\<rparr>))" using r b k(1) by simp
        moreover have "opt ?d = opt d" by simp
        ultimately show ?thesis using \<open>\<not> local_hit d st now\<close> up b k(2) by metis
      qed
    next
      case False
      have "resolve p now now' d = Some (AGENT_WRITE_THROUGH, set_rec p (forgotten st) ?d)" using r False rec_owned [OF own' own(2)] by auto
      moreover have "owns (d_arena (set_rec p (forgotten st) ?d)) (R(p \<mapsto> (forgotten st, sql, [])))"
        unfolding set_rec_arena by (rule owns_write [OF own' own(2)]) (use owns_read(2) [OF own] in \<open>auto simp: forgotten_def stmt_fits_def enc_ptr_def\<close>)
      moreover have "upstream d sql \<in> {None, Some []}" using up False by auto
      ultimately show ?thesis using \<open>\<not> local_hit d st now\<close> by blast
    qed
  qed
qed

text \<open>A stored response is acceptable: it parses under the canonical capabilities and comes from outside a transaction.\<close>

definition storable :: "bytes \<Rightarrow> bool" where
  "storable body \<longleftrightarrow> (\<exists>rs. parseResultSet body BNCL_CANONICAL_CAPS = Some rs \<and> \<not> has_bits (status rs) SERVER_STATUS_IN_TRANS)"

lemma store_spec:
  assumes own: "owns (d_arena d) R" "R p = Some (st, sql, pay)" and sql: "sql \<noteq> []" and now: "now < 2 ^ 64" "now' < 2 ^ 64"
    and pipe: "array_lookup (dpipes (d_maps d)) key = Some rec" "dp_stmt rec = Some p" and len: "length body \<le> BNCL_STORE_MAX"
  shows "\<exists>d'. (body = [] \<and> store key body now now' d = Some (False, d) \<and> d' = d)
    \<or> (body \<noteq> [] \<and> \<not> storable body \<and> store key body now now' d = Some (False, refuse d) \<and> d' = refuse d)
    \<or> (storable body \<and> store key body now now' d = Some (False, d') \<and> owns (d_arena d') R \<and> put body (d_arena d) = Some (None, d_arena d))
    \<or> (storable body \<and> store key body now now' d = Some (True, d')
       \<and> (\<exists>q. owns (d_arena d') (R(p \<mapsto> (with_payload q (length body) now' (u32_of_int (o_ttl (opt d))) st, sql, body)))))"
proof -
  have t: "stmtText d p = Some sql" by (rule text_owned [OF own])
  consider "body = []" | "body \<noteq> []" "\<not> storable body" | "body \<noteq> []" "storable body" by blast
  then show ?thesis
  proof cases
    case 1
    then show ?thesis using t pipe by (intro exI [of _ d]) (simp add: store_def)
  next
    case 2
    then have "store key body now now' d = Some (False, refuse d)" using t pipe sql
      by (auto simp: store_def storable_def split: option.splits)
    then show ?thesis using 2 by simp
  next
    case 3
    obtain rs where rs: "parseResultSet body BNCL_CANONICAL_CAPS = Some rs" "\<not> has_bits (status rs) SERVER_STATUS_IN_TRANS"
      using 3(2) by (auto simp: storable_def)
    obtain up d1 where u: "valkeyUp d = (up, d1)" by (cases "valkeyUp d")
    obtain v where v: "d1 = d\<lparr>d_valkey := v\<rparr>" using valkeyUp_frame [of d] u by auto
    obtain w where w: "(if up then d1\<lparr>d_valkey := snd (vk_setex (cache_key sql) body (o_ttl (opt d1)) (d_valkey d1))\<rparr> else d1) = d\<lparr>d_valkey := w\<rparr>"
      using v by (cases up) auto
    let ?d = "d\<lparr>d_valkey := w\<rparr>"
    have own': "owns (d_arena ?d) R" using own(1) by simp
    have lim: "length body \<le> alloc_limit" using len by (simp add: alloc_limit_def BNCL_STORE_MAX_def)
    have s: "store key body now now' d = (case keep p body now ?d of
               None \<Rightarrow> None
             | Some (None, d) \<Rightarrow> Some (False, d)
             | Some (Some q, d) \<Rightarrow> (let d = publishPayload p (Some q) (length body) now' d
                 in Some (True, d\<lparr>cnt := (cnt d)\<lparr>stores := stores (cnt d) + 1\<rparr>\<rparr>)))"
      using t pipe sql 3(1) rs u w by (simp add: store_def)
    from keep_publish [OF own' own(2) 3(1) lim now] show ?thesis
    proof (elim disjE exE conjE)
      assume "keep p body now ?d = Some (None, ?d)" "put body (d_arena ?d) = Some (None, d_arena ?d)"
      then show ?thesis using s 3 own' by auto
    next
      fix q a assume k: "keep p body now ?d = Some (Some q, ?d\<lparr>d_arena := a\<rparr>)"
        "owns (d_arena (publishPayload p (Some q) (length body) now' (?d\<lparr>d_arena := a\<rparr>)))
           (R(p \<mapsto> (with_payload q (length body) now' (u32_of_int (o_ttl (opt ?d))) st, sql, body)))"
      let ?e = "publishPayload p (Some q) (length body) now' (?d\<lparr>d_arena := a\<rparr>)"
      have "store key body now now' d = Some (True, ?e\<lparr>cnt := (cnt ?e)\<lparr>stores := stores (cnt ?e) + 1\<rparr>\<rparr>)" using s k(1) by (simp add: Let_def)
      moreover have "owns (d_arena (?e\<lparr>cnt := (cnt ?e)\<lparr>stores := stores (cnt ?e) + 1\<rparr>\<rparr>))
         (R(p \<mapsto> (with_payload q (length body) now' (u32_of_int (o_ttl (opt d))) st, sql, body)))" using k(2) by simp
      ultimately show ?thesis using 3 by blast
    qed
  qed
qed

end
