(* ===== verification/Publish.thy ===== *)
theory Publish
  imports DaemonView
begin

text \<open>
  Publishing and re-publishing the administrator's list: what \<open>loadStatements\<close> of \<open>src/src/daemon/main.cpp\<close> does to the records, the statement map and the orphans.
\<close>

text \<open>
  \<open>daemon_ok d R\<close>: the arena holds the records \<open>R\<close>, among them one for every listed statement, with the list's own reference, and the orphans.
\<close>

definition daemon_ok :: "daemon \<Rightarrow> (nat \<rightharpoonup> entry) \<Rightarrow> bool" where
  "daemon_ok d R \<longleftrightarrow> owns (d_arena d) R \<and> distinct (map fst (known d)) \<and> distinct (map snd (known d) @ orphans d)
     \<and> (\<forall>(sql, p)\<in>set (known d). length sql < BNCL_STMT_MAX \<and> (\<exists>st pay. R p = Some (st, sql, pay) \<and> 0 < stmt_refs st))
     \<and> (\<forall>p\<in>set (orphans d). R p \<noteq> None) \<and> next_id d < 2 ^ 32"

abbreviation list_ttl :: "daemon \<Rightarrow> nat" where
  "list_ttl d \<equiv> u32_of_int (o_ttl (opt d))"

abbreviation lookup_stmt :: "daemon \<Rightarrow> bytes \<Rightarrow> nat option" where
  "lookup_stmt d sql \<equiv> map_of (stmts_map (d_maps d)) (stmt_key sql)"

text \<open>What the loop over the new list has done so far: \<open>next\<close> holds the statements it has published.\<close>

definition from_list :: "daemon \<Rightarrow> (nat \<rightharpoonup> entry) \<Rightarrow> (nat \<rightharpoonup> entry) \<Rightarrow> bytes \<Rightarrow> nat \<Rightarrow> bool" where
  "from_list d0 R0 R sql p \<longleftrightarrow>
     (case map_of (known d0) sql of
        Some p' \<Rightarrow> p' = p \<and> (\<exists>st pay. R0 p = Some (st, sql, pay) \<and> R p = Some (st\<lparr>stmt_ttl := list_ttl d0\<rparr>, sql, pay))
      | None \<Rightarrow> R0 p = None \<and> (\<exists>st. R p = Some (st, sql, []) \<and> stmt_refs st = 1 \<and> stmt_ttl st = list_ttl d0))"

definition publishing :: "daemon \<Rightarrow> (nat \<rightharpoonup> entry) \<Rightarrow> (bytes \<times> nat) list \<Rightarrow> daemon \<Rightarrow> (nat \<rightharpoonup> entry) \<Rightarrow> bool" where
  "publishing d0 R0 next d R \<longleftrightarrow> owns (d_arena d) R \<and> known d = known d0 \<and> orphans d = orphans d0 \<and> opt d = opt d0 \<and> next_id d < 2 ^ 32
     \<and> (\<forall>p. p \<notin> snd ` set next \<longrightarrow> R p = R0 p) \<and> distinct (map fst next) \<and> distinct (map snd next)
     \<and> (\<forall>(sql, p)\<in>set next. length sql < BNCL_STMT_MAX \<and> lookup_stmt d sql = Some p \<and> from_list d0 R0 R sql p)
     \<and> (\<forall>k. k \<notin> stmt_key ` fst ` set next \<longrightarrow> map_of (stmts_map (d_maps d)) k = map_of (stmts_map (d_maps d0)) k)"

lemma from_list_cong: "R p = R' p \<Longrightarrow> from_list d0 R0 R sql p \<Longrightarrow> from_list d0 R0 R' sql p"
  by (auto simp: from_list_def split: option.splits)

lemma from_list_live: "from_list d0 R0 R sql p \<Longrightarrow> R p \<noteq> None"
  by (auto simp: from_list_def split: option.splits)

lemma update_new: "k \<notin> fst ` set xs \<Longrightarrow> AList.update k v xs = xs @ [(k, v)]"
  by (induction xs) auto

text \<open>One statement published: its record \<open>p\<close> was not yet in \<open>next\<close> and now has the entry of \<open>R'\<close>.\<close>

lemma publishing_step:
  assumes P: "publishing d0 R0 next d R" and sql: "length sql < BNCL_STMT_MAX" "sql \<notin> fst ` set next" "0 \<notin> set sql"
    and nul: "\<And>s. s \<in> fst ` set next \<Longrightarrow> 0 \<notin> set s"
    and a: "owns a R'" "from_list d0 R0 R' sql p" "p \<notin> snd ` set next" "\<And>q. q \<noteq> p \<Longrightarrow> R' q = R q"
    and m: "hash_update lim (stmt_key sql) p (stmts_map (d_maps d)) = Some sm"
    and d': "d_arena d' = a" "known d' = known d" "orphans d' = orphans d" "opt d' = opt d" "stmts_map (d_maps d') = sm" "next_id d' < 2 ^ 32"
  shows "publishing d0 R0 (next @ [(sql, p)]) d' R'"
proof -
  have sm: "map_of sm = (map_of (stmts_map (d_maps d)))(stmt_key sql \<mapsto> p)"
    using m by (auto simp: hash_update_def update_conv' split: if_splits)
  have key: "stmt_key s \<noteq> stmt_key sql" if "s \<in> fst ` set next" for s using stmt_key_inj [of s sql] nul [OF that] sql(2,3) that by auto
  have old: "length s < BNCL_STMT_MAX \<and> lookup_stmt d' s = Some q \<and> from_list d0 R0 R' s q" if "(s, q) \<in> set next" for s q
  proof -
    have "q \<noteq> p" using that a(3) by force
    then have "R q = R' q" using a(4) by simp
    moreover have "stmt_key s \<noteq> stmt_key sql" using key that by force
    moreover have "length s < BNCL_STMT_MAX \<and> lookup_stmt d s = Some q \<and> from_list d0 R0 R s q" using P that by (auto simp: publishing_def)
    moreover have "lookup_stmt d' s = lookup_stmt d s" using calculation(2) d'(5) sm by simp
    ultimately show ?thesis using from_list_cong by metis
  qed
  have "R' q = R0 q" if "q \<notin> snd ` set (next @ [(sql, p)])" for q using that P a(4) [of q] by (auto simp: publishing_def)
  moreover have "map_of (stmts_map (d_maps d')) k = map_of (stmts_map (d_maps d0)) k" if "k \<notin> stmt_key ` fst ` set (next @ [(sql, p)])" for k
    using that P d'(5) sm by (auto simp: publishing_def)
  ultimately show ?thesis using P old sql(1,2) a(1-3) d' sm by (auto simp: publishing_def)
qed

lemma findOrMake_spec:
  assumes ok: "daemon_ok d0 R0" and P: "publishing d0 R0 next d R" and sql: "length sql < BNCL_STMT_MAX" "sql \<notin> fst ` set next"
  shows "\<exists>r d'. findOrMake sql d = Some (r, d') \<and> known d' = known d \<and> orphans d' = orphans d \<and> opt d' = opt d \<and> d_maps d' = d_maps d \<and> next_id d' < 2 ^ 32
    \<and> (case r of None \<Rightarrow> owns (d_arena d') R
        | Some p \<Rightarrow> p \<notin> snd ` set next \<and> (\<exists>R'. owns (d_arena d') R' \<and> from_list d0 R0 R' sql p \<and> (\<forall>q. q \<noteq> p \<longrightarrow> R' q = R q)))"
proof (cases "map_of (known d0) sql")
  case (Some p)
  then have kp: "(sql, p) \<in> set (known d0)" by (rule map_of_SomeD)
  then obtain st pay where R0: "R0 p = Some (st, sql, pay)" using ok by (fastforce simp: daemon_ok_def)
  have "p \<notin> snd ` set next"
  proof
    assume "p \<in> snd ` set next"
    then obtain s where s: "(s, p) \<in> set next" by force
    then have "s \<noteq> sql" using sql(2) by (metis fst_conv image_eqI)
    moreover have "from_list d0 R0 R s p" using P s by (auto simp: publishing_def)
    ultimately have f: "from_list d0 R0 R s p" "s \<noteq> sql" by simp_all
    then have "(s, p) \<in> set (known d0)" using R0 by (auto simp: from_list_def split: option.splits dest: map_of_SomeD)
    moreover have "distinct (map snd (known d0))" using ok by (simp add: daemon_ok_def)
    ultimately show False using kp f(2) by (metis Pair_inject distinct_map inj_onD snd_conv)
  qed
  then have R: "R p = Some (st, sql, pay)" using P R0 by (simp add: publishing_def)
  have own: "owns (d_arena d) R" "opt d = opt d0" "known d = known d0" "next_id d < 2 ^ 32" using P by (simp_all add: publishing_def)
  let ?st = "st\<lparr>stmt_ttl := list_ttl d0\<rparr>" and ?R = "R(p \<mapsto> (st\<lparr>stmt_ttl := list_ttl d0\<rparr>, sql, pay))"
  have f: "stmt_fits ?st" using owns_read(2) [OF own(1) R] u32_bound by (simp add: stmt_fits_def)
  have "findOrMake sql d = Some (Some p, set_rec p ?st d)" using Some own(2,3) rec_owned [OF own(1) R] by (simp add: findOrMake_def)
  moreover have "owns (d_arena (set_rec p ?st d)) ?R" unfolding set_rec_arena by (rule owns_write [OF own(1) R f]) simp_all
  moreover have "from_list d0 R0 ?R sql p" using Some R0 by (simp add: from_list_def)
  ultimately show ?thesis using \<open>p \<notin> snd ` set next\<close> own(4)
    by (intro exI [of _ "Some p"] exI [of _ "set_rec p ?st d"]) (auto simp: set_rec_def intro!: exI [of _ ?R])
next
  case None
  have own: "owns (d_arena d) R" "opt d = opt d0" "known d = known d0" "next_id d < 2 ^ 32" using P by (simp_all add: publishing_def)
  obtain t a1 rc a2 where n: "put (sql @ [0]) (d_arena d) = Some (t, a1)" "alloc STMT_BYTES a1 = Some (rc, a2)"
    "if t = None \<or> rc = None then owns a2 R
       else R (the rc) = None \<and> the rc < 2 ^ 32 \<and> 0 < the t \<and> the t < 2 ^ 32
         \<and> (\<forall>st. stmt_fits st \<longrightarrow> stmt_txt st = t \<longrightarrow> stmt_len st = length sql \<longrightarrow> stmt_data st = None \<longrightarrow>
              owns (a2\<lparr>mem := write_stmt (mem a2) (the rc) st\<rparr>) (R(the rc \<mapsto> (st, sql, []))))"
    using owns_new [OF own(1) sql(1)] by blast
  have e: "findOrMake sql d = newRecord sql d" using None own(3) by (simp add: findOrMake_def)
  show ?thesis
  proof (cases "t = None \<or> rc = None")
    case True
    then have "newRecord sql d = Some (None, d\<lparr>d_arena := a2\<rparr>)" using n(1,2) by (cases t; cases rc) (auto simp: newRecord_def Let_def)
    then show ?thesis using e n(3) True own(4) by simp
  next
    case False
    then obtain x p where xp: "t = Some x" "rc = Some p" by auto
    let ?st = "zero_stmt\<lparr>stmt_refs := 1, stmt_txt := Some x, stmt_len := length sql, stmt_id := next_id d, stmt_ttl := list_ttl d\<rparr>"
    let ?R = "R(p \<mapsto> (?st, sql, []))"
    have N: "newRecord sql d = Some (Some p, (set_rec p ?st (d\<lparr>d_arena := a2\<rparr>))\<lparr>next_id := wrap32 (next_id d + 1)\<rparr>)"
      using n(1,2) xp by (simp add: newRecord_def)
    have f: "stmt_fits ?st" using n(3) xp own(4) u32_bound sql(1)
      by (simp add: stmt_fits_def zero_stmt_def enc_ptr_def STMT_S_LOCAL_def BNCL_STMT_MAX_def)
    have "owns (a2\<lparr>mem := write_stmt (mem a2) p ?st\<rparr>) ?R" "R p = None"
      using n(3) xp f by (auto simp: zero_stmt_def)
    moreover have "p \<notin> snd ` set next" using P from_list_live calculation(2) by (fastforce simp: publishing_def)
    moreover have "R0 p = None" using P calculation(2,3) by (simp add: publishing_def)
    moreover have "from_list d0 R0 ?R sql p" using None calculation(4) own(2) by (simp add: from_list_def)
    moreover have "wrap32 (next_id d + 1) < 2 ^ 32" by (simp add: wrap32_def)
    ultimately show ?thesis unfolding e N by (auto simp: set_rec_def intro!: exI [of _ ?R])
  qed
qed

text \<open>While the loop runs, and when it gives up, every record the daemon knows is in place.\<close>

definition built :: "daemon \<Rightarrow> (nat \<rightharpoonup> entry) \<Rightarrow> (nat \<rightharpoonup> entry) \<Rightarrow> bool" where
  "built d0 R0 R \<longleftrightarrow> (\<forall>p. R p = R0 p \<or> (\<exists>sql. from_list d0 R0 R sql p))"

lemma from_lists_ok:
  assumes ok: "daemon_ok d0 R0" and d: "owns (d_arena d) R" "known d = known d0" "orphans d = orphans d0" "next_id d < 2 ^ 32"
    and built: "built d0 R0 R"
  shows "daemon_ok d R"
proof -
  have R: "R p = R0 p \<or> (\<exists>sql. from_list d0 R0 R sql p)" for p using built by (simp add: built_def)
  have "R p \<noteq> None" if "R0 p \<noteq> None" for p using R [of p] that from_list_live by metis
  moreover have "\<exists>st pay. R p = Some (st, sql, pay) \<and> 0 < stmt_refs st" if k: "(sql, p) \<in> set (known d0)" for sql p
  proof -
    obtain st pay where e: "R0 p = Some (st, sql, pay)" "0 < stmt_refs st" using ok k by (fastforce simp: daemon_ok_def)
    from R [of p] show ?thesis
    proof (elim disjE exE)
      fix s assume "from_list d0 R0 R s p"
      then show ?thesis using e by (auto simp: from_list_def split: option.splits)
    qed (use e in auto)
  qed
  ultimately show ?thesis using ok d by (fastforce simp: daemon_ok_def)
qed

lemma publishing_built: "publishing d0 R0 next d R \<Longrightarrow> built d0 R0 R"
  unfolding built_def
proof
  fix p assume P: "publishing d0 R0 next d R"
  show "R p = R0 p \<or> (\<exists>sql. from_list d0 R0 R sql p)"
  proof (cases "p \<in> snd ` set next")
    case True
    then obtain s where "(s, p) \<in> set next" by force
    then show ?thesis using P by (auto simp: publishing_def)
  qed (use P in \<open>simp add: publishing_def\<close>)
qed

lemma publishing_ok: "daemon_ok d0 R0 \<Longrightarrow> publishing d0 R0 next d R \<Longrightarrow> daemon_ok d R"
  by (rule from_lists_ok [OF _ _ _ _ _ publishing_built]) (auto simp: publishing_def)

lemma publishAll_spec:
  assumes ok: "daemon_ok d0 R0" and P: "publishing d0 R0 next d R" and "distinct ss" "fst ` set next \<inter> set ss = {}"
    "\<And>s. s \<in> fst ` set next \<union> set ss \<Longrightarrow> 0 \<notin> set s"
  shows "\<exists>ok next' d' R'. publishAll ss next d = Some (ok, next', d') \<and> daemon_ok d' R' \<and> built d0 R0 R'
    \<and> known d' = known d0 \<and> orphans d' = orphans d0 \<and> opt d' = opt d0
    \<and> (ok \<longrightarrow> publishing d0 R0 next' d' R' \<and> fst ` set next' = fst ` set next \<union> {s \<in> set ss. length s < BNCL_STMT_MAX})"
  using assms(2-5)
proof (induction ss arbitrary: "next" d R)
  case Nil
  then show ?case using publishing_ok [OF ok Nil(1)] publishing_built [OF Nil(1)] by (auto simp: publishing_def)
next
  case (Cons sql ss)
  show ?case
  proof (cases "length sql < BNCL_STMT_MAX")
    case False
    then have "publishAll (sql # ss) next d = publishAll ss next d" by (simp add: BNCL_STMT_MAX_def)
    moreover have "{s \<in> set (sql # ss). length s < BNCL_STMT_MAX} = {s \<in> set ss. length s < BNCL_STMT_MAX}" using False by auto
    ultimately show ?thesis using Cons.IH [OF Cons.prems(1)] Cons.prems(2-4) by auto
  next
    case True
    have new: "sql \<notin> fst ` set next" using Cons.prems(3) by auto
    obtain r d1 where F: "findOrMake sql d = Some (r, d1)" "known d1 = known d" "orphans d1 = orphans d" "opt d1 = opt d" "d_maps d1 = d_maps d" "next_id d1 < 2 ^ 32"
      "case r of None \<Rightarrow> owns (d_arena d1) R
        | Some p \<Rightarrow> p \<notin> snd ` set next \<and> (\<exists>R'. owns (d_arena d1) R' \<and> from_list d0 R0 R' sql p \<and> (\<forall>q. q \<noteq> p \<longrightarrow> R' q = R q))"
      using findOrMake_spec [OF ok Cons.prems(1) True new] by blast
    have l: "\<not> length sql > BNCL_STMT_MAX - 1" using True by simp
    show ?thesis
    proof (cases r)
      case None
      then have "publishing d0 R0 next d1 R" using Cons.prems(1) F by (simp add: publishing_def)
      moreover have "publishAll (sql # ss) next d = Some (False, next, d1)" using F(1) None l by simp
      moreover have "known d1 = known d0" "orphans d1 = orphans d0" "opt d1 = opt d0" using F Cons.prems(1) by (simp_all add: publishing_def)
      ultimately show ?thesis using publishing_ok [OF ok] publishing_built by blast
    next
      case (Some p)
      then obtain R' where R': "p \<notin> snd ` set next" "owns (d_arena d1) R'" "from_list d0 R0 R' sql p" "\<And>q. q \<noteq> p \<Longrightarrow> R' q = R q" using F(7) by auto
      show ?thesis
      proof (cases "hash_update (max_stmts (d_maps d1)) (stmt_key sql) p (stmts_map (d_maps d1))")
        case None
        have "R' q = R0 q \<or> (\<exists>s. from_list d0 R0 R' s q)" for q
        proof (cases "q = p \<or> q \<notin> snd ` set next")
          case True
          have "\<forall>q. q \<notin> snd ` set next \<longrightarrow> R q = R0 q" using Cons.prems(1) by (simp add: publishing_def)
          then show ?thesis using R'(3) R'(4) [of q] True by (cases "q = p") auto
        next
          case False
          then obtain s where "(s, q) \<in> set next" by force
          then have "from_list d0 R0 R s q" using Cons.prems(1) by (auto simp: publishing_def)
          then show ?thesis using from_list_cong R'(4) False by metis
        qed
        then have "built d0 R0 R'" by (simp add: built_def)
        moreover from this have "daemon_ok d1 R'" using from_lists_ok [OF ok R'(2)] F Cons.prems(1) by (simp add: publishing_def)
        moreover have "publishAll (sql # ss) next d = Some (False, next, d1)" using F(1) \<open>r = Some p\<close> None l by simp
        moreover have "known d1 = known d0" "orphans d1 = orphans d0" "opt d1 = opt d0" using F Cons.prems(1) by (simp_all add: publishing_def)
        ultimately show ?thesis by blast
      next
        case (Some sm)
        let ?d = "d1\<lparr>d_maps := (d_maps d1)\<lparr>stmts_map := sm\<rparr>\<rparr>"
        have "publishing d0 R0 (next @ [(sql, p)]) ?d R'"
          by (rule publishing_step [OF Cons.prems(1) True new _ _ R'(2,3,1,4)]) (use Cons.prems(4) F Some in auto)
        moreover have "publishAll (sql # ss) next d = publishAll ss (next @ [(sql, p)]) ?d"
          using F(1) \<open>r = Some p\<close> Some l new by (simp add: update_new)
        moreover have "fst ` set (next @ [(sql, p)]) \<union> {s \<in> set ss. length s < BNCL_STMT_MAX} = fst ` set next \<union> {s \<in> set (sql # ss). length s < BNCL_STMT_MAX}"
          using True by auto
        ultimately show ?thesis using Cons.IH [of "next @ [(sql, p)]" ?d R'] Cons.prems(2-4) by auto
      qed
    qed
  qed
qed


section \<open>Statements that left the list\<close>

text \<open>The entry after the list's own reference is dropped: gone with the last reference, otherwise one reference less.\<close>

definition released :: "(nat \<rightharpoonup> entry) \<Rightarrow> nat \<Rightarrow> entry option" where
  "released R p = (case R p of
     Some (st, sql, pay) \<Rightarrow> if stmt_refs st = 1 then None else Some (st\<lparr>stmt_refs := stmt_refs st - 1\<rparr>, sql, pay)
   | None \<Rightarrow> None)"

lemma unpublish_spec:
  assumes own: "owns (d_arena d) R" "R p = Some (st, sql, pay)" and refs: "0 < stmt_refs st" and now: "now < 2 ^ 64"
  shows "\<exists>a. unpublish now sql p d = d\<lparr>d_arena := a, d_maps := (d_maps d)\<lparr>stmts_map := AList.delete (stmt_key sql) (stmts_map (d_maps d))\<rparr>,
      orphans := orphans d @ (if stmt_refs st = 1 then [] else [p])\<rparr>
    \<and> owns a (R(p := released R p))"
proof -
  let ?st = "st\<lparr>stmt_refs := stmt_refs st - 1\<rparr>" and ?a = "d_arena d"
  let ?m = "(d_maps d)\<lparr>stmts_map := AList.delete (stmt_key sql) (stmts_map (d_maps d))\<rparr>"
  obtain C where C: "heap.objects ?a C" "record_at C p st" using own by (auto elim!: ownsE simp: entry_ok_def)
  note B = put_step [OF C refs]
  let ?a1 = "?a\<lparr>mem := write_stmt (mem ?a) p ?st\<rparr>"
  have o1: "owns ?a1 (R(p \<mapsto> (?st, sql, pay)))" by (rule owns_write [OF own B(2)]) simp_all
  let ?d = "d\<lparr>d_maps := ?m, d_arena := ?a1\<rparr>"
  have u: "unpublish now sql p d = (if stmt_refs st = 1 then retireStmt p now ?d else ?d\<lparr>orphans := orphans d @ [p]\<rparr>)"
    using B(1) by (simp add: unpublish_def Let_def)
  show ?thesis
  proof (cases "stmt_refs st = 1")
    case True
    have "(R(p \<mapsto> (?st, sql, pay))) p = Some (?st, sql, pay)" by simp
    then obtain a where a: "retireStmt p now ?d = ?d\<lparr>d_arena := a\<rparr>" "owns a ((R(p \<mapsto> (?st, sql, pay)))(p := None))"
      using retireStmt_owns [of ?d "R(p \<mapsto> (?st, sql, pay))" p ?st sql pay now] o1 now by auto
    have "released R p = None" using own(2) True by (simp add: released_def)
    then show ?thesis using a u True by (intro exI [of _ a]) simp
  next
    case False
    then have "released R p = Some (?st, sql, pay)" using own(2) by (simp add: released_def)
    then show ?thesis using o1 u False by (intro exI [of _ ?a1]) simp
  qed
qed

text \<open>The records of \<open>rest\<close> whose statement is not in \<open>next\<close>.\<close>

abbreviation gone :: "(bytes \<times> nat) list \<Rightarrow> (bytes \<times> nat) list \<Rightarrow> (bytes \<times> nat) list" where
  "gone next rest \<equiv> filter (\<lambda>(sql, p). map_of next sql = None) rest"

lemma dropGone_spec:
  assumes "owns (d_arena d) R" "now < 2 ^ 64" "distinct (map snd rest)"
    "\<And>sql p. (sql, p) \<in> set rest \<Longrightarrow> map_of next sql = None \<Longrightarrow> \<exists>st pay. R p = Some (st, sql, pay) \<and> 0 < stmt_refs st"
  shows "\<exists>a sm. dropGone now next rest d = d\<lparr>d_arena := a, d_maps := (d_maps d)\<lparr>stmts_map := sm\<rparr>,
      orphans := orphans d @ filter (\<lambda>p. released R p \<noteq> None) (map snd (gone next rest))\<rparr>
    \<and> owns a (\<lambda>p. if p \<in> snd ` set (gone next rest) then released R p else R p)
    \<and> (\<forall>k. map_of sm k = (if k \<in> stmt_key ` fst ` set (gone next rest) then None else map_of (stmts_map (d_maps d)) k))"
  using assms
proof (induction rest arbitrary: d R)
  case Nil
  have "dropGone now next [] d = d\<lparr>d_arena := d_arena d, d_maps := (d_maps d)\<lparr>stmts_map := stmts_map (d_maps d)\<rparr>, orphans := orphans d @ []\<rparr>" by simp
  then show ?case using Nil(1) by (intro exI [of _ "d_arena d"] exI [of _ "stmts_map (d_maps d)"]) simp
next
  case (Cons e rest)
  obtain sql p where e: "e = (sql, p)" by (cases e)
  show ?case
  proof (cases "map_of next sql = None")
    case False
    then have s: "dropGone now next (e # rest) d = dropGone now next rest d" "gone next (e # rest) = gone next rest" by (auto simp: e)
    have "distinct (map snd rest)" using Cons.prems(3) by simp
    moreover have "\<And>sql p. (sql, p) \<in> set rest \<Longrightarrow> map_of next sql = None \<Longrightarrow> \<exists>st pay. R p = Some (st, sql, pay) \<and> 0 < stmt_refs st"
      using Cons.prems(4) by simp
    ultimately show ?thesis unfolding s by (rule Cons.IH [OF Cons.prems(1,2)])
  next
    case True
    obtain st pay where r: "R p = Some (st, sql, pay)" "0 < stmt_refs st" using Cons.prems(4) [of sql p] True e by auto
    let ?m = "(d_maps d)\<lparr>stmts_map := AList.delete (stmt_key sql) (stmts_map (d_maps d))\<rparr>"
    obtain a where a: "unpublish now sql p d = d\<lparr>d_arena := a, d_maps := ?m, orphans := orphans d @ (if stmt_refs st = 1 then [] else [p])\<rparr>"
      "owns a (R(p := released R p))" using unpublish_spec [OF Cons.prems(1) r Cons.prems(2)] by blast
    let ?d = "d\<lparr>d_arena := a, d_maps := ?m, orphans := orphans d @ (if stmt_refs st = 1 then [] else [p])\<rparr>" and ?R = "R(p := released R p)"
    have pn: "p \<notin> snd ` set rest" using Cons.prems(3) e by auto
    then have pq: "q \<noteq> p" if "(s, q) \<in> set rest" for s q using that by force
    have rel: "released ?R q = released R q" if "q \<noteq> p" for q using that by (simp add: released_def)
    have "owns (d_arena ?d) ?R" using a(2) by simp
    moreover have "\<exists>st pay. ?R q = Some (st, s, pay) \<and> 0 < stmt_refs st" if "(s, q) \<in> set rest" "map_of next s = None" for s q
      using Cons.prems(4) [of s q] that pq [OF that(1)] by auto
    moreover have "distinct (map snd rest)" using Cons.prems(3) by simp
    ultimately obtain a' sm where I: "dropGone now next rest ?d = ?d\<lparr>d_arena := a', d_maps := (d_maps ?d)\<lparr>stmts_map := sm\<rparr>,
        orphans := orphans ?d @ filter (\<lambda>p. released ?R p \<noteq> None) (map snd (gone next rest))\<rparr>"
      "owns a' (\<lambda>q. if q \<in> snd ` set (gone next rest) then released ?R q else ?R q)"
      "\<forall>k. map_of sm k = (if k \<in> stmt_key ` fst ` set (gone next rest) then None else map_of (stmts_map (d_maps ?d)) k)"
      using Cons.IH [of ?d ?R] Cons.prems(2) by blast
    have g: "gone next (e # rest) = (sql, p) # gone next rest" using True e by simp
    have f: "filter (\<lambda>q. released ?R q \<noteq> None) (map snd (gone next rest)) = filter (\<lambda>q. released R q \<noteq> None) (map snd (gone next rest))"
      using pq rel by (intro filter_cong) auto
    have rp: "(released R p \<noteq> None) = (stmt_refs st \<noteq> 1)" using r by (simp add: released_def)
    have "dropGone now next (e # rest) d = dropGone now next rest ?d" using True a(1) e by simp
    also have "\<dots> = d\<lparr>d_arena := a', d_maps := (d_maps d)\<lparr>stmts_map := sm\<rparr>,
        orphans := orphans d @ filter (\<lambda>q. released R q \<noteq> None) (map snd (gone next (e # rest)))\<rparr>"
      unfolding I(1) f g using rp by simp
    finally have A: "dropGone now next (e # rest) d = d\<lparr>d_arena := a', d_maps := (d_maps d)\<lparr>stmts_map := sm\<rparr>,
        orphans := orphans d @ filter (\<lambda>q. released R q \<noteq> None) (map snd (gone next (e # rest)))\<rparr>" .
    have "(\<lambda>q. if q \<in> snd ` set (gone next rest) then released ?R q else ?R q) = (\<lambda>q. if q \<in> snd ` set (gone next (e # rest)) then released R q else R q)"
      using pn rel unfolding g by (intro ext) force
    with I(2) have B: "owns a' (\<lambda>q. if q \<in> snd ` set (gone next (e # rest)) then released R q else R q)" by simp
    have "\<forall>k. map_of sm k = (if k \<in> stmt_key ` fst ` set (gone next (e # rest)) then None else map_of (stmts_map (d_maps d)) k)"
      using I(3) unfolding g by (auto simp: delete_conv')
    with A B show ?thesis by blast
  qed
qed

end
