(* ===== verification/DaemonSpec.thy ===== *)
theory DaemonSpec
  imports Publish
begin

text \<open>The properties of the daemon, over the cache view of its arena.\<close>

section \<open>Reloading\<close>

lemma publishing_start: "daemon_ok d R \<Longrightarrow> publishing d R [] d R"
  by (simp add: publishing_def daemon_ok_def)

text \<open>A pointer of a statement that left the list is not one of the new list.\<close>

lemma gone_pointer:
  assumes ok: "daemon_ok d R" and P: "publishing d R next d1 R1" and k: "(s, p) \<in> set (known d)" "map_of next s = None"
  shows "p \<notin> snd ` set next" "R1 p = R p"
proof -
  obtain st pay where e: "R p = Some (st, s, pay)" using ok k(1) by (fastforce simp: daemon_ok_def)
  show n: "p \<notin> snd ` set next"
  proof
    assume "p \<in> snd ` set next"
    then obtain s' where s': "(s', p) \<in> set next" by force
    then have f: "from_list d R R1 s' p" using P by (auto simp: publishing_def)
    then have "(s', p) \<in> set (known d)" using e by (auto simp: from_list_def split: option.splits dest: map_of_SomeD)
    moreover have "distinct (map snd (known d))" using ok by (simp add: daemon_ok_def)
    ultimately have "s' = s" using k(1) by (metis Pair_inject distinct_map inj_onD snd_conv)
    then show False using s' k(2) by (metis map_of_eq_None_iff fst_conv image_eqI)
  qed
  then show "R1 p = R p" using P by (simp add: publishing_def)
qed

lemma next_pointer:
  assumes ok: "daemon_ok d R" and P: "publishing d R next d1 R1" and n: "(s, p) \<in> set next"
  shows "p \<notin> set (orphans d)" "\<exists>st pay. R1 p = Some (st, s, pay) \<and> 0 < stmt_refs st" "length s < BNCL_STMT_MAX"
proof -
  have f: "from_list d R R1 s p" "length s < BNCL_STMT_MAX" using P n by (auto simp: publishing_def)
  show "length s < BNCL_STMT_MAX" by (rule f(2))
  show "p \<notin> set (orphans d)"
  proof (cases "map_of (known d) s")
    case None
    then have "R p = None" using f(1) by (simp add: from_list_def)
    then show ?thesis using ok by (auto simp: daemon_ok_def)
  next
    case (Some q)
    then have "p \<in> set (map snd (known d))" using f(1) by (force simp: from_list_def dest: map_of_SomeD)
    then show ?thesis using ok by (auto simp: daemon_ok_def)
  qed
  show "\<exists>st pay. R1 p = Some (st, s, pay) \<and> 0 < stmt_refs st"
  proof (cases "map_of (known d) s")
    case None
    then show ?thesis using f(1) by (auto simp: from_list_def)
  next
    case (Some q)
    then have "(s, p) \<in> set (known d)" using f(1) by (auto simp: from_list_def dest: map_of_SomeD)
    then obtain st pay where "R p = Some (st, s, pay)" "0 < stmt_refs st" using ok by (fastforce simp: daemon_ok_def)
    then show ?thesis using f(1) Some by (auto simp: from_list_def)
  qed
qed

lemma goneE:
  assumes "p \<in> snd ` set (gone next ks)"
  obtains s where "(s, p) \<in> set ks" "map_of next s = None"
proof -
  obtain x where "x \<in> set ks" "case x of (s, q) \<Rightarrow> map_of next s = None" "p = snd x" using assms unfolding image_iff set_filter by blast
  then show thesis using that [of "fst x"] by (simp add: case_prod_beta)
qed

lemma gone_pointers:
  assumes "daemon_ok d R" "publishing d R next d1 R1"
  shows "snd ` set (gone next (known d)) = snd ` set (known d) - snd ` set next"
proof (intro set_eqI iffI)
  fix p assume "p \<in> snd ` set (gone next (known d))"
  then obtain s where s: "(s, p) \<in> set (known d)" "map_of next s = None" by (rule goneE)
  then show "p \<in> snd ` set (known d) - snd ` set next" using gone_pointer(1) [OF assms s] by force
next
  fix p assume p: "p \<in> snd ` set (known d) - snd ` set next"
  then obtain s where s: "(s, p) \<in> set (known d)" by force
  have "map_of next s = None"
  proof (rule ccontr)
    assume "map_of next s \<noteq> None"
    then obtain q where q: "(s, q) \<in> set next" by (auto dest: map_of_SomeD)
    have "map_of (known d) s = Some p" using assms(1) s by (simp add: daemon_ok_def)
    moreover have "from_list d R R1 s q" using assms(2) q by (auto simp: publishing_def)
    ultimately have "q = p" by (simp add: from_list_def)
    then show False using q p by force
  qed
  then show "p \<in> snd ` set (gone next (known d))" using s by force
qed

lemma gone_keyE:
  assumes "k \<in> stmt_key ` fst ` set (gone next ks)"
  obtains s p where "(s, p) \<in> set ks" "map_of next s = None" "k = stmt_key s"
proof -
  obtain x where "x \<in> set ks" "case x of (s, q) \<Rightarrow> map_of next s = None" "k = stmt_key (fst x)" using assms unfolding image_iff set_filter by blast
  then show thesis using that [of "fst x" "snd x"] by (simp add: case_prod_beta)
qed

lemma key_stays:
  assumes "s \<in> S" "map_of next s \<noteq> None" "\<And>s. s \<in> S \<union> fst ` set ks \<Longrightarrow> 0 \<notin> set s"
  shows "stmt_key s \<notin> stmt_key ` fst ` set (gone next ks)"
proof
  assume "stmt_key s \<in> stmt_key ` fst ` set (gone next ks)"
  then obtain s' p where g: "(s', p) \<in> set ks" "map_of next s' = None" "stmt_key s = stmt_key s'" by (rule gone_keyE)
  have "s' \<in> fst ` set ks" using g(1) by (rule rev_image_eqI) simp
  then have "0 \<notin> set s'" "0 \<notin> set s" using assms(1,3) by blast+
  then have "s = s'" using stmt_key_inj [OF g(3)] by blast
  then show False using g(2) assms(2) by simp
qed

text \<open>Statements already known and published need no room anywhere.\<close>

lemma publishAll_known:
  assumes "\<And>s. s \<in> set ss \<Longrightarrow> length s < BNCL_STMT_MAX \<Longrightarrow> map_of (known d) s \<noteq> None \<and> lookup_stmt d s \<noteq> None"
  shows "\<exists>next' d'. publishAll ss next d = Some (True, next', d')"
  using assms
proof (induction ss arbitrary: "next" d)
  case Nil
  then show ?case by simp
next
  case (Cons s ss)
  show ?case
  proof (cases "length s < BNCL_STMT_MAX")
    case False
    then have "BNCL_STMT_MAX - 1 < length s" by (simp add: BNCL_STMT_MAX_def)
    moreover have "\<exists>next' d'. publishAll ss next d = Some (True, next', d')" by (rule Cons.IH) (use Cons.prems in auto)
    ultimately show ?thesis by simp
  next
    case True
    then obtain p where p: "map_of (known d) s = Some p" "lookup_stmt d s \<noteq> None" using Cons.prems by auto
    let ?d = "set_rec p ((rec_at d p)\<lparr>stmt_ttl := u32_of_int (o_ttl (opt d))\<rparr>) d"
    let ?sm = "AList.update (stmt_key s) p (stmts_map (d_maps d))"
    have h: "hash_update (max_stmts (d_maps ?d)) (stmt_key s) p (stmts_map (d_maps ?d)) = Some ?sm" using p(2) by (simp add: hash_update_def set_rec_def)
    let ?e = "?d\<lparr>d_maps := (d_maps ?d)\<lparr>stmts_map := ?sm\<rparr>\<rparr>"
    have "\<exists>next' d'. publishAll ss (AList.update s p next) ?e = Some (True, next', d')"
      by (rule Cons.IH) (use Cons.prems in \<open>auto simp: set_rec_def update_conv'\<close>)
    moreover have "\<not> BNCL_STMT_MAX - 1 < length s" using True by simp
    ultimately show ?thesis using p h by (simp add: findOrMake_def)
  qed
qed

text \<open>The daemon after a complete reload.\<close>

lemma reloaded_ok:
  assumes ok: "daemon_ok d R" and P: "publishing d R next d1 R1" and now: "now < 2 ^ 64"
  defines "R' \<equiv> \<lambda>p. if p \<in> snd ` set (gone next (known d)) then released R1 p else R1 p"
  shows "\<exists>d2. dropGone now next (known d1) d1 = d2 \<and> daemon_ok (d2\<lparr>known := next, d_list := l\<rparr>) R'
    \<and> orphans d2 = orphans d @ filter (\<lambda>p. released R1 p \<noteq> None) (map snd (gone next (known d)))
    \<and> (\<forall>k. map_of (stmts_map (d_maps d2)) k = (if k \<in> stmt_key ` fst ` set (gone next (known d)) then None else map_of (stmts_map (d_maps d1)) k))"
proof -
  have p1: "known d1 = known d" "orphans d1 = orphans d" "owns (d_arena d1) R1" "next_id d1 < 2 ^ 32" "distinct (map fst next)" "distinct (map snd next)"
    using P by (simp_all add: publishing_def)
  have dk: "distinct (map snd (known d))" "distinct (orphans d)" "set (map snd (known d)) \<inter> set (orphans d) = {}" using ok by (auto simp: daemon_ok_def)
  have g: "\<exists>st pay. R1 p = Some (st, s, pay) \<and> 0 < stmt_refs st" if "(s, p) \<in> set (known d)" "map_of next s = None" for s p
    using gone_pointer [OF ok P that] ok that(1) by (fastforce simp: daemon_ok_def)
  have h: "distinct (map snd (known d1))" "\<And>s p. (s, p) \<in> set (known d1) \<Longrightarrow> map_of next s = None \<Longrightarrow> \<exists>st pay. R1 p = Some (st, s, pay) \<and> 0 < stmt_refs st"
    using g dk(1) p1(1) by simp_all
  obtain a sm where D: "dropGone now next (known d1) d1 = d1\<lparr>d_arena := a, d_maps := (d_maps d1)\<lparr>stmts_map := sm\<rparr>,
      orphans := orphans d1 @ filter (\<lambda>p. released R1 p \<noteq> None) (map snd (gone next (known d1)))\<rparr>"
    "owns a (\<lambda>p. if p \<in> snd ` set (gone next (known d1)) then released R1 p else R1 p)"
    "\<forall>k. map_of sm k = (if k \<in> stmt_key ` fst ` set (gone next (known d1)) then None else map_of (stmts_map (d_maps d1)) k)"
    using dropGone_spec [OF p1(3) now h] by blast
  have oR: "owns a R'" using D(2) unfolding R'_def p1(1) .
  let ?os = "filter (\<lambda>p. released R1 p \<noteq> None) (map snd (gone next (known d)))"
  have out: "p \<notin> snd ` set next" if g: "p \<in> snd ` set (gone next (known d))" for p
  proof -
    obtain s where "(s, p) \<in> set (known d)" "map_of next s = None" using g by (rule goneE)
    then show ?thesis by (rule gone_pointer(1) [OF ok P])
  qed
  have in_next: "R' p = R1 p" if "(s, p) \<in> set next" for s p using out that by (force simp: R'_def)
  have sub: "set ?os \<subseteq> snd ` set (gone next (known d))" by auto
  have dos: "distinct ?os" using dk(1) by (intro distinct_filter distinct_map_filter) simp
  have "distinct (map snd next @ orphans d @ ?os)"
    using p1(6) dk dos sub out next_pointer(1) [OF ok P] by auto
  moreover have "R' p \<noteq> None" if p: "p \<in> set (orphans d @ ?os)" for p
  proof (cases "p \<in> set ?os")
    case True
    then show ?thesis using sub by (auto simp: R'_def)
  next
    case False
    then have "p \<in> set (orphans d)" using p unfolding set_append by blast
    moreover from this have "p \<notin> snd ` set next" "p \<notin> snd ` set (known d)" using next_pointer(1) [OF ok P] dk(3) by auto
    moreover have "R1 p = R p" using P calculation(2) by (simp add: publishing_def)
    ultimately show ?thesis using ok by (auto simp: R'_def daemon_ok_def)
  qed
  moreover have "length s < BNCL_STMT_MAX \<and> (\<exists>st pay. R' p = Some (st, s, pay) \<and> 0 < stmt_refs st)" if "(s, p) \<in> set next" for s p
    using next_pointer(2,3) [OF ok P that] in_next [OF that] by simp
  ultimately have "daemon_ok ((dropGone now next (known d1) d1)\<lparr>known := next, d_list := l\<rparr>) R'"
    using D(1) oR p1 by (auto simp: daemon_ok_def)
  then show ?thesis using D p1(1,2) by simp
qed


section \<open>A daemon to run\<close>

definition demo_daemon :: "nat \<Rightarrow> arena \<Rightarrow> daemon" where
  "demo_daemon p a = \<lparr>opt = \<lparr>o_stmt_list = [108], o_host = [], o_port = 6379, o_mysql_port = 3306, o_pipes = 2, o_max_stmts = 2, o_max_pipes = 2, o_ttl = 60, o_error_ttl = 0,
       o_ctl_path = [], o_local_on = True, o_verbose = False\<rparr>,
     d_arena = a, d_maps = demo_maps\<lparr>stmts_map := [(stmt_key [65], p)],
       dpipes := replicate 2 \<lparr>dp_key = 0, dp_cfd = 0, dp_sfd = 0, dp_ts = 0, dp_stmt = Some p, dp_in_use = 1\<rparr>\<rparr>, d_pool = empty_pool, d_list = empty_list,
     d_valkey = \<lparr>fd_open = False, host = [], port = 0, inbuf = [], reads = [], writes = [], connects = [], sent = []\<rparr>, key_of_fd = [], known = [([65], p)],
     next_id = 1, orphans = [], cnt = \<lparr>hits = 0, misses = 0, errors = 0, stores = 0, refused = 0, reloads = 0, lockbreaks = 0\<rparr>, local_on = True,
     started = 0, polling = True, ctl_open = False, loaded = True, c2d_on = True, d2c_on = True, replies = []\<rparr>"

lemma demo_owned:
  "\<exists>a p st. owns a [p \<mapsto> (st, [65], replicate 9 1)] \<and> (\<exists>C. roomy a C 3880) \<and> stmt_refs st = 1 \<and> stmt_state st = STMT_S_LOCAL \<and> stmt_data st \<noteq> None \<and> stmt_ttl st = 0"
proof -
  let ?st = "\<lambda>t q. demo_stmt\<lparr>stmt_txt := Some t, stmt_data := Some q\<rparr>" and ?pay = "replicate 9 (1 :: u8)"
  have b: "block_for 9 = 40" "block_for 56 = 80" "block_for (Suc (Suc 0)) = 32" by (simp_all add: block_for_def align8_def arena_consts MIN_BLOCK_24 Let_def)
  obtain a0 where a0: "roomy a0 Map.empty (4096 - 64)" using roomy_init [of 4096] by fastforce
  obtain q a1 where q: "roomy a1 [q \<mapsto> ?pay] 3992" using roomy_put [OF a0, of ?pay] b by auto
  obtain t a2 where t: "[q \<mapsto> ?pay] t = None" "roomy a2 [q \<mapsto> ?pay, t \<mapsto> [65, 0]] 3960" using roomy_put [OF q, of "[65, 0]"] b by auto
  obtain p a3 where p: "[q \<mapsto> ?pay, t \<mapsto> [65, 0]] p = None" "roomy a3 [q \<mapsto> ?pay, t \<mapsto> [65, 0], p \<mapsto> enc_stmt (?st t q)] 3880"
    using roomy_put [OF t(2), of "enc_stmt (?st t q)"] b by (auto simp: STMT_BYTES_def)
  let ?C = "[q \<mapsto> ?pay, t \<mapsto> [65, 0], p \<mapsto> enc_stmt (?st t q)]"
  have o: "heap.objects a3 ?C" using p(2) by (simp add: roomy_def)
  have ne: "t \<noteq> q" "p \<noteq> q" "p \<noteq> t" using t(1) p(1) by (auto split: if_splits)
  then have C: "?C q = Some ?pay" "?C t = Some [65, 0]" "?C p = Some (enc_stmt (?st t q))" by simp_all
  from heap.objects_bound [OF o] C have bd: "0 < q" "q < 2 ^ 32" "0 < t" "t < 2 ^ 32" by blast+
  then have "stmt_fits (?st t q)" by (simp add: stmt_fits_def demo_stmt_def STMT_S_LOCAL_def enc_ptr_def)
  then have "entry_ok ?C p (?st t q, [65], ?pay)" using C ne by (simp add: entry_ok_def record_at_def blocks_def opt_list_def demo_stmt_def)
  then have "owns a3 [p \<mapsto> (?st t q, [65], ?pay)]" by (intro ownsI [OF o]) (auto simp: apart_entries_def split: if_splits)
  then show ?thesis using p(2) by (intro exI [of _ a3] exI [of _ p] exI [of _ "?st t q"]) (auto simp: demo_stmt_def)
qed

lemma demo_daemon_ok:
  assumes "owns a [p \<mapsto> (st, [65], pay)]" "stmt_refs st = 1"
  shows "daemon_ok (demo_daemon p a) [p \<mapsto> (st, [65], pay)]"
  using assms by (simp add: daemon_ok_def demo_daemon_def BNCL_STMT_MAX_def)

lemma demo_length: "encodeResultSet demoResult BNCL_CANONICAL_CAPS 1 \<noteq> []" "length (encodeResultSet demoResult BNCL_CANONICAL_CAPS 1) \<le> 200"
  by (simp_all add: encodeResultSet_stream payloads_def demoResult_def demoColumn_def columnPayload_def rowPayload_def
      terminator_def encodeMessage_frames frames.simps kMaxPayload_def putLenEncStr_def putU32_def putBytes_append
      putLenEnc_def header_def has_bits_def BNCL_CANONICAL_CAPS_def CLIENT_DEPRECATE_EOF_def)

lemma demo_storable: "storable (encodeResultSet demoResult BNCL_CANONICAL_CAPS 1)"
  unfolding storable_def
proof (intro exI conjI)
  show "parseResultSet (encodeResultSet demoResult BNCL_CANONICAL_CAPS 1) BNCL_CANONICAL_CAPS = Some demoResult"
    using parse_encoded [OF demoResult_ok, of BNCL_CANONICAL_CAPS 1 "[]"] by simp
  show "\<not> has_bits (status demoResult) SERVER_STATUS_IN_TRANS" by (simp add: demoResult_def has_bits_def SERVER_STATUS_IN_TRANS_def)
qed

section \<open>Properties\<close>

text \<open>After a complete reload: the statements of the new list, and those that left.\<close>

lemma reload_kept:
  assumes ok: "daemon_ok d R" and P: "publishing d R next d1 R1" and n: "(s, p) \<in> set next"
    and nul: "\<And>s. s \<in> fst ` set next \<union> fst ` set (known d) \<Longrightarrow> 0 \<notin> set s"
    and sm: "map_of (stmts_map (d_maps e)) (stmt_key s) = (if stmt_key s \<in> stmt_key ` fst ` set (gone next (known d)) then None else map_of (stmts_map (d_maps d1)) (stmt_key s))"
  shows "lookup_stmt e s = Some p \<and> from_list d R (\<lambda>p. if p \<in> snd ` set (gone next (known d)) then released R1 p else R1 p) s p"
proof -
  let ?R = "\<lambda>p. if p \<in> snd ` set (gone next (known d)) then released R1 p else R1 p"
  have f: "lookup_stmt d1 s = Some p" "from_list d R R1 s p" using P n by (auto simp: publishing_def)
  have sn: "s \<in> fst ` set next" using n by force
  then have "map_of next s \<noteq> None" by (simp add: map_of_eq_None_iff)
  with sn have "stmt_key s \<notin> stmt_key ` fst ` set (gone next (known d))" by (rule key_stays) (use nul in blast)
  moreover have "p \<notin> snd ` set (gone next (known d))"
  proof
    assume "p \<in> snd ` set (gone next (known d))"
    then obtain s' where "(s', p) \<in> set (known d)" "map_of next s' = None" by (rule goneE)
    then show False using gone_pointer(1) [OF ok P] n by force
  qed
  ultimately show ?thesis using f sm from_list_cong [of R1 p ?R] by simp
qed

lemma reload_left:
  assumes ok: "daemon_ok d R" and P: "publishing d R next d1 R1" and k: "(s, p) \<in> set (known d)" "s \<notin> fst ` set next"
  shows "stmt_key s \<in> stmt_key ` fst ` set (gone next (known d)) \<and> p \<in> snd ` set (gone next (known d)) \<and> released R1 p = released R p"
proof -
  have "map_of next s = None" using k(2) by (simp add: map_of_eq_None_iff)
  then have g: "(s, p) \<in> set (gone next (known d))" "R1 p = R p" using k(1) gone_pointer(2) [OF ok P] by auto
  then have "released R1 p = released R p" by (simp add: released_def)
  then show ?thesis using g(1) by force
qed

lemma loaded_distinct: "load empty_list path (Some contents) = Inr fresh \<Longrightarrow> distinct (stmts fresh)"
  using loadLines_spec [of empty_list "getlines contents"] by (auto simp: load_def stmtList_ok_def empty_list_def)

text \<open>What a reload leaves, whichever way it goes: \<open>R'\<close> is built from the records of before, less the references of the statements that left.\<close>

lemma reload_spec:
  assumes ok: "daemon_ok d R" and src: "o_stmt_list (opt d) \<noteq> []" "load empty_list (o_stmt_list (opt d)) (Some contents) = Inr fresh"
    and nul: "\<forall>s\<in>set (stmts fresh) \<union> fst ` set (known d). 0 \<notin> set s" and now: "now < 2 ^ 64"
  shows "\<exists>b d' R'. loadStatements (Some contents) now d = Some (b, d') \<and> daemon_ok d' R'
    \<and> (\<exists>R1. built d R R1 \<and> (\<forall>p. R' p = (if p \<in> snd ` set (known d) - snd ` set (known d') then released R1 p else R1 p)))
    \<and> (\<not> b \<longrightarrow> known d' = known d \<and> orphans d' = orphans d)
    \<and> ((\<forall>s\<in>set (stmts fresh). length s < BNCL_STMT_MAX \<longrightarrow> s \<in> fst ` set (known d) \<and> lookup_stmt d s \<noteq> None) \<longrightarrow> b)
    \<and> (b \<longrightarrow> fst ` set (known d') = {s \<in> set (stmts fresh). length s < BNCL_STMT_MAX}
       \<and> (\<forall>(s, p)\<in>set (known d'). lookup_stmt d' s = Some p \<and> from_list d R R' s p)
       \<and> (\<forall>(s, p)\<in>set (known d). s \<notin> set (stmts fresh) \<longrightarrow> lookup_stmt d' s = None \<and> R' p = released R p
            \<and> (released R p \<noteq> None \<longrightarrow> p \<in> set (orphans d'))))"
proof -
  obtain b "next" d1 R1 where A: "publishAll (stmts fresh) [] d = Some (b, next, d1)" "daemon_ok d1 R1" "built d R R1" "known d1 = known d" "orphans d1 = orphans d"
    "b \<longrightarrow> publishing d R next d1 R1 \<and> fst ` set next = {s \<in> set (stmts fresh). length s < BNCL_STMT_MAX}"
    using publishAll_spec [OF ok publishing_start [OF ok] loaded_distinct [OF src(2)]] nul by auto
  have enough: b if "\<forall>s\<in>set (stmts fresh). length s < BNCL_STMT_MAX \<longrightarrow> s \<in> fst ` set (known d) \<and> lookup_stmt d s \<noteq> None"
  proof -
    have "\<exists>next' d'. publishAll (stmts fresh) [] d = Some (True, next', d')"
      by (rule publishAll_known) (use that in \<open>auto simp: map_of_eq_None_iff\<close>)
    then show b using A(1) by simp
  qed
  show ?thesis
  proof (cases b)
    case False
    then have "loadStatements (Some contents) now d = Some (False, d1)" using A(1) src by (simp add: loadStatements_def)
    then show ?thesis using A(2-5) enough False by (intro exI [of _ False] exI [of _ d1] exI [of _ R1]) auto
  next
    case True
    then have P: "publishing d R next d1 R1" and N: "fst ` set next = {s \<in> set (stmts fresh). length s < BNCL_STMT_MAX}" using A(6) by auto
    let ?G = "gone next (known d)" and ?d2 = "dropGone now next (known d1) d1"
    let ?R = "\<lambda>p. if p \<in> snd ` set ?G then released R1 p else R1 p" and ?d = "?d2\<lparr>known := next, d_list := fresh\<rparr>"
    from reloaded_ok [OF ok P now, of fresh] have D: "daemon_ok ?d ?R"
      "orphans ?d2 = orphans d @ filter (\<lambda>p. released R1 p \<noteq> None) (map snd ?G)"
      "\<And>k. map_of (stmts_map (d_maps ?d2)) k = (if k \<in> stmt_key ` fst ` set ?G then None else map_of (stmts_map (d_maps d1)) k)"
      by blast+
    have L: "loadStatements (Some contents) now d = Some (True, ?d)" using A(1) src True by (simp add: loadStatements_def)
    have nul': "0 \<notin> set s" if "s \<in> fst ` set next \<union> fst ` set (known d)" for s using nul N that by auto
    have K: "known ?d = next" by simp
    have "\<forall>(s, p)\<in>set (known ?d). lookup_stmt ?d s = Some p \<and> from_list d R ?R s p"
    proof (unfold K, clarify)
      fix s p assume "(s, p) \<in> set next"
      from reload_kept [where e = ?d, OF ok P this nul'] show "lookup_stmt ?d s = Some p \<and> from_list d R ?R s p" using D(3) by simp
    qed
    moreover have "\<forall>(s, p)\<in>set (known d). s \<notin> set (stmts fresh) \<longrightarrow>
        lookup_stmt ?d s = None \<and> ?R p = released R p \<and> (released R p \<noteq> None \<longrightarrow> p \<in> set (orphans ?d))"
      using reload_left [OF ok P] N D(2,3) by auto
    moreover have "snd ` set ?G = snd ` set (known d) - snd ` set (known ?d)" unfolding K using gone_pointers [OF ok P] .
    then have "\<exists>R1. built d R R1 \<and> (\<forall>p. ?R p = (if p \<in> snd ` set (known d) - snd ` set (known ?d) then released R1 p else R1 p))" using A(3) by auto
    moreover have "fst ` set (known ?d) = {s \<in> set (stmts fresh). length s < BNCL_STMT_MAX}" using N by simp
    ultimately show ?thesis using L D(1) by blast
  qed
qed



text \<open>
  C2: an answer of the daemon is true. For a statement it has a record of, the daemon always answers; it says hit exactly when the local copy may be trusted and has not expired or the shared
  tier delivered a non-empty value, and then the record points at those very bytes in the arena; it says miss only when the shared tier has nothing, and then the record points nowhere; on an
  error nothing has changed, and the shared tier was unreachable or the arena had no room for its value. No other statement's record, text or payload is touched.
\<close>

theorem serve_answers_truly:
  assumes own: "owns (d_arena d) R" "R p = Some (st, sql, pay)" "sql \<noteq> []" and now: "now < 2 ^ 64" "now' < 2 ^ 64"
  shows "\<exists>s d' R'. resolve p now now' d = Some (s, d') \<and> owns (d_arena d') R' \<and> (\<forall>q. q \<noteq> p \<longrightarrow> R' q = R q)
    \<and> (s = AGENT_OK \<longrightarrow> (if local_hit d st now then R' p = R p
          else \<exists>q body. upstream d sql = Some body \<and> body \<noteq> []
            \<and> R' p = Some (with_payload q (length body) now (u32_of_int (o_ttl (opt d))) st, sql, body)))
    \<and> (s = AGENT_WRITE_THROUGH \<longrightarrow> \<not> local_hit d st now \<and> upstream d sql \<in> {None, Some []} \<and> R' p = Some (forgotten st, sql, []))
    \<and> (s = AGENT_CACHE_ERROR \<longrightarrow> \<not> local_hit d st now \<and> R' p = R p
         \<and> (fst (valkeyUp d) \<longrightarrow> (\<exists>body. upstream d sql = Some body \<and> put body (d_arena d) = Some (None, d_arena d))))"
  using resolve_spec [OF own now]
proof (elim exE disjE conjE)
  fix d' assume a: "local_hit d st now" "resolve p now now' d = Some (AGENT_OK, d')" "owns (d_arena d') R"
  then show ?thesis by (intro exI [of _ AGENT_OK] exI [of _ d'] exI [of _ R]) simp
next
  fix d' assume a: "\<not> local_hit d st now" "resolve p now now' d = Some (AGENT_CACHE_ERROR, d')" "owns (d_arena d') R"
    "fst (valkeyUp d) \<longrightarrow> (\<exists>body. upstream d sql = Some body \<and> put body (d_arena d) = Some (None, d_arena d))"
  then show ?thesis by (intro exI [of _ AGENT_CACHE_ERROR] exI [of _ d'] exI [of _ R]) simp
next
  fix d' q body assume a: "\<not> local_hit d st now" "resolve p now now' d = Some (AGENT_OK, d')" "upstream d sql = Some body" "body \<noteq> []"
    "owns (d_arena d') (R(p \<mapsto> (with_payload q (length body) now (u32_of_int (o_ttl (opt d))) st, sql, body)))"
  then show ?thesis
    by (intro exI [of _ AGENT_OK] exI [of _ d'] exI [of _ "R(p \<mapsto> (with_payload q (length body) now (u32_of_int (o_ttl (opt d))) st, sql, body))"]) auto
next
  fix d' assume a: "\<not> local_hit d st now" "resolve p now now' d = Some (AGENT_WRITE_THROUGH, d')" "upstream d sql \<in> {None, Some []}"
    "owns (d_arena d') (R(p \<mapsto> (forgotten st, sql, [])))"
  then show ?thesis
    by (intro exI [of _ AGENT_WRITE_THROUGH] exI [of _ d'] exI [of _ "R(p \<mapsto> (forgotten st, sql, []))"]) auto
qed

theorem serve_answers_truly_witness:
  "\<exists>d d' p R' st. resolve p 6 7 d = Some (AGENT_OK, d') \<and> owns (d_arena d') R' \<and> R' p = Some (st, [65], replicate 9 1)"
proof -
  obtain a p st where o: "owns a [p \<mapsto> (st, [65], replicate 9 1)]" "stmt_state st = STMT_S_LOCAL" "stmt_data st \<noteq> None" "stmt_ttl st = 0" using demo_owned by blast
  let ?d = "demo_daemon p a" and ?R = "[p \<mapsto> (st, [65], replicate 9 (1 :: u8))]"
  have own: "owns (d_arena ?d) ?R" using o(1) by (simp add: demo_daemon_def)
  have h: "local_hit ?d st 6" using o(2-4) by (simp add: local_hit_def demo_daemon_def expired_def)
  have "?R p = Some (st, [65], replicate 9 1)" by simp
  from serve_answers_truly [OF own this, of 6 7] obtain s d' R' where r: "resolve p 6 7 ?d = Some (s, d')" "owns (d_arena d') R'" "s = AGENT_OK \<longrightarrow> R' p = ?R p"
    "s \<noteq> AGENT_WRITE_THROUGH" "s \<noteq> AGENT_CACHE_ERROR" using h by auto
  then have "s = AGENT_OK" by (cases s) auto
  then show ?thesis using r by (intro exI [of _ ?d] exI [of _ d'] exI [of _ p] exI [of _ R'] exI [of _ st]) simp
qed

text \<open>
  C3: only replayable responses enter the cache. A response a client hands back is stored only if it parses under the canonical capabilities and does not come from inside a
  transaction; then the statement's record points at exactly those bytes, unless the arena has no room for them. A refused or unstorable response leaves every record as it was, and in no case is another statement touched.
\<close>

theorem store_sound:
  assumes own: "owns (d_arena d) R" "R p = Some (st, sql, pay)" "sql \<noteq> []" and now: "now < 2 ^ 64" "now' < 2 ^ 64"
    and pipe: "array_lookup (dpipes (d_maps d)) key = Some rec" "dp_stmt rec = Some p" and len: "length body \<le> BNCL_STORE_MAX"
  shows "\<exists>b d' R'. store key body now now' d = Some (b, d') \<and> owns (d_arena d') R'
    \<and> (if b then storable body \<and> (\<exists>q. R' = R(p \<mapsto> (with_payload q (length body) now' (u32_of_int (o_ttl (opt d))) st, sql, body)))
       else R' = R)
    \<and> (body \<noteq> [] \<longrightarrow> \<not> storable body \<longrightarrow> d' = refuse d)
    \<and> (body \<noteq> [] \<longrightarrow> storable body \<longrightarrow> \<not> b \<longrightarrow> put body (d_arena d) = Some (None, d_arena d))"
  using store_spec [OF own now pipe len]
proof (elim exE disjE conjE)
  fix d' assume "body = []" "store key body now now' d = Some (False, d)"
  then show ?thesis using own(1) by (intro exI [of _ False] exI [of _ d] exI [of _ R]) simp
next
  fix d' assume "body \<noteq> []" "\<not> storable body" "store key body now now' d = Some (False, refuse d)"
  then show ?thesis using own(1) by (intro exI [of _ False] exI [of _ "refuse d"] exI [of _ R]) (simp add: refuse_def)
next
  fix d' assume "storable body" "store key body now now' d = Some (False, d')" "owns (d_arena d') R" "put body (d_arena d) = Some (None, d_arena d)"
  then show ?thesis by (intro exI [of _ False] exI [of _ d'] exI [of _ R]) simp
next
  fix d' q assume a: "storable body" "store key body now now' d = Some (True, d')"
    "owns (d_arena d') (R(p \<mapsto> (with_payload q (length body) now' (u32_of_int (o_ttl (opt d))) st, sql, body)))"
  then show ?thesis by (intro exI [of _ True] exI [of _ d'] exI [of _ "R(p \<mapsto> (with_payload q (length body) now' (u32_of_int (o_ttl (opt d))) st, sql, body))"]) auto
qed

theorem store_sound_witness:
  "\<exists>d d' p R' st. store 0 (encodeResultSet demoResult BNCL_CANONICAL_CAPS 1) 6 7 d = Some (True, d') \<and> owns (d_arena d') R'
     \<and> R' p = Some (st, [65], encodeResultSet demoResult BNCL_CANONICAL_CAPS 1)"
proof -
  let ?body = "encodeResultSet demoResult BNCL_CANONICAL_CAPS 1"
  note len = demo_length
  obtain a p st C where o: "owns a [p \<mapsto> (st, [65], replicate 9 1)]" "roomy a C 3880" using demo_owned by blast
  have "block_for (length ?body) \<le> 300" using len(2) by (simp add: block_for_def align8_def arena_consts MIN_BLOCK_24 Let_def)
  then have full: "put ?body a \<noteq> Some (None, a)" using roomy_put [OF o(2) len(1)] len(2) by auto
  let ?d = "demo_daemon p a"
  have own: "owns (d_arena ?d) [p \<mapsto> (st, [65], replicate 9 1)]" using o(1) by (simp add: demo_daemon_def)
  have pipe: "array_lookup (dpipes (d_maps ?d)) 0 = Some \<lparr>dp_key = 0, dp_cfd = 0, dp_sfd = 0, dp_ts = 0, dp_stmt = Some p, dp_in_use = 1\<rparr>"
    by (simp add: demo_daemon_def array_lookup_def)
  have max: "length ?body \<le> BNCL_STORE_MAX" using len(2) by (simp add: BNCL_STORE_MAX_def)
  have e: "[p \<mapsto> (st, [65], replicate 9 (1 :: u8))] p = Some (st, [65], replicate 9 1)" by simp
  from store_sound [OF own e _ _ _ pipe _ max, of 6 7] obtain b d' R' where r: "store 0 ?body 6 7 ?d = Some (b, d')" "owns (d_arena d') R'"
    "b \<longrightarrow> (\<exists>st. R' p = Some (st, [65], ?body))" "\<not> b \<longrightarrow> put ?body (d_arena ?d) = Some (None, d_arena ?d)"
    using len(1) demo_storable by (auto split: if_splits)
  then have b: "b = True" using full by (auto simp: demo_daemon_def)
  obtain st' where "R' p = Some (st', [65], ?body)" using r(3) b by blast
  then show ?thesis using r(1,2) unfolding b by blast
qed

text \<open>What the idle tick does to the records.\<close>

lemma tick_spec:
  assumes ok: "daemon_ok d R" and now: "now < 2 ^ 64"
  shows "\<exists>d'. tick now d = Some d'
    \<and> (let dead = {p \<in> set (orphans d). stmt_refs (fst (the (R p))) = 0} in
       daemon_ok d' (R |` (- dead)) \<and> orphans d' = filter (\<lambda>p. p \<notin> dead) (orphans d) \<and> known d' = known d)"
proof -
  let ?d = "breakStaleLock now d"
  have b: "owns (d_arena ?d) R" "orphans ?d = orphans d" "known ?d = known d" "next_id ?d = next_id d"
    using ok owns_lock by (simp_all add: breakStaleLock_def Let_def daemon_ok_def)
  have o: "distinct (orphans d)" "\<And>p. p \<in> set (orphans d) \<Longrightarrow> R p \<noteq> None" using ok by (auto simp: daemon_ok_def)
  let ?live = "filter (\<lambda>p. stmt_refs (fst (the (R p))) \<noteq> 0) (orphans d)"
  let ?R = "R |` (- {p \<in> set (orphans d). stmt_refs (fst (the (R p))) = 0})"
  obtain a where a: "collectLoop now (orphans d) ?d = (?live, ?d\<lparr>d_arena := a\<rparr>)" "owns a ?R"
    using collectLoop_owns [OF b(1) o(2,1) now] by blast
  obtain a' where a': "reclaim now a = Some a'" "owns a' ?R" using owns_reclaim [OF a(2)] by blast
  let ?d' = "?d\<lparr>d_arena := a', orphans := ?live\<rparr>"
  have t: "tick now d = Some ?d'" using a(1) a'(1) b(2) by (simp add: tick_def collectOrphans_def)
  have f: "?live = filter (\<lambda>p. p \<notin> {p \<in> set (orphans d). stmt_refs (fst (the (R p))) = 0}) (orphans d)" by (rule filter_cong) auto
  have "p \<notin> set (orphans d)" if "(s, p) \<in> set (known d)" for s p using ok that by (force simp: daemon_ok_def)
  then have "?R p = R p" if "(s, p) \<in> set (known d)" for s p using that by (auto simp: restrict_map_def)
  moreover have "?R p \<noteq> None" if "p \<in> set ?live" for p using that o(2) by (auto simp: restrict_map_def)
  ultimately have "daemon_ok ?d' ?R" using ok a'(2) b by (fastforce simp: daemon_ok_def)
  then show ?thesis using t f b(3) by (intro exI [of _ ?d']) (simp add: Let_def)
qed



end
