(* ===== verification/Agent.thy ===== *)
theory Agent
  imports Shared Session StmtList
begin

text \<open>
  The agent that lives inside the client process, \<open>src/src/uclient/agent.cpp\<close>: what the replaced \<open>SSL_write\<close> and \<open>SSL_read\<close> do with each
  connection. Each hook holds \<open>lock_s\<close> for its whole body, so it is one step here. The shared memory and the daemon's maps are the field \<open>sh\<close>; the
  original library functions are the environment: what the agent itself sends through the original \<open>SSL_write\<close> is logged in \<open>to_server\<close>.
\<close>

section \<open>State\<close>

text \<open>\<open>0xFFFF\<close> in \<open>c_status\<close> means that no verdict has arrived.\<close>

record conn =
  c_req :: requestTracker
  c_resp :: responseTracker
  owed :: bytes
  owed_off :: nat
  in_txn :: bool
  c_started :: bool
  c_pending :: bytes
  c_captured :: bytes
  c_rd :: reader
  c_capturing :: bool
  c_caps :: u32
  caps_known :: bool
  c_last_seq :: u8
  awaiting :: bool
  c_dpipe :: nat
  c_sock :: nat
  c_query :: bytes
  c_status :: nat
  deadline_ns :: nat

record agent_stat =
  st_writes :: nat
  st_matched :: nat
  st_served :: nat
  st_passthrough :: nat
  st_txn_skip :: nat
  st_published :: nat
  st_asked :: nat
  st_pool_empty :: nat
  st_resent :: nat
  st_timeouts :: nat

record agent =
  conns :: "(nat \<times> conn) list"
  spliced :: "(nat \<times> nat) list"
  list_s :: stmtList
  list_path :: bytes
  ready_s :: bool
  on_s :: bool
  gen_s :: nat
  next_poll_ns :: nat
  local_s :: bool
  daemon_gone :: bool
  stat_s :: agent_stat
  sh :: shared
  to_server :: "(nat \<times> bytes) list"
  hooks_s :: "nat list"
  hooked_s :: bool

definition NO_VERDICT :: nat where "NO_VERDICT = 0xFFFF"
definition REPLY_OK :: nat where "REPLY_OK = 0x01"
definition AGENT_TIMEOUT_NS :: nat where "AGENT_TIMEOUT_NS = 100 * 1000 * 1000"
definition CFG_POLL_NS :: nat where "CFG_POLL_NS = 250 * 1000 * 1000"
definition BASE_CAPS :: u32 where "BASE_CAPS = (CLIENT_PROTOCOL_41 OR CLIENT_TRANSACTIONS)"

definition new_conn :: conn where
  "new_conn = \<lparr>c_req = new_request, c_resp = new_response, owed = [], owed_off = 0, in_txn = False, c_started = False, c_pending = [], c_captured = [],
     c_rd = new_reader, c_capturing = False, c_caps = 0, caps_known = False, c_last_seq = 0, awaiting = False, c_dpipe = 0, c_sock = 0, c_query = [],
     c_status = NO_VERDICT, deadline_ns = 0\<rparr>"

definition connFor :: "nat \<Rightarrow> agent \<Rightarrow> conn" where
  "connFor ssl a =
     (let c = (case map_of (conns a) ssl of Some c \<Rightarrow> c | None \<Rightarrow> new_conn)
      in if c_started c then c else c\<lparr>c_req := request_begin (c_req c) BASE_CAPS, c_started := True\<rparr>)"

definition put_conn :: "nat \<Rightarrow> conn \<Rightarrow> agent \<Rightarrow> agent" where
  "put_conn ssl c a = a\<lparr>conns := AList.update ssl c (conns a)\<rparr>"

text \<open>
  One attempt at the daemon: the clock wherever the code reads it, whether the kernel takes the socket into the socket map and its storage, and what the send of a
  request returns. A hook that handles several statements makes several attempts, numbered from 0.
\<close>

record attempt =
  t_look :: nat
  t_lock :: nat
  t_relock :: nat
  t_dead :: nat
  t_release :: nat
  map_ok :: bool
  store_ok :: bool
  send :: "bytes \<Rightarrow> int"

section \<open>The daemon's switches\<close>

definition refreshLocked :: "nat \<Rightarrow> bool \<Rightarrow> bytes option \<Rightarrow> agent \<Rightarrow> agent" where
  "refreshLocked now alive list_file a =
     (if now < next_poll_ns a then a
      else let a = a\<lparr>next_poll_ns := wrap64 (now + CFG_POLL_NS)\<rparr> in
        if \<not> alive then a\<lparr>daemon_gone := True, on_s := False\<rparr>
        else if daemon_gone a then a
        else case cfgRead (sh a) of
          None \<Rightarrow> a
        | Some sw \<Rightarrow>
            let a = a\<lparr>on_s := (client_on sw \<noteq> 0), local_s := (sw_local_on sw \<noteq> 0)\<rparr> in
            if generation sw = gen_s a then a
            else let a = a\<lparr>gen_s := generation sw\<rparr> in
              case load empty_list (list_path a) list_file of
                Inl err \<Rightarrow> a
              | Inr fresh \<Rightarrow> a\<lparr>list_s := fresh\<rparr>)"

section \<open>The write side\<close>

abbreviation count :: "(agent_stat \<Rightarrow> agent_stat) \<Rightarrow> agent \<Rightarrow> agent" where
  "count f a \<equiv> a\<lparr>stat_s := f (stat_s a)\<rparr>"

definition realign :: "conn \<Rightarrow> conn" where
  "realign c = c\<lparr>c_last_seq := rq_last_seq (c_req c), c_resp := response_begin (c_resp c) (if caps_known c then c_caps c else BASE_CAPS)\<rparr>"

definition capture :: "conn \<Rightarrow> conn" where
  "capture c = c\<lparr>c_captured := [], c_rd := reader_reset (c_rd c), c_capturing := True\<rparr>"

text \<open>
  One statement of the write: \<open>True\<close> when the daemon has been asked and the write is to be suppressed. \<open>c_dpipe\<close> is meaningful only then.
\<close>

definition tryStatement :: "attempt \<Rightarrow> nat \<Rightarrow> nat \<Rightarrow> bytes \<Rightarrow> bytes \<Rightarrow> conn \<Rightarrow> agent \<Rightarrow> bool \<times> conn \<times> agent" where
  "tryStatement t ssl sock data sql c a =
     (if \<not> on_s a then (False, c, a)
      else if \<not> contains (list_s a) sql then (False, c, a)
      else let a = count (\<lambda>s. s\<lparr>st_matched := st_matched s + 1\<rparr>) a in
        if in_txn c then (False, c, count (\<lambda>s. s\<lparr>st_txn_skip := st_txn_skip s + 1\<rparr>) a)
        else let (found, s) = (if local_s a then let (r, s) = lookupPayload sql (t_look t) (sh a) in (r \<noteq> None, s) else (True, sh a));
                 a = a\<lparr>sh := s\<rparr>
          in if \<not> found then (False, capture (c\<lparr>c_pending := sql\<rparr>), a)
             else case acquire (map_ok t) (store_ok t) (t_lock t) (t_relock t) sql sock (sh a) of
               (None, s) \<Rightarrow> (False, c, count (\<lambda>s. s\<lparr>st_pool_empty := st_pool_empty s + 1\<rparr>) (a\<lparr>sh := s\<rparr>))
             | (Some key, s) \<Rightarrow>
                 let c = c\<lparr>c_dpipe := key\<rparr>; a = a\<lparr>sh := s\<rparr> in
                 if \<not> askLookup (send t) then (False, c, a\<lparr>sh := release (t_release t) sock key (sh a)\<rparr>)
                 else (True, c\<lparr>awaiting := True, c_status := NO_VERDICT, deadline_ns := wrap64 (t_dead t + AGENT_TIMEOUT_NS), c_sock := sock, c_pending := sql,
                         c_query := data\<rparr>,
                       count (\<lambda>s. s\<lparr>st_asked := st_asked s + 1\<rparr>) (a\<lparr>spliced := AList.update sock ssl (spliced a)\<rparr>)))"

lemma tryStatement_req: "tryStatement t ssl sock data sql c a = (b, c', a') \<Longrightarrow> c_req c' = c_req c"
  by (auto simp: tryStatement_def capture_def Let_def split: if_splits option.splits prod.splits)

function handleLoop :: "(nat \<Rightarrow> attempt) \<Rightarrow> nat \<Rightarrow> nat \<Rightarrow> nat \<Rightarrow> bytes \<Rightarrow> bytes \<Rightarrow> conn \<Rightarrow> agent \<Rightarrow> bool \<times> conn \<times> agent" where
  "handleLoop ts i ssl sock data sql c a =
     (case tryStatement (ts i) ssl sock data sql (realign c) a of
        (True, c, a) \<Rightarrow> (True, c, a)
      | (False, c, a) \<Rightarrow>
          (case request_next (c_req c) of
             (None, rq) \<Rightarrow> (False, c\<lparr>c_req := rq\<rparr>, count (\<lambda>s. s\<lparr>st_passthrough := st_passthrough s + 1\<rparr>) a)
           | (Some sql, rq) \<Rightarrow> handleLoop ts (i + 1) ssl sock data sql (c\<lparr>c_req := rq\<rparr>) a))"
  by pat_completeness auto
termination
  by (relation "measure (\<lambda>(ts, i, ssl, sock, data, sql, c, a). buffered (rq_reader (c_req c)))")
     (auto simp: realign_def dest!: tryStatement_req [OF sym] request_next_buffered [OF sym])

declare handleLoop.simps [simp del]

definition handleWrite :: "nat \<Rightarrow> bool \<Rightarrow> bytes option \<Rightarrow> (nat \<Rightarrow> attempt) \<Rightarrow> nat \<Rightarrow> nat \<Rightarrow> bytes \<Rightarrow> agent \<Rightarrow> bool \<times> agent" where
  "handleWrite now alive list_file ts ssl sock data a =
     (let c = connFor ssl a;
          a = refreshLocked now alive list_file (count (\<lambda>s. s\<lparr>st_writes := st_writes s + 1\<rparr>) a)
      in case request_feed (c_req c) data of
           (None, rq) \<Rightarrow> (False, put_conn ssl (c\<lparr>c_req := rq\<rparr>) a)
         | (Some sql, rq) \<Rightarrow>
             (case handleLoop ts 0 ssl sock data sql (c\<lparr>c_req := rq\<rparr>) a of
                (b, c, a) \<Rightarrow> (b, put_conn ssl c a)))"

section \<open>The read side\<close>

definition drainLocked :: "nat \<Rightarrow> conn \<Rightarrow> bytes \<times> conn" where
  "drainLocked room c =
     (if owed_off c \<ge> length (owed c) then ([], c)
      else let n = min room (length (owed c) - owed_off c);
               out = take n (drop (owed_off c) (owed c));
               c = c\<lparr>owed_off := owed_off c + n\<rparr>
           in (out, if owed_off c \<ge> length (owed c) then c\<lparr>owed := [], owed_off := 0\<rparr> else c))"

definition drain :: "nat \<Rightarrow> nat \<Rightarrow> agent \<Rightarrow> bytes \<times> agent" where
  "drain ssl room a =
     (case map_of (conns a) ssl of
        None \<Rightarrow> ([], a)
      | Some c \<Rightarrow> (case drainLocked room c of (out, c) \<Rightarrow> (out, put_conn ssl c a)))"

definition inferCaps :: "bytes \<Rightarrow> u32 option" where
  "inferCaps resp =
     (let dep = (BASE_CAPS OR CLIENT_DEPRECATE_EOF) in
      case (parseResultSet resp BASE_CAPS, parseResultSet resp dep) of
        (Some plain, Some deprecated) \<Rightarrow> Some (if length (rows plain) \<ge> length (rows deprecated) then BASE_CAPS else dep)
      | (Some plain, None) \<Rightarrow> Some BASE_CAPS
      | (None, Some deprecated) \<Rightarrow> Some dep
      | (None, None) \<Rightarrow> None)"

text \<open>Handing a canonical response to the daemon: post it on a pipe of its own and give the pipe back.\<close>

definition publish :: "attempt \<Rightarrow> bytes \<Rightarrow> nat \<Rightarrow> bytes \<Rightarrow> agent \<Rightarrow> agent" where
  "publish t sql sock canon a =
     (case acquire (map_ok t) (store_ok t) (t_lock t) (t_relock t) sql sock (sh a) of
        (None, s) \<Rightarrow> a\<lparr>sh := s\<rparr>
      | (Some key, s) \<Rightarrow>
          let a = a\<lparr>sh := s\<rparr>;
              a = (if askStore (send t) canon then count (\<lambda>s. s\<lparr>st_published := st_published s + 1\<rparr>) a else a)
          in a\<lparr>sh := release (t_release t) sock key (sh a)\<rparr>)"

text \<open>What \<open>observe\<close> does when the tracker reports the end of a response.\<close>

definition responseEnded :: "attempt \<Rightarrow> conn \<Rightarrow> agent \<Rightarrow> conn \<times> agent" where
  "responseEnded t c a =
     (let c = c\<lparr>in_txn := rt_in_transaction (c_resp c)\<rparr>; poisoned = rt_poisoned (c_resp c) in
      if \<not> c_capturing c then (c, a)
      else let whole = c_captured c;
               c = c\<lparr>c_capturing := False, c_captured := []\<rparr>;
               c = (if caps_known c then c
                    else case inferCaps whole of None \<Rightarrow> c | Some caps \<Rightarrow> c\<lparr>c_caps := caps, caps_known := True\<rparr>)
        in if poisoned \<or> in_txn c \<or> \<not> caps_known c then (c, a)
           else case parseResultSet whole (c_caps c) of
             None \<Rightarrow> (c, a)
           | Some rs \<Rightarrow> (c\<lparr>c_pending := []\<rparr>, publish t (c_pending c) (c_sock c) (encodeResultSet rs BNCL_CANONICAL_CAPS 1) a))"

lemma responseEnded_rd [simp]: "c_rd (fst (responseEnded t c a)) = c_rd c"
  by (auto simp: responseEnded_def Let_def split: if_splits option.splits)

function observeLoop :: "(nat \<Rightarrow> attempt) \<Rightarrow> nat \<Rightarrow> conn \<Rightarrow> agent \<Rightarrow> conn \<times> agent" where
  "observeLoop ts i c a =
     (case reader_next (c_rd c) of
        None \<Rightarrow> (c, a)
      | Some (m, rd) \<Rightarrow>
          (case response_feed (c_resp c) m of
             (False, r) \<Rightarrow> observeLoop ts i (c\<lparr>c_rd := rd, c_resp := r\<rparr>) a
           | (True, r) \<Rightarrow>
               (case responseEnded (ts i) (c\<lparr>c_rd := rd, c_resp := r\<rparr>) a of
                  (c, a) \<Rightarrow> observeLoop ts (i + 1) c a)))"
  by pat_completeness auto
termination
  by (relation "measure (\<lambda>(ts, i, c, a). buffered (c_rd c))")
     (auto simp: case_prod_beta dest: reader_next_shrinks)

declare observeLoop.simps [simp del]

definition observe :: "(nat \<Rightarrow> attempt) \<Rightarrow> nat \<Rightarrow> nat \<Rightarrow> bytes \<Rightarrow> agent \<Rightarrow> agent" where
  "observe ts ssl sock data a =
     (let c = connFor ssl a;
          c = c\<lparr>c_sock := sock, c_rd := reader_append (c_rd c) data\<rparr>;
          c = (if c_capturing c then c\<lparr>c_captured := c_captured c @ data\<rparr> else c)
      in case observeLoop ts 0 c a of (c, a) \<Rightarrow> put_conn ssl c a)"

section \<open>The daemon's reply\<close>

text \<open>
  \<open>arrives\<close> is what the socket delivers: nothing, or bytes that are there after so many milliseconds. The wait is an \<open>int\<close>, and a negative one has no bound.
\<close>

definition int32 :: "nat \<Rightarrow> int" where
  "int32 n = (let m = int (n mod 2 ^ 32) in if m < 2 ^ 31 then m else m - 2 ^ 32)"

definition takeReply :: "nat \<Rightarrow> (nat \<times> bytes) option \<Rightarrow> conn \<Rightarrow> conn" where
  "takeReply now arrives c =
     (let ms = (if deadline_ns c > now then int32 ((deadline_ns c - now) div 1000000) else 0) in
      case arrives of
        None \<Rightarrow> c
      | Some (after, bs) \<Rightarrow>
          if \<not> (ms < 0 \<or> int after \<le> ms) then c
          else if length (take 8 bs) \<noteq> 8 then c
          else c\<lparr>c_status := unat (bs ! 0)\<rparr>)"

text \<open>The suppressed query goes to the server after all, and its response is to be captured.\<close>

definition resend :: "nat \<Rightarrow> conn \<Rightarrow> agent \<Rightarrow> conn \<times> agent" where
  "resend ssl c a =
     (if c_query c = [] then (c, a)
      else (capture c, count (\<lambda>s. s\<lparr>st_resent := st_resent s + 1\<rparr>) (a\<lparr>to_server := to_server a @ [(ssl, c_query c)]\<rparr>)))"

text \<open>The verdict is taken off the socket if it is there in time, and the connection is given back to the server before anything else.\<close>

definition verdict :: "nat \<Rightarrow> (nat \<times> bytes) option \<Rightarrow> conn \<Rightarrow> conn" where
  "verdict now arrives c = (if c_status c = NO_VERDICT then takeReply now arrives c else c)\<lparr>awaiting := False\<rparr>"

definition giveUpPipe :: "attempt \<Rightarrow> conn \<Rightarrow> agent \<Rightarrow> agent" where
  "giveUpPipe t c a =
     (let a = (if c_status c = NO_VERDICT then count (\<lambda>s. s\<lparr>st_timeouts := st_timeouts s + 1\<rparr>) a else a)
      in a\<lparr>spliced := AList.delete (c_sock c) (spliced a), sh := release (t_release t) (c_sock c) (c_dpipe c) (sh a)\<rparr>)"

definition settle :: "attempt \<Rightarrow> nat \<Rightarrow> (nat \<times> bytes) option \<Rightarrow> nat \<Rightarrow> nat \<Rightarrow> conn \<Rightarrow> agent \<Rightarrow> bytes \<times> conn \<times> agent" where
  "settle t now arrives ssl room c a =
     (if \<not> awaiting c then ([], c, a)
      else let c = verdict now arrives c; a = giveUpPipe t c a in
        if c_status c = REPLY_OK \<and> caps_known c
        then let (r, s) = lookupPayload (c_pending c) (t_look t) (sh a); a = a\<lparr>sh := s\<rparr> in
          case (case r of None \<Rightarrow> None | Some (canon, _) \<Rightarrow> parseResultSet canon BNCL_CANONICAL_CAPS) of
            Some rs \<Rightarrow>
              let c = c\<lparr>owed := encodeResultSet rs (c_caps c) (c_last_seq c + 1), owed_off := 0, c_pending := []\<rparr>;
                  (out, c) = drainLocked room c
              in (out, c, count (\<lambda>s. s\<lparr>st_served := st_served s + 1\<rparr>) a)
          | None \<Rightarrow> (let (c, a) = resend ssl c a in ([], c, a))
        else let (c, a) = resend ssl c a in ([], c, a))"

section \<open>The replaced entry points\<close>

text \<open>
  \<open>real\<close> is what the original function returns; on the read side, with the bytes it put into the caller's buffer. A hook returns what its caller sees.
\<close>

definition rep_SSL_write :: "nat \<Rightarrow> bool \<Rightarrow> bytes option \<Rightarrow> (nat \<Rightarrow> attempt) \<Rightarrow> int \<Rightarrow> nat \<Rightarrow> nat \<Rightarrow> bytes \<Rightarrow> agent \<Rightarrow> int \<times> agent" where
  "rep_SSL_write now alive list_file ts real ssl sock data a =
     (if data \<noteq> []
      then case handleWrite now alive list_file ts ssl sock data a of
             (True, a) \<Rightarrow> (int (length data), a)
           | (False, a) \<Rightarrow> (real, a\<lparr>to_server := to_server a @ [(ssl, data)]\<rparr>)
      else (real, a\<lparr>to_server := to_server a @ [(ssl, data)]\<rparr>))"

definition rep_SSL_read :: "attempt \<Rightarrow> nat \<Rightarrow> (nat \<times> bytes) option \<Rightarrow> (nat \<Rightarrow> attempt) \<Rightarrow> bytes option \<Rightarrow> nat \<Rightarrow> nat \<Rightarrow> nat \<Rightarrow> agent \<Rightarrow> bytes option \<times> agent" where
  "rep_SSL_read t now arrives ts real ssl sock room a =
     (let (out, a) = (if room > 0
                      then case settle t now arrives ssl room (connFor ssl a) a of
                             (out, c, a) \<Rightarrow>
                               let a = put_conn ssl c a
                               in if out \<noteq> [] then (out, a) else drain ssl room a
                      else ([], a))
      in if out \<noteq> [] then (Some out, a)
         else case real of
           None \<Rightarrow> (None, a)
         | Some bs \<Rightarrow> (Some bs, if bs \<noteq> [] then observe ts ssl sock bs a else a))"

text \<open>The \<open>_ex\<close> variants report the count through a pointer, which may be null.\<close>

definition rep_SSL_write_ex ::
  "nat \<Rightarrow> bool \<Rightarrow> bytes option \<Rightarrow> (nat \<Rightarrow> attempt) \<Rightarrow> int \<times> nat option \<Rightarrow> bool \<Rightarrow> nat \<Rightarrow> nat \<Rightarrow> bytes \<Rightarrow> agent \<Rightarrow> (int \<times> nat option) \<times> agent" where
  "rep_SSL_write_ex now alive list_file ts real wants ssl sock data a =
     (if data \<noteq> []
      then case handleWrite now alive list_file ts ssl sock data a of
             (True, a) \<Rightarrow> ((1, if wants then Some (length data) else None), a)
           | (False, a) \<Rightarrow> (real, a\<lparr>to_server := to_server a @ [(ssl, data)]\<rparr>)
      else (real, a\<lparr>to_server := to_server a @ [(ssl, data)]\<rparr>))"

definition rep_SSL_read_ex ::
  "attempt \<Rightarrow> nat \<Rightarrow> (nat \<times> bytes) option \<Rightarrow> (nat \<Rightarrow> attempt) \<Rightarrow> bytes option \<Rightarrow> bool \<Rightarrow> nat \<Rightarrow> nat \<Rightarrow> nat \<Rightarrow> agent \<Rightarrow> bytes option \<times> agent" where
  "rep_SSL_read_ex t now arrives ts real wants ssl sock room a =
     (let (out, a) = (if room > 0
                      then case settle t now arrives ssl room (connFor ssl a) a of
                             (out, c, a) \<Rightarrow>
                               let a = put_conn ssl c a
                               in if out \<noteq> [] then (out, a) else drain ssl room a
                      else ([], a))
      in if out \<noteq> [] then (Some out, a)
         else case real of
           None \<Rightarrow> (None, a)
         | Some bs \<Rightarrow> (Some bs, if wants \<and> bs \<noteq> [] then observe ts ssl sock bs a else a))"

section \<open>Attaching\<close>

text \<open>
  What Frida's Gum and the dynamic loader answer: modules by name, a symbol's address in a module, in the whole process and by the loader, and whether an address
  could be replaced. Addresses are numbers.
\<close>

record gum =
  find_module :: "string \<Rightarrow> nat option"
  find_export :: "nat \<Rightarrow> string \<Rightarrow> nat option"
  find_global :: "string \<Rightarrow> nat option"
  dl_sym :: "string \<Rightarrow> nat option"
  can_replace :: "nat \<Rightarrow> bool"

fun resolveIn :: "gum \<Rightarrow> string \<Rightarrow> string list \<Rightarrow> nat option" where
  "resolveIn g name [] = None"
| "resolveIn g name (md # mods) =
     (case find_module g md of
        None \<Rightarrow> resolveIn g name mods
      | Some m \<Rightarrow> (case find_export g m name of Some p \<Rightarrow> Some p | None \<Rightarrow> resolveIn g name mods))"

definition resolve_symbol :: "gum \<Rightarrow> string \<Rightarrow> nat option" where
  "resolve_symbol g name =
     (case resolveIn g name [''libssl.so.3'', ''libssl.so''] of
        Some p \<Rightarrow> Some p
      | None \<Rightarrow> (case find_global g name of Some p \<Rightarrow> Some p | None \<Rightarrow> dl_sym g name))"

definition hook :: "gum \<Rightarrow> string \<Rightarrow> nat list \<Rightarrow> nat list" where
  "hook g name hooks =
     (case resolve_symbol g name of
        None \<Rightarrow> hooks
      | Some target \<Rightarrow>
          if \<not> can_replace g target then hooks
          else if length hooks < 8 then hooks @ [target] else hooks)"

text \<open>
  Attaching with a path. When the pins cannot be opened the hooks of an earlier attach stay, on descriptors that are closed.
\<close>

definition attach :: "gum \<Rightarrow> bytes \<Rightarrow> bytes option \<Rightarrow> pins \<Rightarrow> agent \<Rightarrow> agent" where
  "attach g path list_file q a =
     (let a = a\<lparr>list_path := path\<rparr> in
      case load empty_list path list_file of
        Inl err \<Rightarrow> a
      | Inr fresh \<Rightarrow>
          let a = a\<lparr>list_s := fresh\<rparr> in
          case openShared q (sh a) of
            (False, s) \<Rightarrow> a\<lparr>sh := s\<rparr>
          | (True, s) \<Rightarrow>
              let a = a\<lparr>sh := s, ready_s := True, daemon_gone := False, on_s := True, next_poll_ns := 0\<rparr>;
                  a = (case cfgRead s of None \<Rightarrow> a | Some sw \<Rightarrow> a\<lparr>gen_s := generation sw, local_s := (sw_local_on sw \<noteq> 0)\<rparr>)
              in if hooked_s a then a
                 else let hooks = fold (hook g) [''SSL_write'', ''SSL_write_ex'', ''SSL_read'', ''SSL_read_ex''] (hooks_s a)
                      in a\<lparr>hooks_s := hooks, hooked_s := (length hooks > 0)\<rparr>)"

text \<open>
  Detaching. \<open>view\<close> is the table of connections as each round of the wait finds it; the hooks are reverted at the end of the wait whether or not it found
  every connection idle, which is what the first component says.
\<close>

definition busy :: "(nat \<times> conn) list \<Rightarrow> bool" where
  "busy cs \<longleftrightarrow> list_ex (\<lambda>(_, c). awaiting c \<or> owed_off c < length (owed c)) cs"

fun waitIdle :: "nat \<Rightarrow> nat \<Rightarrow> (nat \<Rightarrow> (nat \<times> conn) list) \<Rightarrow> bool" where
  "waitIdle 0 i view = False"
| "waitIdle (Suc n) i view = (if \<not> busy (view i) then True else waitIdle n (i + 1) view)"

definition unhookAll :: "(nat \<Rightarrow> (nat \<times> conn) list) \<Rightarrow> agent \<Rightarrow> bool \<times> agent" where
  "unhookAll view a =
     (if \<not> hooked_s a then (True, a)
      else let idle = waitIdle 100 0 view in (idle, a\<lparr>on_s := False, hooks_s := [], hooked_s := False\<rparr>))"

text \<open>The entry point: \<open>env\<close> is \<open>BARNACLE_LIST\<close>, \<open>files\<close> what the file system holds.\<close>

definition DETACH :: bytes where "DETACH = map (of_nat \<circ> of_char) ''detach''"
definition DEFAULT_LIST :: bytes where "DEFAULT_LIST = map (of_nat \<circ> of_char) ''demo/config/cache.list''"

definition list_for :: "bytes option \<Rightarrow> bytes \<Rightarrow> bytes" where
  "list_for env arg = (if arg \<noteq> [] then arg else case env of Some e \<Rightarrow> if e \<noteq> [] then e else DEFAULT_LIST | None \<Rightarrow> DEFAULT_LIST)"

definition bncl_agent_init ::
  "gum \<Rightarrow> (bytes \<Rightarrow> bytes option) \<Rightarrow> bytes option \<Rightarrow> pins \<Rightarrow> (nat \<Rightarrow> (nat \<times> conn) list) \<Rightarrow> bytes \<Rightarrow> agent \<Rightarrow> agent" where
  "bncl_agent_init g files env q view arg a =
     (if arg = DETACH then snd (unhookAll view a)
      else let path = list_for env arg in attach g path (files path) q a)"

end
