(* ===== verification/AgentRead.thy ===== *)
theory AgentRead
  imports Agent
begin

text \<open>How the agent reads a connection: the framing it infers, and what it learns from the bytes of a response, however they are cut.\<close>

section \<open>The framing of a connection\<close>

abbreviation DEP_CAPS :: u32 where
  "DEP_CAPS \<equiv> BASE_CAPS OR CLIENT_DEPRECATE_EOF"

lemma caps_bits [simp]: "\<not> has_bits BASE_CAPS CLIENT_DEPRECATE_EOF" "has_bits DEP_CAPS CLIENT_DEPRECATE_EOF"
  by (simp_all add: has_bits_def BASE_CAPS_def CLIENT_PROTOCOL_41_def CLIENT_TRANSACTIONS_def CLIENT_DEPRECATE_EOF_def)

lemma base_bits: "has_bits BASE_CAPS (CLIENT_PROTOCOL_41 OR CLIENT_TRANSACTIONS)"
  by (simp add: has_bits_def BASE_CAPS_def CLIENT_PROTOCOL_41_def CLIENT_TRANSACTIONS_def)

lemma encode_framing:
  "has_bits caps CLIENT_DEPRECATE_EOF = has_bits caps' CLIENT_DEPRECATE_EOF \<Longrightarrow> encodeResultSet rs caps seq = encodeResultSet rs caps' seq"
  by (simp add: encodeResultSet_def terminator_def)

text \<open>Read with the other framing, a plain response ends at its separator.\<close>

lemma plain_read_as_deprecated:
  assumes "resultSet_ok rs"
  shows "\<exists>rs'. parseResultSet (encodeResultSet rs BASE_CAPS seq) DEP_CAPS = Some rs' \<and> rows rs' = []"
proof -
  obtain rd s where h: "reader_ok rd" "pending rd = stream s (separator rs BASE_CAPS @ map rowPayload (rows rs) @ [terminator rs BASE_CAPS]) @ []"
    "\<And>caps'. parseResultSet (encodeResultSet rs BASE_CAPS seq @ []) caps' =
       do {
         rd \<leftarrow> (if \<not> has_bits caps' CLIENT_DEPRECATE_EOF then map_option snd (reader_next rd) else Some rd);
         (rws, st, wn) \<leftarrow> parseRows caps' (length (cols rs)) rd [];
         Some \<lparr>cols = cols rs, rows = rws, status = st, warnings = wn\<rparr>
       }"
    by (rule parse_head [OF assms]) blast
  let ?e = "putU16 (putU16 [0xFE] (warnings rs)) (status rs)"
  have e: "?e ! 0 = 0xFE" "length ?e < 9" "?e \<noteq> []" by (simp_all add: putU16_def)
  from h(2) have "pending rd = stream s (?e # map rowPayload (rows rs) @ [terminator rs BASE_CAPS]) @ []" by simp
  from reader_next_stream [OF h(1) this] obtain m r where "reader_next rd = Some (m, r)" "payload m = ?e" by metis
  then have "parseRows DEP_CAPS (length (cols rs)) rd [] = Some ([], readTerminator DEP_CAPS ?e)" using e by (simp add: parseRows.simps [of _ _ rd] Let_def)
  then show ?thesis using h(3) [of DEP_CAPS] by (simp add: case_prod_beta)
qed

text \<open>The other way round, the first packet after the columns is taken for the separator: one row is lost, or the terminator and with it the response.\<close>

lemma deprecated_read_as_plain:
  assumes "resultSet_ok rs"
  shows "case rows rs of
      [] \<Rightarrow> parseResultSet (encodeResultSet rs DEP_CAPS seq) BASE_CAPS = None
    | _ # rws \<Rightarrow> \<exists>rs'. parseResultSet (encodeResultSet rs DEP_CAPS seq) BASE_CAPS = Some rs' \<and> rows rs' = rws"
proof -
  have ok: "list_all (row_ok (length (cols rs))) (rows rs)" "0 < length (cols rs)" using assms by (auto simp: resultSet_ok_def)
  obtain rd s where h: "reader_ok rd" "pending rd = stream s (separator rs DEP_CAPS @ map rowPayload (rows rs) @ [terminator rs DEP_CAPS]) @ []"
    "\<And>caps'. parseResultSet (encodeResultSet rs DEP_CAPS seq @ []) caps' =
       do {
         rd \<leftarrow> (if \<not> has_bits caps' CLIENT_DEPRECATE_EOF then map_option snd (reader_next rd) else Some rd);
         (rws, st, wn) \<leftarrow> parseRows caps' (length (cols rs)) rd [];
         Some \<lparr>cols = cols rs, rows = rws, status = st, warnings = wn\<rparr>
       }"
    by (rule parse_head [OF assms]) blast
  show ?thesis
  proof (cases "rows rs")
    case Nil
    then have "pending rd = stream s (terminator rs DEP_CAPS # []) @ []" using h(2) by simp
    from reader_next_stream [OF h(1) this] obtain m r where r: "reader_next rd = Some (m, r)" "reader_ok r" "pending r = stream (s + 1) [] @ []" by metis
    then have "reader_next r = None" by (simp add: reader_next_unframe unframe.simps [of "[]"] unpacket_def)
    then have "parseRows BASE_CAPS (length (cols rs)) r [] = None" by (simp add: parseRows.simps [of _ _ r])
    then show ?thesis using h(3) [of BASE_CAPS] r(1) Nil by simp
  next
    case (Cons x rws)
    then have "pending rd = stream s (rowPayload x # map rowPayload rws @ [terminator rs DEP_CAPS]) @ []" using h(2) by simp
    from reader_next_stream [OF h(1) this] obtain m r where r: "reader_next rd = Some (m, r)" "reader_ok r"
      "pending r = stream (s + 1) (map rowPayload rws @ [terminator rs DEP_CAPS]) @ []" by metis
    have "list_all (row_ok (length (cols rs))) rws" using ok(1) Cons by simp
    from parseRows_written [OF r(2,3) this ok(2), of BASE_CAPS "[]"] show ?thesis using h(3) [of BASE_CAPS] r(1) Cons by (simp add: case_prod_beta)
  qed
qed

lemma inferred:
  assumes "resultSet_ok rs"
  shows "inferCaps (encodeResultSet rs caps seq) = Some (if has_bits caps CLIENT_DEPRECATE_EOF then DEP_CAPS else BASE_CAPS)"
proof (cases "has_bits caps CLIENT_DEPRECATE_EOF")
  case True
  have e: "encodeResultSet rs caps seq = encodeResultSet rs DEP_CAPS seq" using True by (intro encode_framing) simp
  have "parseResultSet (encodeResultSet rs DEP_CAPS seq) DEP_CAPS = Some rs" using parse_encoded [OF assms, of DEP_CAPS seq "[]"] by simp
  then show ?thesis using deprecated_read_as_plain [OF assms, of seq] True
    by (auto simp: inferCaps_def e Let_def split: list.splits option.splits)
next
  case False
  have e: "encodeResultSet rs caps seq = encodeResultSet rs BASE_CAPS seq" using False by (intro encode_framing) simp
  have "parseResultSet (encodeResultSet rs BASE_CAPS seq) BASE_CAPS = Some rs" using parse_encoded [OF assms, of BASE_CAPS seq "[]"] by simp
  then show ?thesis using plain_read_as_deprecated [OF assms, of seq] False by (auto simp: inferCaps_def e Let_def)
qed

section \<open>Watching a response\<close>

lemma connFor_put [simp]: "c_started c \<Longrightarrow> connFor ssl (put_conn ssl c a) = c"
  by (simp add: connFor_def put_conn_def update_conv')

lemma connFor_started [simp]: "c_started (connFor ssl a)"
  by (simp add: connFor_def Let_def)

lemma connFor_cong: "conns a = conns b \<Longrightarrow> connFor ssl a = connFor ssl b"
  by (simp add: connFor_def)

definition fed :: "responseTracker \<Rightarrow> message list \<Rightarrow> responseTracker" where
  "fed t ms = foldl (\<lambda>t m. snd (response_feed t m)) t ms"

lemma fed_simps [simp]: "fed t [] = t" "fed t (m # ms) = fed (snd (response_feed t m)) ms"
  by (simp_all add: fed_def)

lemma walk_append:
  "walk t (ms1 @ ms2) = (case walk t ms1 of None \<Rightarrow> walk (fed t ms1) ms2 | Some (t', rest) \<Rightarrow> Some (t', rest @ ms2))"
proof (induction ms1 arbitrary: t)
  case (Cons m ms)
  then show ?case by (cases "response_feed t m") (auto split: bool.split option.split)
qed simp

lemma walk_not_before: "walk t (ms1 @ ms2) = Some (t', []) \<Longrightarrow> ms2 \<noteq> [] \<Longrightarrow> walk t ms1 = None \<and> walk (fed t ms1) ms2 = Some (t', [])"
  by (auto simp: walk_append split: option.splits)

lemma observeLoop_quiet:
  "pulls reader_next (c_rd c) ms r \<Longrightarrow> walk (c_resp c) ms = None \<Longrightarrow> observeLoop ts i c a = (c\<lparr>c_rd := r, c_resp := fed (c_resp c) ms\<rparr>, a)"
proof (induction ms arbitrary: c)
  case Nil
  then show ?case by (simp add: observeLoop.simps [of _ _ c])
next
  case (Cons m ms)
  then obtain r1 where r1: "reader_next (c_rd c) = Some (m, r1)" "pulls reader_next r1 ms r" by auto
  obtain t where t: "response_feed (c_resp c) m = (False, t)" "walk t ms = None"
    using Cons.prems(2) by (cases "response_feed (c_resp c) m") (auto split: bool.splits)
  show ?case using Cons.IH [of "c\<lparr>c_rd := r1, c_resp := t\<rparr>"] r1 t by (simp add: observeLoop.simps [of _ _ c])
qed

lemma observeLoop_ends:
  "pulls reader_next (c_rd c) ms r \<Longrightarrow> walk (c_resp c) ms = Some (t, []) \<Longrightarrow>
    observeLoop ts i c a = responseEnded (ts i) (c\<lparr>c_rd := r, c_resp := t\<rparr>) a"
proof (induction ms arbitrary: c)
  case (Cons m ms)
  then obtain r1 where r1: "reader_next (c_rd c) = Some (m, r1)" "pulls reader_next r1 ms r" by auto
  obtain b t1 where t: "response_feed (c_resp c) m = (b, t1)" by (cases "response_feed (c_resp c) m")
  show ?case
  proof (cases b)
    case True
    then have e: "t1 = t" "ms = []" using Cons.prems(2) t by auto
    let ?R = "responseEnded (ts i) (c\<lparr>c_rd := r, c_resp := t\<rparr>) a"
    have n: "reader_next r = None" "r1 = r" using r1(2) e(2) by auto
    have "c_rd (fst ?R) = r" by simp
    then have "observeLoop ts (i + 1) (fst ?R) (snd ?R) = ?R" using n(1) by (simp add: observeLoop.simps [of _ _ "fst ?R"])
    then show ?thesis using r1(1) t True e n(2) by (simp add: observeLoop.simps [of _ _ c] case_prod_beta)
  next
    case False
    then show ?thesis using Cons.IH [of "c\<lparr>c_rd := r1, c_resp := t1\<rparr>"] Cons.prems(2) r1 t by (simp add: observeLoop.simps [of _ _ c])
  qed
qed simp

text \<open>The buffers the original \<open>SSL_read\<close> fills, one after the other.\<close>

fun observeAll :: "(nat \<Rightarrow> attempt) \<Rightarrow> nat \<Rightarrow> nat \<Rightarrow> bytes list \<Rightarrow> agent \<Rightarrow> agent" where
  "observeAll ts ssl sock [] a = a"
| "observeAll ts ssl sock (b # bs) a = observeAll ts ssl sock bs (observe ts ssl sock b a)"

lemma feeds_nothing: "feeds reader_append reader_next r cs [] r' \<Longrightarrow> reader_ok r \<Longrightarrow> pending r' = pending r @ concat cs"
proof (induction cs arbitrary: r)
  case (Cons c cs)
  then obtain r1 where "pulls reader_next (reader_append r c) [] r1" "feeds reader_append reader_next r1 cs [] r'" by auto
  then have "r1 = reader_append r c" "feeds reader_append reader_next (reader_append r c) cs [] r'" by auto
  with Cons.IH [of "reader_append r c"] Cons.prems(2) show ?case by (simp add: framing_simps)
qed simp

definition elsewhere :: "agent \<Rightarrow> agent" where
  "elsewhere a = a\<lparr>conns := []\<rparr>"

lemma elsewhere_put [simp]: "elsewhere (put_conn ssl c a) = elsewhere a"
  by (simp add: elsewhere_def put_conn_def)

lemma publish_conns: "publish t sql sock canon (a\<lparr>conns := cs\<rparr>) = (publish t sql sock canon a)\<lparr>conns := cs\<rparr>"
  by (auto simp: publish_def Let_def split: option.splits prod.splits)

lemma responseEnded_conns: "responseEnded t c (a\<lparr>conns := cs\<rparr>) = (case responseEnded t c a of (c, a) \<Rightarrow> (c, a\<lparr>conns := cs\<rparr>))"
  by (auto simp: responseEnded_def Let_def publish_conns split: option.splits)

lemma responseEnded_started: "c_started (fst (responseEnded t c a)) = c_started c"
  by (auto simp: responseEnded_def Let_def split: option.splits)

lemma observeAll_ends:
  assumes "reader_ok (c_rd (connFor ssl a))" "feeds reader_append reader_next (c_rd (connFor ssl a)) bs ms r"
    "walk (c_resp (connFor ssl a)) ms = Some (t, [])" "c_capturing (connFor ssl a)" "pending r = []" "\<forall>b\<in>set bs. b \<noteq> []" "bs \<noteq> []"
  shows "case responseEnded (ts 0) ((connFor ssl a)\<lparr>c_sock := sock, c_rd := r, c_resp := t, c_captured := c_captured (connFor ssl a) @ concat bs\<rparr>) a of
     (c, a') \<Rightarrow> connFor ssl (observeAll ts ssl sock bs a) = c \<and> elsewhere (observeAll ts ssl sock bs a) = elsewhere a'"
  using assms
proof (induction bs arbitrary: a ms)
  case (Cons b bs)
  let ?c = "connFor ssl a"
  let ?c1 = "?c\<lparr>c_sock := sock, c_rd := reader_append (c_rd ?c) b, c_captured := c_captured ?c @ b\<rparr>"
  obtain ms1 ms2 r1 where f: "ms = ms1 @ ms2" "pulls reader_next (reader_append (c_rd ?c) b) ms1 r1" "feeds reader_append reader_next r1 bs ms2 r"
    using Cons.prems(2) by auto
  have ok1: "reader_ok r1" using mr.pulls_ok [OF _ f(2)] Cons.prems(1) by (simp add: framing_simps)
  show ?case
  proof (cases "bs = []")
    case True
    then have e: "ms2 = []" "r1 = r" using f(3) by auto
    let ?c' = "?c\<lparr>c_sock := sock, c_rd := r, c_resp := t, c_captured := c_captured ?c @ concat (b # bs)\<rparr>"
    obtain c' a' where R: "responseEnded (ts 0) ?c' a = (c', a')" by (cases "responseEnded (ts 0) ?c' a")
    have "?c1\<lparr>c_rd := r, c_resp := t\<rparr> = ?c'" using True by simp
    then have "observeLoop ts 0 ?c1 a = (c', a')"
      using observeLoop_ends [of ?c1 ms r t ts 0 a] f e Cons.prems(3) R by simp
    then have "observe ts ssl sock b a = put_conn ssl c' a'" using Cons.prems(4) by (simp add: observe_def Let_def)
    moreover have "c_started c'" using responseEnded_started [of "ts 0" ?c' a] R by simp
    ultimately show ?thesis using True R by (simp add: elsewhere_put)
  next
    case False
    have "ms2 \<noteq> []"
    proof
      assume "ms2 = []"
      then have "pending r1 @ concat bs = []" using feeds_nothing f(3) ok1 Cons.prems(5) by metis
      then show False using False Cons.prems(6) by (cases bs) auto
    qed
    then have w: "walk (c_resp ?c) ms1 = None" "walk (fed (c_resp ?c) ms1) ms2 = Some (t, [])"
      using walk_not_before [of "c_resp ?c" ms1 ms2 t] Cons.prems(3) f(1) by auto
    let ?c2 = "?c1\<lparr>c_rd := r1, c_resp := fed (c_resp ?c) ms1\<rparr>"
    have o: "observe ts ssl sock b a = put_conn ssl ?c2 a"
      using observeLoop_quiet [of ?c1 ms1 r1 ts 0 a] f(2) w(1) Cons.prems(4) by (simp add: observe_def Let_def)
    have c2: "connFor ssl (put_conn ssl ?c2 a) = ?c2" by simp
    let ?a2 = "put_conn ssl ?c2 a" and ?c' = "?c\<lparr>c_sock := sock, c_rd := r, c_resp := t, c_captured := c_captured ?c @ concat (b # bs)\<rparr>"
    obtain c' a' where R: "responseEnded (ts 0) ?c' a = (c', a')" by (cases "responseEnded (ts 0) ?c' a")
    have "?a2 = a\<lparr>conns := conns ?a2\<rparr>" by (simp add: put_conn_def)
    then have R2: "responseEnded (ts 0) ?c' ?a2 = (c', a'\<lparr>conns := conns ?a2\<rparr>)"
      using responseEnded_conns [where t = "ts 0" and c = ?c' and a = a and cs = "conns ?a2"] R by simp
    have e: "?c2\<lparr>c_sock := sock, c_rd := r, c_resp := t, c_captured := c_captured ?c2 @ concat bs\<rparr> = ?c'" by simp
    have "case responseEnded (ts 0) (?c2\<lparr>c_sock := sock, c_rd := r, c_resp := t, c_captured := c_captured ?c2 @ concat bs\<rparr>) ?a2 of
       (c, a') \<Rightarrow> connFor ssl (observeAll ts ssl sock bs ?a2) = c \<and> elsewhere (observeAll ts ssl sock bs ?a2) = elsewhere a'"
      using Cons.IH [of ?a2 ms2] f(3) w(2) Cons.prems(4-6) False ok1 unfolding c2 by simp
    then show ?thesis unfolding observeAll.simps o e R R2 by (simp add: elsewhere_def)
  qed
qed simp

lemma pulls_stream:
  "reader_ok r \<Longrightarrow> pending r = stream seq pls \<Longrightarrow> \<exists>ms r'. pulls reader_next r ms r' \<and> map payload ms = pls \<and> pending r' = []"
proof (induction pls arbitrary: r seq)
  case Nil
  then have "reader_next r = None" by (simp add: reader_next_unframe unframe.simps [of "[]"] unpacket_def)
  with Nil show ?case by (intro exI [of _ "[]"]) auto
next
  case (Cons p pls)
  then have "pending r = stream seq (p # pls) @ []" by simp
  from reader_next_stream [OF Cons.prems(1) this] obtain m r1 where
    m: "reader_next r = Some (m, r1)" "payload m = p" "reader_ok r1" "pending r1 = stream (seq + 1) pls @ []" by metis
  from m(4) have "pending r1 = stream (seq + 1) pls" by simp
  from Cons.IH [OF m(3) this] obtain ms r' where "pulls reader_next r1 ms r'" "map payload ms = pls" "pending r' = []" by blast
  with m show ?case by (intro exI [of _ "m # ms"]) auto
qed

lemma feeds_total: "reader_ok r \<Longrightarrow> \<exists>ms r'. feeds reader_append reader_next r cs ms r'"
proof (induction cs arbitrary: r)
  case (Cons c cs)
  obtain ms1 r1 where p: "pulls reader_next (reader_append r c) ms1 r1" "reader_ok r1"
    using mr.pulls_total [of "reader_append r c"] Cons.prems by (auto simp: framing_simps)
  obtain ms2 r2 where "feeds reader_append reader_next r1 cs ms2 r2" using Cons.IH [OF p(2)] by blast
  with p(1) have "feeds reader_append reader_next r (c # cs) (ms1 @ ms2) r2" by auto
  then show ?case by blast
next
  case Nil
  have "feeds reader_append reader_next r [] [] r" by simp
  then show ?case by blast
qed

text \<open>However the packets of a response are cut, the reader hands out one message per packet body and ends up empty.\<close>

lemma feeds_stream:
  assumes "reader_ok r" "pending r = []" "concat cs = stream seq pls" "cs \<noteq> []"
  shows "\<exists>ms r'. feeds reader_append reader_next r cs ms r' \<and> map payload ms = pls \<and> pending r' = []"
proof -
  obtain ms r' where f: "feeds reader_append reader_next r cs ms r'" using feeds_total [OF assms(1)] by blast
  obtain r1 where p: "pulls reader_next (reader_append r (concat cs)) ms r1" "pending r1 = pending r'"
    using mr.feeds_concat [OF assms(1) f assms(4)] by blast
  have "reader_ok (reader_append r (concat cs))" "pending (reader_append r (concat cs)) = stream seq pls"
    using assms(1-3) by (simp_all add: framing_simps)
  from pulls_stream [OF this] obtain ms2 r2 where q: "pulls reader_next (reader_append r (concat cs)) ms2 r2" "map payload ms2 = pls" "pending r2 = []" by blast
  have "ms = ms2" "r1 = r2" using pulls_unique [OF p(1) q(1)] by simp_all
  then have "map payload ms = pls" "pending r' = []" using p(2) q(2,3) by simp_all
  with f show ?thesis by blast
qed

text \<open>
  \<open>listening_for c\<close>: a command has been sent on the connection and its response is to be captured, the state in which \<open>handleWrite\<close> and \<open>settle\<close> leave it.
\<close>

definition listening_for :: "conn \<Rightarrow> bool" where
  "listening_for c \<longleftrightarrow> c_capturing c \<and> c_captured c = [] \<and> reader_ok (c_rd c) \<and> pending (c_rd c) = []
     \<and> (\<exists>t. c_resp c = response_begin t (if caps_known c then c_caps c else BASE_CAPS))"

text \<open>The framing the agent believes in agrees with the connection's, or is still to be learned from a response with at least one row.\<close>

definition framing_fits :: "conn \<Rightarrow> u32 \<Rightarrow> resultSet \<Rightarrow> bool" where
  "framing_fits c caps rs \<longleftrightarrow>
     (if caps_known c then has_bits (c_caps c) CLIENT_DEPRECATE_EOF = has_bits caps CLIENT_DEPRECATE_EOF
        \<and> has_bits (c_caps c) (CLIENT_PROTOCOL_41 OR CLIENT_TRANSACTIONS)
      else has_bits caps CLIENT_DEPRECATE_EOF \<longrightarrow> rows rs \<noteq> [])"

lemma payloads_framing:
  "has_bits caps CLIENT_DEPRECATE_EOF = has_bits caps' CLIENT_DEPRECATE_EOF \<Longrightarrow> payloads rs caps = payloads rs caps'"
  by (simp add: payloads_def terminator_def)

lemma walk_fitting:
  assumes "resultSet_ok rs" "map payload ms = payloads rs caps" "framing_fits c caps rs"
    "c_resp c = response_begin t (if caps_known c then c_caps c else BASE_CAPS)"
  shows "\<exists>t'. walk (c_resp c) ms = Some (t', []) \<and> rt_poisoned t' = has_bits (status rs) SERVER_MORE_RESULTS_EXISTS
    \<and> rt_in_transaction t' = has_bits (status rs) SERVER_STATUS_IN_TRANS"
proof (cases "has_bits caps CLIENT_DEPRECATE_EOF = has_bits (if caps_known c then c_caps c else BASE_CAPS) CLIENT_DEPRECATE_EOF")
  case True
  let ?t = "if caps_known c then c_caps c else BASE_CAPS"
  have "map payload ms = payloads rs ?t" using assms(2) payloads_framing [OF True] by simp
  moreover have "has_bits ?t (CLIENT_PROTOCOL_41 OR CLIENT_TRANSACTIONS)" using assms(3) base_bits unfolding framing_fits_def by (simp split: if_splits)
  ultimately show ?thesis using walk_payloads [OF assms(1), of ms ?t t "[]"] assms(4) by simp
next
  case False
  then have "\<not> caps_known c" using assms(3) unfolding framing_fits_def by metis
  moreover from this have "has_bits caps CLIENT_DEPRECATE_EOF" using False by simp
  ultimately have u: "\<not> caps_known c" "has_bits caps CLIENT_DEPRECATE_EOF" "rows rs \<noteq> []" using assms(3) unfolding framing_fits_def by simp_all
  from walk_unseparated [OF assms(1,2) u(2) _ u(3), of BASE_CAPS t "[]"] show ?thesis using assms(4) u(1) by simp
qed

lemma learned:
  assumes l: "listening_for (connFor ssl a)" and rs: "resultSet_ok rs" "framing_fits (connFor ssl a) caps rs"
    and bs: "concat bs = encodeResultSet rs caps seq" "\<forall>b\<in>set bs. b \<noteq> []"
    and a'_def: "a' = observeAll ts ssl sock bs a"
  shows "\<not> c_capturing (connFor ssl a')" "in_txn (connFor ssl a') = has_bits (status rs) SERVER_STATUS_IN_TRANS"
    "caps_known (connFor ssl a')" "has_bits (c_caps (connFor ssl a')) CLIENT_DEPRECATE_EOF = has_bits caps CLIENT_DEPRECATE_EOF"
    "elsewhere a' = elsewhere (if has_bits (status rs) SERVER_STATUS_IN_TRANS \<or> has_bits (status rs) SERVER_MORE_RESULTS_EXISTS then a
       else publish (ts 0) (c_pending (connFor ssl a)) sock (encodeResultSet rs BNCL_CANONICAL_CAPS 1) a)"
proof -
  let ?c = "connFor ssl a"
  have ne: "encodeResultSet rs caps seq \<noteq> []" by (auto simp: encodeResultSet_stream payloads_def encodeMessage_frames frames.simps [of seq] header_def split: if_splits)
  then have "bs \<noteq> []" using bs(1) by auto
  have lc: "c_capturing ?c" "c_captured ?c = []" "reader_ok (c_rd ?c)" "pending (c_rd ?c) = []" using l by (auto simp: listening_for_def)
  obtain t where t: "c_resp ?c = response_begin t (if caps_known ?c then c_caps ?c else BASE_CAPS)" using l by (auto simp: listening_for_def)
  obtain ms r where f: "feeds reader_append reader_next (c_rd ?c) bs ms r" "map payload ms = payloads rs caps" "pending r = []"
    using feeds_stream [OF lc(3,4) _ \<open>bs \<noteq> []\<close>] bs(1) unfolding encodeResultSet_stream by blast
  obtain t' where w: "walk (c_resp ?c) ms = Some (t', [])" "rt_poisoned t' = has_bits (status rs) SERVER_MORE_RESULTS_EXISTS"
    "rt_in_transaction t' = has_bits (status rs) SERVER_STATUS_IN_TRANS" using walk_fitting [OF rs(1) f(2) rs(2) t] by blast
  let ?c' = "?c\<lparr>c_sock := sock, c_rd := r, c_resp := t', c_captured := c_captured ?c @ concat bs\<rparr>"
  obtain d b where R: "responseEnded (ts 0) ?c' a = (d, b)" by (cases "responseEnded (ts 0) ?c' a")
  have E: "connFor ssl a' = d" "elsewhere a' = elsewhere b"
    using observeAll_ends [OF lc(3) f(1) w(1) lc(1) f(3) bs(2) \<open>bs \<noteq> []\<close>, of ts sock] R by (simp_all add: a'_def)
  have P: "parseResultSet (encodeResultSet rs caps seq) k = Some rs" if "has_bits k CLIENT_DEPRECATE_EOF = has_bits caps CLIENT_DEPRECATE_EOF" for k
    using parse_encoded [OF rs(1), of k seq "[]"] encode_framing [OF that, of rs seq] by simp
  let ?k = "if caps_known ?c then c_caps ?c else if has_bits caps CLIENT_DEPRECATE_EOF then DEP_CAPS else BASE_CAPS"
  have k: "has_bits ?k CLIENT_DEPRECATE_EOF = has_bits caps CLIENT_DEPRECATE_EOF" using rs(2) by (auto simp: framing_fits_def split: if_splits)
  have "responseEnded (ts 0) ?c' a = (let c = ?c\<lparr>c_sock := sock, c_rd := r, c_resp := t', in_txn := has_bits (status rs) SERVER_STATUS_IN_TRANS,
        c_capturing := False, c_captured := [], c_caps := ?k, caps_known := True\<rparr> in
      if has_bits (status rs) SERVER_STATUS_IN_TRANS \<or> has_bits (status rs) SERVER_MORE_RESULTS_EXISTS then (c, a)
      else (c\<lparr>c_pending := []\<rparr>, publish (ts 0) (c_pending ?c) sock (encodeResultSet rs BNCL_CANONICAL_CAPS 1) a))"
    using lc(1,2) w(2,3) P [OF k] inferred [OF rs(1), of caps seq] bs(1)
    by (auto simp: responseEnded_def Let_def intro: conn.equality)
  then show "\<not> c_capturing (connFor ssl a')" "in_txn (connFor ssl a') = has_bits (status rs) SERVER_STATUS_IN_TRANS"
    "caps_known (connFor ssl a')" "has_bits (c_caps (connFor ssl a')) CLIENT_DEPRECATE_EOF = has_bits caps CLIENT_DEPRECATE_EOF"
    "elsewhere a' = elsewhere (if has_bits (status rs) SERVER_STATUS_IN_TRANS \<or> has_bits (status rs) SERVER_MORE_RESULTS_EXISTS then a
       else publish (ts 0) (c_pending (connFor ssl a)) sock (encodeResultSet rs BNCL_CANONICAL_CAPS 1) a)"
    using R E k by (auto simp: Let_def split: if_splits)
qed

end
