(* ===== verification/AgentSpec.thy ===== *)
theory AgentSpec
  imports AgentRead
begin

text \<open>The properties of the agent.\<close>

section \<open>Suppressing a write\<close>

text \<open>What one attempt at a statement does, whichever way it goes.\<close>

definition same_side :: "conn \<Rightarrow> conn \<Rightarrow> bool" where
  "same_side c c' \<longleftrightarrow> c_started c' = c_started c \<and> in_txn c' = in_txn c \<and> owed c' = owed c \<and> owed_off c' = owed_off c
     \<and> c_caps c' = c_caps c \<and> caps_known c' = caps_known c"

lemma same_side_trans: "same_side c d \<Longrightarrow> same_side d e \<Longrightarrow> same_side c e"
  by (simp add: same_side_def)

definition same_rest :: "agent \<Rightarrow> agent \<Rightarrow> bool" where
  "same_rest a a' \<longleftrightarrow> conns a' = conns a \<and> list_s a' = list_s a \<and> on_s a' = on_s a \<and> to_server a' = to_server a"

lemma same_rest_trans: "same_rest a b \<Longrightarrow> same_rest b d \<Longrightarrow> same_rest a d"
  by (simp add: same_rest_def)

definition asked :: "nat \<Rightarrow> nat \<Rightarrow> bytes \<Rightarrow> conn \<Rightarrow> agent \<Rightarrow> bool" where
  "asked ssl sock data c a \<longleftrightarrow> awaiting c \<and> c_query c = data \<and> c_status c = NO_VERDICT \<and> c_sock c = sock \<and> \<not> in_txn c
     \<and> on_s a \<and> contains (list_s a) (c_pending c) \<and> map_of (spliced a) sock = Some ssl \<and> hijacked (sh a) sock (c_dpipe c)"

lemma tryStatement_outcome:
  assumes "tryStatement t ssl sock data sql c a = (b, c', a')"
  shows "same_side c c' \<and> same_rest a a' \<and>
    (if b then asked ssl sock data c' a' \<and> c_pending c' = sql
     else awaiting c' = awaiting c \<and> c_query c' = c_query c \<and> c_status c' = c_status c \<and> spliced a' = spliced a)"
  using assms acquire_hijacks
  by (auto simp: tryStatement_def capture_def same_side_def same_rest_def asked_def update_conv' Let_def split: if_splits option.splits prod.splits)

lemma handleLoop_outcome:
  assumes "handleLoop ts i ssl sock data sql c a = (b, c', a')"
  shows "same_side c c' \<and> same_rest a a' \<and>
    (if b then asked ssl sock data c' a' else awaiting c' = awaiting c \<and> c_query c' = c_query c \<and> c_status c' = c_status c \<and> spliced a' = spliced a)"
  using assms
proof (induction ts i ssl sock data sql c a rule: handleLoop.induct)
  case (1 ts i ssl sock data sql c a)
  obtain b1 c1 a1 where t: "tryStatement (ts i) ssl sock data sql (realign c) a = (b1, c1, a1)" by (cases "tryStatement (ts i) ssl sock data sql (realign c) a")
  have r: "same_side c (realign c)" "awaiting (realign c) = awaiting c" "c_query (realign c) = c_query c" "c_status (realign c) = c_status c"
    by (simp_all add: realign_def same_side_def)
  note T = tryStatement_outcome [OF t]
  show ?case
  proof (cases b1)
    case True
    then show ?thesis using "1.prems" t T r(1) same_side_trans by (auto simp: handleLoop.simps [of ts i])
  next
    case False
    obtain q rq where n: "request_next (c_req c1) = (q, rq)" by (cases "request_next (c_req c1)")
    have s: "same_side c1 (c1\<lparr>c_req := rq\<rparr>)" by (simp add: same_side_def)
    show ?thesis
    proof (cases q)
      case None
      then have e: "b = False" "c' = c1\<lparr>c_req := rq\<rparr>" "same_rest a1 a'" "spliced a' = spliced a1"
        using "1.prems" t False n by (auto simp: handleLoop.simps [of ts i] same_rest_def)
      have "same_side c c'" using r(1) T s e(2) same_side_trans by blast
      moreover have "same_rest a a'" using T e(3) same_rest_trans by blast
      ultimately show ?thesis using T False r e by simp
    next
      case (Some sql')
      then have h: "handleLoop ts (i + 1) ssl sock data sql' (c1\<lparr>c_req := rq\<rparr>) a1 = (b, c', a')"
        using "1.prems" t False n by (simp add: handleLoop.simps [of ts i])
      have R: "same_side (c1\<lparr>c_req := rq\<rparr>) c' \<and> same_rest a1 a' \<and>
          (if b then asked ssl sock data c' a' else awaiting c' = awaiting c1 \<and> c_query c' = c_query c1 \<and> c_status c' = c_status c1 \<and> spliced a' = spliced a1)"
        using "1.IH" [OF t [symmetric] _ refl n [symmetric] Some h] False by simp
      have "same_side c c'" using r(1) T s R same_side_trans by blast
      moreover have "same_rest a a'" using T R same_rest_trans by blast
      moreover have "awaiting c1 = awaiting c \<and> c_query c1 = c_query c \<and> c_status c1 = c_status c \<and> spliced a1 = spliced a" using T False r(2-4) by simp
      ultimately show ?thesis using R by (cases b) simp_all
    qed
  qed
qed

section \<open>Draining\<close>

fun drainAll :: "nat list \<Rightarrow> conn \<Rightarrow> bytes \<times> conn" where
  "drainAll [] c = ([], c)"
| "drainAll (room # rooms) c =
     (case drainLocked room c of (out, c) \<Rightarrow> (case drainAll rooms c of (outs, c) \<Rightarrow> (out @ outs, c)))"

abbreviation left :: "conn \<Rightarrow> bytes" where
  "left c \<equiv> drop (owed_off c) (owed c)"

lemma drainLocked_left: "drainLocked room c = (out, c') \<Longrightarrow> out = take room (left c) \<and> left c' = drop room (left c)"
  by (auto simp: drainLocked_def Let_def min_def add.commute split: if_splits)

section \<open>Settling\<close>

text \<open>The result set the agent can serve when it settles: the daemon said hit, the framing is known and the payload is there and parses.\<close>

definition answer :: "attempt \<Rightarrow> nat \<Rightarrow> (nat \<times> bytes) option \<Rightarrow> conn \<Rightarrow> agent \<Rightarrow> resultSet option" where
  "answer t now arrives c a =
     (if c_status (verdict now arrives c) = REPLY_OK \<and> caps_known c
      then case fst (lookupPayload (c_pending c) (t_look t) (release (t_release t) (c_sock c) (c_dpipe c) (sh a))) of
             None \<Rightarrow> None
           | Some (canon, _) \<Rightarrow> parseResultSet canon BNCL_CANONICAL_CAPS
      else None)"

lemma takeReply_sel [simp]:
  "c_sock (takeReply now arrives c) = c_sock c" "c_dpipe (takeReply now arrives c) = c_dpipe c" "c_pending (takeReply now arrives c) = c_pending c"
  "caps_known (takeReply now arrives c) = caps_known c" "c_caps (takeReply now arrives c) = c_caps c" "c_last_seq (takeReply now arrives c) = c_last_seq c"
  "c_query (takeReply now arrives c) = c_query c" "c_started (takeReply now arrives c) = c_started c" "in_txn (takeReply now arrives c) = in_txn c"
  by (simp_all add: takeReply_def Let_def split: option.split)

lemma verdict_sel [simp]:
  "c_sock (verdict now arrives c) = c_sock c" "c_dpipe (verdict now arrives c) = c_dpipe c" "c_pending (verdict now arrives c) = c_pending c"
  "caps_known (verdict now arrives c) = caps_known c" "c_caps (verdict now arrives c) = c_caps c" "c_last_seq (verdict now arrives c) = c_last_seq c"
  "c_query (verdict now arrives c) = c_query c" "c_started (verdict now arrives c) = c_started c" "in_txn (verdict now arrives c) = in_txn c"
  "\<not> awaiting (verdict now arrives c)"
  by (simp_all add: verdict_def)

lemma giveUpPipe_sel [simp]:
  "conns (giveUpPipe t c a) = conns a" "to_server (giveUpPipe t c a) = to_server a" "map_of (spliced (giveUpPipe t c a)) (c_sock c) = None"
  "sh (giveUpPipe t c a) = release (t_release t) (c_sock c) (c_dpipe c) (sh a)"
  by (simp_all add: giveUpPipe_def Let_def delete_conv')

lemma giveUpPipe_spliced [simp]: "c_sock c = k \<Longrightarrow> map_of (spliced (giveUpPipe t c a)) k = None"
  by (simp add: giveUpPipe_def Let_def delete_conv')

lemma drainLocked_sel:
  "drainLocked room c = (out, c') \<Longrightarrow> awaiting c' = awaiting c \<and> c_started c' = c_started c"
  by (auto simp: drainLocked_def Let_def split: if_splits)

text \<open>Once settled, the connection is back with the server, and either the caller is served or the query has gone out.\<close>

lemma settle_outcome:
  assumes "settle t now arrives ssl room c a = (out, c', a')" "awaiting c"
  shows "\<not> awaiting c' \<and> map_of (spliced a') (c_sock c) = None \<and> conns a' = conns a \<and> c_started c' = c_started c \<and>
    (case answer t now arrives c a of
       Some rs \<Rightarrow> to_server a' = to_server a \<and> out = take room (encodeResultSet rs (c_caps c) (c_last_seq c + 1))
         \<and> out @ left c' = encodeResultSet rs (c_caps c) (c_last_seq c + 1)
     | None \<Rightarrow> out = [] \<and> (if c_query c = [] then to_server a' = to_server a
         else to_server a' = to_server a @ [(ssl, c_query c)] \<and> c_capturing c' \<and> c_captured c' = []))"
proof -
  obtain r s where r: "lookupPayload (c_pending c) (t_look t) (release (t_release t) (c_sock c) (c_dpipe c) (sh a)) = (r, s)"
    by (cases "lookupPayload (c_pending c) (t_look t) (release (t_release t) (c_sock c) (c_dpipe c) (sh a))")
  let ?c = "verdict now arrives c"
  show ?thesis
  proof (cases "answer t now arrives c a")
    case None
    then obtain s' where "settle t now arrives ssl room c a = (case resend ssl ?c ((giveUpPipe t ?c a)\<lparr>sh := s'\<rparr>) of (d, b) \<Rightarrow> ([], d, b))"
    proof (cases "c_status ?c = REPLY_OK \<and> caps_known c")
      case True
      then show ?thesis using None assms(2) r that [of s] by (auto simp: settle_def answer_def Let_def split: option.splits)
    next
      case False
      then have "settle t now arrives ssl room c a = (case resend ssl ?c (giveUpPipe t ?c a) of (d, b) \<Rightarrow> ([], d, b))"
        using assms(2) by (auto simp: settle_def Let_def)
      then show ?thesis using that [of "sh (giveUpPipe t ?c a)"] by (simp del: giveUpPipe_sel(4))
    qed
    then show ?thesis using None assms(1) by (auto simp: resend_def capture_def split: if_splits)
  next
    case (Some rs)
    then obtain canon i where p: "c_status ?c = REPLY_OK" "caps_known c" "r = Some (canon, i)" "parseResultSet canon BNCL_CANONICAL_CAPS = Some rs"
      using r by (auto simp: answer_def split: if_splits option.splits)
    let ?d = "?c\<lparr>owed := encodeResultSet rs (c_caps c) (c_last_seq c + 1), owed_off := 0, c_pending := []\<rparr>"
    obtain o1 d where d: "drainLocked room ?d = (o1, d)" by (cases "drainLocked room ?d")
    then have "settle t now arrives ssl room c a = (o1, d, count (\<lambda>s. s\<lparr>st_served := st_served s + 1\<rparr>) ((giveUpPipe t ?c a)\<lparr>sh := s\<rparr>))"
      using assms(2) r p by (simp add: settle_def Let_def)
    then show ?thesis using assms(1) Some drainLocked_left [OF d] drainLocked_sel [OF d] by auto
  qed
qed

lemma responseEnded_sel: "responseEnded t c a = (c', a') \<Longrightarrow> awaiting c' = awaiting c \<and> c_started c' = c_started c \<and> spliced a' = spliced a \<and> to_server a' = to_server a"
  by (auto simp: responseEnded_def publish_def Let_def split: if_splits option.splits prod.splits)

lemma observeLoop_sel: "observeLoop ts i c a = (c', a') \<Longrightarrow> awaiting c' = awaiting c \<and> c_started c' = c_started c \<and> spliced a' = spliced a \<and> to_server a' = to_server a"
proof (induction ts i c a rule: observeLoop.induct)
  case (1 ts i c a)
  show ?case
  proof (cases "reader_next (c_rd c)")
    case None
    then show ?thesis using "1.prems" by (simp add: observeLoop.simps [of ts i])
  next
    case (Some x)
    then obtain m rd where n: "reader_next (c_rd c) = Some (m, rd)" by (cases x) auto
    obtain b r where f: "response_feed (c_resp c) m = (b, r)" by (cases "response_feed (c_resp c) m")
    let ?c = "c\<lparr>c_rd := rd, c_resp := r\<rparr>"
    show ?thesis
    proof (cases b)
      case True
      obtain c1 a1 where e: "responseEnded (ts i) ?c a = (c1, a1)" by (cases "responseEnded (ts i) ?c a")
      then have "observeLoop ts (i + 1) c1 a1 = (c', a')" using "1.prems" n f True by (simp add: observeLoop.simps [of ts i])
      from "1.IH"(1) [OF n refl f [symmetric] _ e [symmetric] this] True responseEnded_sel [OF e] show ?thesis by simp
    next
      case False
      then have "observeLoop ts i ?c a = (c', a')" using "1.prems" n f by (simp add: observeLoop.simps [of ts i c])
      from "1.IH"(2) [OF n refl f [symmetric] _ this] False show ?thesis by simp
    qed
  qed
qed

lemma observe_sel:
  "awaiting (connFor ssl (observe ts ssl sock data a)) = awaiting (connFor ssl a) \<and> spliced (observe ts ssl sock data a) = spliced a
    \<and> to_server (observe ts ssl sock data a) = to_server a"
proof -
  let ?c = "(connFor ssl a)\<lparr>c_sock := sock, c_rd := reader_append (c_rd (connFor ssl a)) data\<rparr>"
  let ?d = "if c_capturing ?c then ?c\<lparr>c_captured := c_captured ?c @ data\<rparr> else ?c"
  obtain c' a' where l: "observeLoop ts 0 ?d a = (c', a')" by (cases "observeLoop ts 0 ?d a")
  then have o: "observe ts ssl sock data a = put_conn ssl c' a'" unfolding observe_def Let_def by (simp only: prod.case)
  from observeLoop_sel [OF l] have "awaiting c' = awaiting (connFor ssl a)" "c_started c'" "spliced a' = spliced a" "to_server a' = to_server a" by auto
  then show ?thesis unfolding o by (simp add: put_conn_def [of _ _ a'] connFor_def update_conv')
qed

lemma lookup_length: "lookupPayload sql now s = (Some (bs, i), s') \<Longrightarrow> length bs < 2 ^ 64"
proof -
  assume "lookupPayload sql now s = (Some (bs, i), s')"
  then obtain m p where "length bs = stmt_data_len (read_stmt m p)"
    by (auto simp: lookupPayload_def readBytes_def Let_def split: option.splits prod.splits if_splits)
  moreover have "stmt_data_len (read_stmt m p) < 2 ^ 64" using fits_dec by (simp add: read_stmt_def stmt_fits_def)
  ultimately show ?thesis by simp
qed

lemma answer_ok:
  assumes "answer t now arrives c a = Some rs"
  shows "resultSet_ok rs"
proof -
  obtain canon i s where "lookupPayload (c_pending c) (t_look t) (release (t_release t) (c_sock c) (c_dpipe c) (sh a)) = (Some (canon, i), s)"
    "parseResultSet canon BNCL_CANONICAL_CAPS = Some rs"
    using assms by (cases "lookupPayload (c_pending c) (t_look t) (release (t_release t) (c_sock c) (c_dpipe c) (sh a))")
      (auto simp: answer_def split: if_splits option.splits)
  then show ?thesis using parseResultSet_ok lookup_length by blast
qed

lemma encode_nonempty: "encodeResultSet rs caps seq \<noteq> []"
  by (auto simp: encodeResultSet_stream payloads_def encodeMessage_frames frames.simps [of seq] header_def split: if_splits)

lemma refresh_sel [simp]:
  "conns (refreshLocked now alive lf a) = conns a" "to_server (refreshLocked now alive lf a) = to_server a" "spliced (refreshLocked now alive lf a) = spliced a"
  by (simp_all add: refreshLocked_def Let_def split: option.split sum.split)

lemma put_conn_sel [simp]: "spliced (put_conn ssl c a) = spliced a" "to_server (put_conn ssl c a) = to_server a"
  by (simp_all add: put_conn_def)

lemma connFor_sent [simp]: "connFor ssl (a\<lparr>to_server := x\<rparr>) = connFor ssl a"
  by (simp add: connFor_def)

lemma delete_put [simp]: "AList.delete ssl (conns (put_conn ssl c a)) = AList.delete ssl (conns a)"
  by (simp add: put_conn_def delete_update_same)

lemma read_settles:
  assumes "awaiting (connFor ssl a)" "c_query (connFor ssl a) \<noteq> []" "0 < room"
  shows "case rep_SSL_read t now arrives ts real ssl sock room a of
     (r, a') \<Rightarrow> let c = connFor ssl a; c' = connFor ssl a' in
       \<not> awaiting c' \<and> map_of (spliced a') (c_sock c) = None
       \<and> (case answer t now arrives c a of
            Some rs \<Rightarrow> (let resp = encodeResultSet rs (c_caps c) (c_last_seq c + 1) in
              r = Some (take room resp) \<and> take room resp @ drop (owed_off c') (owed c') = resp
              \<and> parseResultSet resp (c_caps c) = Some rs \<and> to_server a' = to_server a)
          | None \<Rightarrow> to_server a' = to_server a @ [(ssl, c_query c)])"
proof -
  let ?c = "connFor ssl a"
  obtain out c1 a1 where s: "settle t now arrives ssl room ?c a = (out, c1, a1)" by (cases "settle t now arrives ssl room ?c a")
  note S = settle_outcome [OF s assms(1)]
  have c1: "connFor ssl (put_conn ssl c1 a1) = c1" using S by simp
  show ?thesis
  proof (cases "answer t now arrives ?c a")
    case (Some rs)
    let ?resp = "encodeResultSet rs (c_caps ?c) (c_last_seq ?c + 1)"
    have "out \<noteq> []" using S Some assms(3) encode_nonempty by auto
    then have "rep_SSL_read t now arrives ts real ssl sock room a = (Some out, put_conn ssl c1 a1)" using s assms(3) by (simp add: rep_SSL_read_def)
    moreover have "parseResultSet ?resp (c_caps ?c) = Some rs" using parse_encoded [OF answer_ok [OF Some], of "c_caps ?c" _ "[]"] by simp
    moreover have T: "out = take room ?resp" "to_server a1 = to_server a" "out @ left c1 = ?resp" using S unfolding Some option.case by blast+
    moreover have "take room ?resp @ left c1 = ?resp" using T(3) unfolding T(1) .
    ultimately show ?thesis using S Some c1 by (simp add: Let_def)
  next
    case None
    have "out = []" using S None by simp
    obtain o2 c2 where d: "drainLocked room c1 = (o2, c2)" by (cases "drainLocked room c1")
    have "map_of (conns (put_conn ssl c1 a1)) ssl = Some c1" by (simp add: put_conn_def update_conv')
    then have dr: "drain ssl room (put_conn ssl c1 a1) = (o2, put_conn ssl c2 (put_conn ssl c1 a1))" using d by (simp add: drain_def)
    let ?a2 = "put_conn ssl c2 (put_conn ssl c1 a1)"
    have "c_started c2" using drainLocked_sel [OF d] S by simp
    then have a2: "\<not> awaiting (connFor ssl ?a2)" "spliced ?a2 = spliced a1" "to_server ?a2 = to_server a1"
      using drainLocked_sel [OF d] S by simp_all
    have "\<exists>r. rep_SSL_read t now arrives ts real ssl sock room a = (r, ?a2) \<or> (\<exists>bs. rep_SSL_read t now arrives ts real ssl sock room a = (r, observe ts ssl sock bs ?a2))"
      using s assms(3) \<open>out = []\<close> dr by (auto simp: rep_SSL_read_def split: option.split)
    then show ?thesis using S None a2 assms(2) observe_sel [of ssl ts sock _ ?a2] by (auto simp: Let_def)
  qed
qed

section \<open>A command cut in two\<close>

lemma cut_command:
  assumes "reader_ok r" "pending r = []" "data1 @ data2 = encodeMessage pl 0" "data2 \<noteq> []"
  shows "reader_next (reader_append r data1) = None
    \<and> (\<exists>m r'. reader_next (reader_append (reader_append r data1) data2) = Some (m, r') \<and> payload m = pl)"
proof -
  have "concat [data1, data2] = stream 0 [pl]" using assms(3) by simp
  from feeds_stream [OF assms(1,2) this list.distinct(2)] obtain ms r' where f: "feeds reader_append reader_next r [data1, data2] ms r'" "map payload ms = [pl]" "pending r' = []" by (elim exE conjE)
  then obtain ms1 r1 ms2 where p: "ms = ms1 @ ms2" "pulls reader_next (reader_append r data1) ms1 r1" "pulls reader_next (reader_append r1 data2) ms2 r'" by auto
  have ok: "reader_ok r1" using mr.pulls_ok [OF _ p(2)] assms(1) by (simp add: framing_simps)
  have "ms2 \<noteq> []"
  proof
    assume "ms2 = []"
    then have "r' = reader_append r1 data2" using p(3) by simp
    then show False using f(3) ok assms(4) by (simp add: framing_simps)
  qed
  then have "ms1 = []" using f(2) p(1) by (cases ms1) auto
  then have e: "reader_next (reader_append r data1) = None" "r1 = reader_append r data1" using p(2) by auto
  obtain m where "ms2 = [m]" "payload m = pl" using f(2) p(1) \<open>ms1 = []\<close> by auto
  then show ?thesis using p(3) e by auto
qed

section \<open>A connection to watch\<close>

definition demo_attempt :: attempt where
  "demo_attempt = \<lparr>t_look = 6, t_lock = 6, t_relock = 6, t_dead = 6, t_release = 6, map_ok = True, store_ok = True, send = (\<lambda>bs. int (length bs))\<rparr>"

definition demo_agent :: "conn \<Rightarrow> shared \<Rightarrow> agent" where
  "demo_agent c s = \<lparr>conns = [(3, c)], spliced = [], list_s = \<lparr>stmts = [[65]], sl_index = {[65]}\<rparr>, list_path = [108], ready_s = True, on_s = True, gen_s = 0,
     next_poll_ns = 1000, local_s = False, daemon_gone = False,
     stat_s = \<lparr>st_writes = 0, st_matched = 0, st_served = 0, st_passthrough = 0, st_txn_skip = 0, st_published = 0, st_asked = 0, st_pool_empty = 0, st_resent = 0, st_timeouts = 0\<rparr>,
     sh = s, to_server = [], hooks_s = [1], hooked_s = True\<rparr>"

definition demo_shared :: shared where
  "demo_shared = \<lparr>sh_arena = \<lparr>opened = True, cap = 0, ctl = \<lparr>lock = 0, taken_ns = 0, heap = 64, heap_end = 64, free_head = 0, retire_head = 0, used = 0\<rparr>, mem = \<lambda>_. 0\<rparr>,
     sh_maps = demo_maps, mapped = True, cfg_pin = True\<rparr>"

lemma demo_connFor [simp]: "c_started c \<Longrightarrow> connFor 3 (demo_agent c s) = c"
  by (simp add: connFor_def demo_agent_def)

section \<open>Properties\<close>

text \<open>
  C17: the agent infers the framing of a connection it has never seen the handshake of. For every result set and every capabilities it was encoded under, trying both framings and
  believing the one with more rows finds out exactly whether the connection leaves out the separator, empty result sets included.
\<close>

theorem framing_inferred:
  assumes "resultSet_ok rs"
  shows "inferCaps (encodeResultSet rs caps seq) =
    Some (if has_bits caps CLIENT_DEPRECATE_EOF then BASE_CAPS OR CLIENT_DEPRECATE_EOF else BASE_CAPS)"
  using inferred [OF assms] .

theorem framing_inferred_witness: "inferCaps (encodeResultSet demoResult CLIENT_DEPRECATE_EOF 1) = Some (BASE_CAPS OR CLIENT_DEPRECATE_EOF)"
  using framing_inferred [OF demoResult_ok, of CLIENT_DEPRECATE_EOF 1] by (simp add: has_bits_def CLIENT_DEPRECATE_EOF_def)






text \<open>
  An owed response is handed over exactly. Over any sequence of reads, whatever room each has, the caller receives the owed bytes in order, as many as the reads have room for,
  and what is still owed afterwards is the rest.
\<close>

theorem drain_exact:
  "case drainAll rooms c of
     (out, c') \<Rightarrow> out = take (sum_list rooms) (drop (owed_off c) (owed c))
       \<and> drop (owed_off c') (owed c') = drop (sum_list rooms) (drop (owed_off c) (owed c))"
proof (induction rooms arbitrary: c)
  case (Cons room rooms)
  obtain o1 c1 where d: "drainLocked room c = (o1, c1)" by (cases "drainLocked room c")
  obtain o2 c2 where e: "drainAll rooms c1 = (o2, c2)" by (cases "drainAll rooms c1")
  show ?case using Cons.IH [of c1] drainLocked_left [OF d] d e by (simp add: take_add ac_simps)
qed simp



end
