(* ===== verification/Splice.thy ===== *)
theory Splice
  imports DaemonView
begin

text \<open>
  The two programs of \<open>src/src/kclient/kclient.bpf.c\<close>: the kernel's part of a spliced connection. A program runs when its socket sends; it lets the bytes pass to the socket's own peer, or
  delivers them into the receive queue of another socket. Sockets are numbers; \<open>None\<close> is a message without a socket.
\<close>

section \<open>Model\<close>

text \<open>\<open>bpf_msg_redirect_map\<close> drops the message when the map has no socket at the index.\<close>

datatype sk_verdict = SK_PASS | SK_DROP | Deliver nat

definition cfg_get :: "maps \<Rightarrow> nat \<Rightarrow> nat" where
  "cfg_get m slot = (case array_lookup (cfg m) slot of None \<Rightarrow> 0 | Some v \<Rightarrow> v)"

definition msg_redirect_map :: "nat option list \<Rightarrow> nat \<Rightarrow> sk_verdict" where
  "msg_redirect_map sockmap key =
     (case array_lookup sockmap key of Some (Some sk) \<Rightarrow> Deliver sk | _ \<Rightarrow> SK_DROP)"

definition splice_c2d :: "maps \<Rightarrow> nat option \<Rightarrow> sk_verdict" where
  "splice_c2d m sk =
     (if cfg_get m BNCL_CFG_ENABLED = 0 then SK_PASS
      else case sk of
        None \<Rightarrow> SK_PASS
      | Some sk \<Rightarrow>
          (case map_of (pipe_sk_info_map m) sk of
             None \<Rightarrow> SK_PASS
           | Some info \<Rightarrow> if si_paired info = 0 then SK_PASS else msg_redirect_map (dpipe_map m) (si_key info)))"

definition splice_d2c :: "maps \<Rightarrow> nat option \<Rightarrow> sk_verdict" where
  "splice_d2c m sk =
     (if cfg_get m BNCL_CFG_ENABLED = 0 then SK_PASS
      else case sk of
        None \<Rightarrow> SK_PASS
      | Some sk \<Rightarrow>
          (case map_of (pipe_sk_info_map m) sk of
             None \<Rightarrow> SK_PASS
           | Some info \<Rightarrow> if si_paired info = 0 then SK_PASS else msg_redirect_map (cpipe_map m) (si_key info)))"

text \<open>
  Which program a send runs through: a socket in \<open>cpipe_map\<close> runs the first, one in \<open>dpipe_map\<close> the second, any other none. A send that passes goes to the socket's own peer.
\<close>

definition send_from :: "maps \<Rightarrow> nat \<Rightarrow> sk_verdict" where
  "send_from m sk =
     (if Some sk \<in> set (cpipe_map m) then splice_c2d m (Some sk)
      else if Some sk \<in> set (dpipe_map m) then splice_d2c m (Some sk)
      else SK_PASS)"

section \<open>Properties\<close>

text \<open>The daemon pairs its own end when it serves a request.\<close>

abbreviation paired :: "nat \<Rightarrow> nat \<Rightarrow> maps \<Rightarrow> maps" where
  "paired sfd key m \<equiv> m\<lparr>pipe_sk_info_map := AList.update sfd \<lparr>si_key = key, si_paired = 1\<rparr> (pipe_sk_info_map m)\<rparr>"

lemma send_sides:
  "Some sk \<in> set (cpipe_map m) \<Longrightarrow> send_from m sk = splice_c2d m (Some sk)"
  "Some sk \<notin> set (cpipe_map m) \<Longrightarrow> Some sk \<in> set (dpipe_map m) \<Longrightarrow> send_from m sk = splice_d2c m (Some sk)"
  by (simp_all add: send_from_def)

text \<open>
  C16: a splice joins exactly the two ends of one pipe, for as long as the client holds it. After \<open>acquire\<close> every message the client sends on its own socket is delivered to the
  daemon's end of the pipe it took, and never to the database; once the daemon has paired its end, what it sends is delivered to that client's socket. After \<open>release\<close> the client's messages
  go to the database again, and a reply that comes too late is dropped.
\<close>

theorem spliced_pair:
  assumes "acquire mo so now now' sql sock s = (Some key, s')" "cfg_get (sh_maps s) BNCL_CFG_ENABLED \<noteq> 0"
    and "key < length (dpipe_map (sh_maps s))" "dpipe_map (sh_maps s) ! key = Some sfd"
    and "Some sfd \<notin> set (cpipe_map (sh_maps s))" "sfd \<noteq> sock"
  shows "let m = paired sfd key (sh_maps s'); r = release t sock key (s'\<lparr>sh_maps := m\<rparr>) in
    send_from m sock = Deliver sfd \<and> send_from m sfd = Deliver sock
    \<and> send_from (sh_maps r) sock = SK_PASS \<and> send_from (sh_maps r) sfd = SK_DROP"
proof -
  note F = acquire_frame [OF assms(1)]
  let ?m = "paired sfd key (sh_maps s')" and ?r = "release t sock key (s'\<lparr>sh_maps := paired sfd key (sh_maps s')\<rparr>)"
  have h: "hijacked s' sock key" by (rule acquire_hijacks [OF assms(1)])
  then have k: "key < length (cpipe_map (sh_maps s'))" "cpipe_map (sh_maps s') ! key = Some sock" by (auto simp: hijacked_def array_lookup_def split: if_splits)
  have on: "cfg_get ?m BNCL_CFG_ENABLED \<noteq> 0" "cfg_get (sh_maps ?r) BNCL_CFG_ENABLED \<noteq> 0" using assms(2) F(2) by (simp_all add: cfg_get_def)
  have c: "Some sock \<in> set (cpipe_map ?m)" using k by (auto simp: in_set_conv_nth)
  have d: "Some sfd \<in> set (dpipe_map ?m)" "Some sfd \<in> set (dpipe_map (sh_maps ?r))" using assms(3,4) F(1) by (auto simp: in_set_conv_nth)
  have n: "Some sfd \<notin> set (cpipe_map ?m)" "Some sfd \<notin> set (cpipe_map (sh_maps ?r))"
    using assms(5,6) F(3) set_update_subset_insert [of "cpipe_map (sh_maps s)" key "Some sock"] set_update_subset_insert [of "cpipe_map (sh_maps s)" key None]
    by auto
  have "send_from ?m sock = Deliver sfd"
    using send_sides(1) [OF c] on(1) assms(3,4,6) F by (simp add: splice_c2d_def msg_redirect_map_def array_lookup_def update_conv')
  moreover have "send_from ?m sfd = Deliver sock"
    using send_sides(2) [OF n(1) d(1)] on(1) assms(6) k by (simp add: splice_d2c_def msg_redirect_map_def array_lookup_def update_conv')
  moreover have "send_from (sh_maps ?r) sock = SK_PASS"
    by (simp add: send_from_def splice_c2d_def splice_d2c_def update_conv')
  moreover have "send_from (sh_maps ?r) sfd = SK_DROP"
    using send_sides(2) [OF n(2) d(2)] on(2) assms(6) k by (simp add: splice_d2c_def msg_redirect_map_def array_lookup_def update_conv')
  ultimately show ?thesis by (simp add: Let_def)
qed

definition demo_spliced :: "nat \<Rightarrow> arena \<Rightarrow> shared" where
  "demo_spliced p a = (demo_published p a)\<lparr>sh_maps := (sh_maps (demo_published p a))\<lparr>dpipe_map := [Some 8, Some 9], cfg := replicate BNCL_CFG_N 3\<rparr>\<rparr>"

lemma demo_spliced_ready:
  assumes "ready (demo_published p a) C [0] 1 p st" "findStmt [65] (demo_published p a) = Some p"
  shows "ready (demo_spliced p a) C [0] 1 p st" "findStmt [65] (demo_spliced p a) = Some p"
  using assms by (simp_all add: ready_def demo_spliced_def findStmt_def freelist_ok_def free_keys_def BNCL_STMT_MAX_def)

theorem spliced_pair_witness:
  "\<exists>s s'. acquire True True 1 2 [65] 5 s = (Some 1, s') \<and> send_from (paired 9 1 (sh_maps s')) 5 = Deliver 9 \<and> send_from (paired 9 1 (sh_maps s')) 9 = Deliver 5"
proof -
  obtain a p q C where d: "heap.objects a C" "0 < p" "record_at C p (demo_stmt\<lparr>stmt_data := Some q\<rparr>)"
    using demo_objects by blast
  have r: "stmt_refs (demo_stmt\<lparr>stmt_data := Some q\<rparr>) = 1" by (simp add: demo_stmt_def)
  note R = demo_ready [OF d(1,3) r d(2)]
  note R' = demo_spliced_ready [OF R(1,2)]
  obtain s' where q: "acquire True True 1 2 [65] 5 (demo_spliced p a) = (Some 1, s')" using acquire_claimed [OF R', of 1 2 5] by blast
  have m: "dpipe_map (sh_maps (demo_spliced p a)) = [Some 8, Some 9]" "cpipe_map (sh_maps (demo_spliced p a)) = [None, None]"
    "cfg_get (sh_maps (demo_spliced p a)) BNCL_CFG_ENABLED = 3"
    by (simp_all add: demo_spliced_def demo_published_def demo_maps_def cfg_get_def array_lookup_def BNCL_CFG_ENABLED_def BNCL_CFG_N_def)
  show ?thesis using spliced_pair [OF q, of 9 3] m q by (auto simp: Let_def)
qed

end
