(* ===== verification/Frame.thy ===== *)
theory Frame
  imports DaemonView
begin

text \<open>
  What the daemon's operations leave alone: serving a request touches the arena, the shared tier's client, the counters and the pairing of its own socket, and nothing else; and it never
  takes the pipe lock.
\<close>

section \<open>The lock word\<close>

abbreviation lock_of :: "arena \<Rightarrow> nat" where
  "lock_of a \<equiv> lock (ctl a)"

lemma lock_unlink [simp]: "lock_of (unlink off a) = lock_of a"
  by (simp add: unlink_def Let_def)

lemma lock_push_front [simp]: "lock_of (push_front off a) = lock_of a"
  by (simp add: push_front_def Let_def)

lemma lock_carve [simp]: "lock_of (carve off want a) = lock_of a"
  by (simp add: carve_def Let_def)

lemma lock_put: "put src a = Some (q, a') \<Longrightarrow> lock_of a' = lock_of a"
  by (auto simp: put_def alloc_def Let_def split: option.splits if_splits prod.splits)

lemma lock_merge_forward [simp]: "lock_of (merge_forward off a) = lock_of a"
  by (simp add: merge_forward_def Let_def)

lemma lock_merge_backward [simp]: "lock_of (snd (merge_backward off a)) = lock_of a"
  by (simp add: merge_backward_def Let_def)

lemma lock_free [simp]: "lock_of (free p a) = lock_of a"
  by (cases p) (simp_all add: free_def Let_def case_prod_beta)

lemma lock_retire [simp]: "lock_of (retire p now a) = lock_of a"
  by (simp add: retire_def Let_def split: option.split)

section \<open>Serving\<close>

lemma keep_frame:
  assumes "keep p body now d = Some (q, d')"
  shows "\<exists>a. d' = d\<lparr>d_arena := a\<rparr> \<and> lock_of a = lock_of (d_arena d)"
proof (cases "stmt_data (rec_at d p) \<noteq> None \<and> stmt_data_len (rec_at d p) = length body \<and> readBytes (mem (d_arena d)) (the (stmt_data (rec_at d p))) (length body) = body")
  case True
  then show ?thesis using assms by (intro exI [of _ "d_arena d"]) (simp add: keep_def)
next
  case False
  then obtain r a where p: "put body (d_arena d) = Some (r, a)" using assms by (auto simp: keep_def Let_def split: option.splits)
  then show ?thesis using False assms lock_put [OF p] by (auto simp: keep_def Let_def split: if_splits)
qed

lemma publishPayload_frame: "\<exists>a. publishPayload p q len ts d = d\<lparr>d_arena := a\<rparr> \<and> lock_of a = lock_of (d_arena d)"
  by (auto simp: publishPayload_def set_rec_def)

lemma kept_frame:
  assumes "keep p body now d = Some (q, d')"
  shows "\<exists>a. publishPayload p q' len ts d' = d\<lparr>d_arena := a\<rparr> \<and> lock_of a = lock_of (d_arena d)"
proof -
  obtain a where a: "d' = d\<lparr>d_arena := a\<rparr>" "lock_of a = lock_of (d_arena d)" using keep_frame [OF assms] by blast
  obtain b where "publishPayload p q' len ts d' = d'\<lparr>d_arena := b\<rparr>" "lock_of b = lock_of (d_arena d')" using publishPayload_frame by blast
  then show ?thesis using a by (intro exI [of _ b]) simp
qed

lemma resolve_frame:
  assumes "resolve p now now' d = Some (s, d')"
  shows "\<exists>a v. d' = d\<lparr>d_valkey := v, d_arena := a\<rparr> \<and> lock_of a = lock_of (d_arena d)"
proof -
  obtain v where v: "snd (valkeyUp d) = d\<lparr>d_valkey := v\<rparr>" using valkeyUp_frame by blast
  have same: "d\<lparr>d_valkey := w\<rparr> = d\<lparr>d_valkey := w, d_arena := d_arena d\<rparr>" for w by simp
  consider "d' = d" | w where "d' = d\<lparr>d_valkey := w\<rparr>" | w st where "d' = set_rec p st (d\<lparr>d_valkey := w\<rparr>)"
    | w body q e where "keep p body now' (d\<lparr>d_valkey := w\<rparr>) = Some (q, e)" "d' = e \<or> d' = publishPayload p q (length body) now e"
    using assms v
    by (auto simp: resolve_def Let_def split: if_splits option.splits prod.splits)
  then show ?thesis
  proof cases
    case 1
    then show ?thesis by (intro exI [of _ "d_arena d"] exI [of _ "d_valkey d"]) simp
  next
    case 2
    then show ?thesis using same by blast
  next
    case 3
    then show ?thesis by (auto simp: set_rec_def)
  next
    case 4
    then show ?thesis using keep_frame [OF 4(1)] kept_frame [OF 4(1), of q "length body" now] by auto
  qed
qed

lemma store_frame:
  assumes "store key body now now' d = Some (b, d')"
  shows "\<exists>v a c. d' = d\<lparr>d_valkey := v, d_arena := a, cnt := c\<rparr> \<and> lock_of a = lock_of (d_arena d)"
proof -
  have same: "d\<lparr>d_valkey := d_valkey d, d_arena := d_arena d, cnt := c\<rparr> = d\<lparr>cnt := c\<rparr>" for c by simp
  obtain v where v: "snd (valkeyUp d) = d\<lparr>d_valkey := v\<rparr>" using valkeyUp_frame by blast
  consider "d' = d" | "d' = refuse d" | w p q e c where "keep p body now (d\<lparr>d_valkey := w\<rparr>) = Some (q, e)"
      "d' = e \<or> d' = (publishPayload p q (length body) now' e)\<lparr>cnt := c\<rparr>"
    using assms v
    by (auto simp: store_def Let_def split: if_splits option.splits prod.splits) blast+
  then show ?thesis
  proof cases
    case 1
    then show ?thesis using same [of "cnt d"] by (intro exI [of _ "d_valkey d"] exI [of _ "d_arena d"] exI [of _ "cnt d"]) simp
  next
    case 2
    then show ?thesis unfolding refuse_def using same by metis
  next
    case 3
    obtain a where a: "e = d\<lparr>d_valkey := w\<rparr>\<lparr>d_arena := a\<rparr>" "lock_of a = lock_of (d_arena d)" using keep_frame [OF 3(1)] by auto
    obtain a' where a': "publishPayload p q (length body) now' e = d\<lparr>d_valkey := w\<rparr>\<lparr>d_arena := a'\<rparr>" "lock_of a' = lock_of (d_arena d)"
      using kept_frame [OF 3(1), of q "length body" now'] by auto
    show ?thesis using 3(2) a a'
      by (elim disjE) (rule exI [of _ w], rule exI [of _ a], rule exI [of _ "cnt d"], simp, rule exI [of _ w], rule exI [of _ a'], rule exI [of _ c], simp)
  qed
qed

section \<open>Reading a request\<close>

text \<open>A request arrives in any pieces.\<close>

lemma readExactly_pieces:
  assumes "concat cs = xs @ ys" "\<forall>c\<in>set cs. c \<noteq> []" "length xs = n"
  shows "\<exists>cs'. readExactly n (map Got cs) = Some (xs, map Got cs') \<and> concat cs' = ys \<and> (\<forall>c\<in>set cs'. c \<noteq> [])"
  using assms
proof (induction cs arbitrary: n xs)
  case (Cons c cs)
  show ?case
  proof (cases "n = 0")
    case True
    then show ?thesis using Cons.prems by (intro exI [of _ "c # cs"]) simp
  next
    case n: False
    show ?thesis
    proof (cases "length c \<le> n")
      case True
      then have xs: "xs = c @ drop (length c) xs" "concat cs = drop (length c) xs @ ys"
        using Cons.prems(1,3) by (auto simp: append_eq_append_conv_if) (metis append_take_drop_id)
      have "length (drop (length c) xs) = n - length c" using Cons.prems(3) by simp
      from Cons.IH [OF xs(2) _ this] Cons.prems(2) obtain cs' where
        "readExactly (n - length c) (map Got cs) = Some (drop (length c) xs, map Got cs')" "concat cs' = ys" "\<forall>c\<in>set cs'. c \<noteq> []" by auto
      then show ?thesis using n True Cons.prems(2) xs(1) by (intro exI [of _ cs']) simp
    next
      case False
      then have "take n c = xs" "drop n c @ concat cs = ys" using Cons.prems(1,3) by (auto simp: append_eq_append_conv_if)
      then show ?thesis using n False Cons.prems(2) by (intro exI [of _ "drop n c # cs"]) simp
    qed
  qed
qed simp

lemma bncl_req_fields:
  "kind < 2 ^ 32 \<Longrightarrow> len < 2 ^ 32 \<Longrightarrow> le (take 4 (bncl_req kind len)) = kind \<and> le (drop 4 (bncl_req kind len)) = len"
  by (simp add: bncl_req_def le_le_bytes)

end
