(* ===== verification/Cycle.thy ===== *)
theory Cycle
  imports DaemonSpec AgentSpec Splice Frame
begin

text \<open>
  Agents, kernel maps and daemon together: what one step of an agent leaves for the daemon and the other way round. The shared state is the same for all; \<open>under d s\<close> is the daemon \<open>d\<close>
  looking at it, \<open>seen d s\<close> an agent's view of it after the daemon has worked.
\<close>

section \<open>The shared state\<close>

definition under :: "daemon \<Rightarrow> shared \<Rightarrow> daemon" where
  "under d s = d\<lparr>d_arena := sh_arena s, d_maps := sh_maps s\<rparr>"

definition seen :: "daemon \<Rightarrow> shared \<Rightarrow> shared" where
  "seen d s = s\<lparr>sh_arena := d_arena d, sh_maps := d_maps d\<rparr>"

text \<open>The lock is free, the arena holds the records \<open>R\<close> and the free list the keys \<open>ks\<close>.\<close>

definition at_rest :: "shared \<Rightarrow> (nat \<rightharpoonup> entry) \<Rightarrow> nat list \<Rightarrow> bool" where
  "at_rest s R ks \<longleftrightarrow> mapped s \<and> lock (ctl (sh_arena s)) = 0 \<and> owns (sh_arena s) R \<and> freelist_ok (sh_maps s) \<and> free_keys (sh_maps s) = ks"

definition pipe_room :: "shared \<Rightarrow> nat \<Rightarrow> bool" where
  "pipe_room s key \<longleftrightarrow> key < length (dpipes (sh_maps s)) \<and> key < length (cpipe_map (sh_maps s))"

lemma at_rest_ready:
  assumes "at_rest s R (ks @ [key])" "pipe_room s key" "R p = Some (st, sql, pay)" "0 < stmt_refs st" "stmt_refs st < 2 ^ 32 - 1"
  obtains C where "ready s C ks key p st" "entry_ok C p (st, sql, pay)"
proof -
  obtain C where C: "heap.objects (sh_arena s) C" "\<And>p e. R p = Some e \<Longrightarrow> entry_ok C p e" "apart_entries R"
    using assms(1) by (auto simp: at_rest_def elim: ownsE)
  have "entry_ok C p (st, sql, pay)" by (rule C(2) [OF assms(3)])
  then show thesis using that [of C] assms C(1) by (simp add: ready_def at_rest_def pipe_room_def entry_ok_def)
qed

lemma owns_stamp: "owns (a\<lparr>ctl := (ctl a)\<lparr>lock := v, taken_ns := w\<rparr>\<rparr>) R \<longleftrightarrow> owns a R"
  using objects_ctl unfolding owns_def by simp

lemma owns_refs:
  assumes "owns a R" "R p = Some (st, sql, pay)" "n < 2 ^ 32"
  shows "owns (a\<lparr>mem := write_stmt (mem a) p (st\<lparr>stmt_refs := n\<rparr>), ctl := (ctl a)\<lparr>lock := v, taken_ns := w\<rparr>\<rparr>) (R(p \<mapsto> (st\<lparr>stmt_refs := n\<rparr>, sql, pay)))"
proof -
  let ?a = "a\<lparr>mem := write_stmt (mem a) p (st\<lparr>stmt_refs := n\<rparr>)\<rparr>"
  have "owns ?a (R(p \<mapsto> (st\<lparr>stmt_refs := n\<rparr>, sql, pay)))"
    by (rule owns_write [OF assms(1,2)]) (use owns_read(2) [OF assms(1,2)] assms(3) in \<open>simp_all add: fits_refs\<close>)
  then show ?thesis using owns_stamp [where a = ?a and v = v and w = w] by simp
qed

text \<open>There is room for \<open>n\<close> bytes: the allocator does not turn the request down. Reference counts and the lock do not matter to it.\<close>

definition room :: "nat \<Rightarrow> arena \<Rightarrow> bool" where
  "room n a \<longleftrightarrow> alloc n a \<noteq> Some (None, a)"

lemma room_iff:
  assumes "heap_inv a B fl" "0 < n"
  shows "room n a \<longleftrightarrow> (\<exists>x\<in>set fl. block_for n \<le> the (B x))"
  using alloc_cases [OF assms] by (force simp: room_def)

lemma room_refs:
  assumes "owns a R" "R p = Some (st, sql, pay)" "0 < n" "room n a"
  shows "room n (a\<lparr>mem := write_stmt (mem a) p st', ctl := (ctl a)\<lparr>lock := v, taken_ns := w\<rparr>\<rparr>)"
proof -
  obtain C where C: "heap.objects a C" "entry_ok C p (st, sql, pay)" using assms(1,2) by (auto elim: ownsE)
  then have "C p = Some (enc_stmt st)" by (simp add: entry_ok_def record_at_def)
  then obtain V k where V: "in_use a V" "V p = Some k" "STMT_BYTES \<le> k" using C(1) unfolding heap.objects_def by fastforce
  obtain B fl where B: "heap_inv a B fl" "live B fl p = Some k"
    using V(1,2) without_Some unfolding in_use_def retiring_def holds_def by metis
  have "heap_inv (a\<lparr>mem := write_stmt (mem a) p st'\<rparr>) B fl"
    by (rule heap_write [OF B]) (use V(3) in \<open>auto simp: write_stmt_def intro!: writeBytes_other\<close>)
  then have "heap_inv (a\<lparr>mem := write_stmt (mem a) p st', ctl := (ctl a)\<lparr>lock := v, taken_ns := w\<rparr>\<rparr>) B fl" by (simp add: heap_inv_def linked_def)
  then show ?thesis using assms(3,4) room_iff B(1) by blast
qed

lemma put_room: "room (length src) a \<longleftrightarrow> put src a \<noteq> Some (None, a)"
  by (auto simp: room_def put_def split: option.splits)

lemma popped_keys:
  assumes "freelist_ok m" "free_keys m = ks @ [key]"
  shows "take (length ks) (dpipe_freelist m) = ks" "length ks \<le> length (dpipe_freelist m)" "distinct ks"
proof -
  have n: "length ks < num_free (dpipes_meta_map m)" using length_free_keys [OF assms(1)] assms(2) by simp
  have "take (length ks) (dpipe_freelist m) = take (length ks) (free_keys m)" using n by (simp add: free_keys_def min_def)
  then show "take (length ks) (dpipe_freelist m) = ks" using assms(2) by simp
  show "length ks \<le> length (dpipe_freelist m)" "distinct ks" using assms n by (auto simp: freelist_ok_def)
qed

text \<open>Taking a pipe.\<close>

lemma acquire_at_rest:
  assumes "at_rest s R (ks @ [key])" "pipe_room s key" "findStmt sql s = Some p" "R p = Some (st, sql, pay)" "0 < stmt_refs st" "stmt_refs st < 2 ^ 32 - 1"
  obtains s' rec where "acquire True True now now' sql sock s = (Some key, s')" "at_rest s' (R(p \<mapsto> (bump st, sql, pay))) ks" "pipe_room s' key"
    "array_lookup (dpipes (sh_maps s')) key = Some rec" "dp_stmt rec = Some p" "length (dpipe_freelist (sh_maps s')) = length (dpipe_freelist (sh_maps s))"
    "stmts_map (sh_maps s') = stmts_map (sh_maps s)" "\<forall>n. 0 < n \<longrightarrow> room n (sh_arena s) \<longrightarrow> room n (sh_arena s')"
proof -
  obtain C where r: "ready s C ks key p st" by (rule at_rest_ready [OF assms(1,2,4-6)]) blast
  note R = r [unfolded ready_def]
  let ?c = "claimed key p ks now st s"
  let ?s = "?c\<lparr>sh_maps := (sh_maps ?c)\<lparr>cpipe_map := (cpipe_map (sh_maps s))[key := Some sock],
        pipe_sk_info_map := AList.update sock \<lparr>si_key = key, si_paired = 1\<rparr> (pipe_sk_info_map (sh_maps s))\<rparr>\<rparr>"
  have a: "acquire True True now now' sql sock s = (Some key, ?s)" using acquire_claimed [OF r assms(3)] by (simp add: Let_def)
  have o: "owns (sh_arena s) R" using assms(1) by (simp add: at_rest_def)
  have fk: "freelist_ok (sh_maps s)" "free_keys (sh_maps s) = ks @ [key]" "length (dpipe_freelist (sh_maps s)) < 2 ^ 32"
    using assms(1) unfolding at_rest_def freelist_ok_def by blast+
  note K = popped_keys [OF fk(1,2)]
  have "owns (sh_arena ?s) (R(p \<mapsto> (bump st, sql, pay)))"
    using owns_refs [OF o assms(4), where n = "stmt_refs st + 1" and v = 0 and w = now] assms(6)
    by (simp add: claimed_def Let_def bump_def)
  moreover have "freelist_ok (sh_maps ?s)" "free_keys (sh_maps ?s) = ks"
    using K fk(3) by (simp_all add: claimed_def Let_def freelist_ok_def free_keys_def)
  ultimately have rest: "at_rest ?s (R(p \<mapsto> (bump st, sql, pay))) ks" using R by (simp add: at_rest_def claimed_def Let_def)
  have rm: "\<forall>n. 0 < n \<longrightarrow> room n (sh_arena s) \<longrightarrow> room n (sh_arena ?s)"
    using room_refs [OF o assms(4)] by (simp add: claimed_def Let_def)
  show thesis
    by (rule that [OF a rest _ _ _ _ _ rm, of "(dpipes (sh_maps s) ! key)\<lparr>dp_stmt := Some p, dp_in_use := 1\<rparr>"])
       (use assms(2) in \<open>simp_all add: pipe_room_def claimed_def Let_def array_lookup_def\<close>)
qed

text \<open>Giving it back.\<close>

lemma release_at_rest:
  assumes "at_rest s R ks" "R p = Some (st, sql, pay)" "0 < stmt_refs st" "array_lookup (dpipes (sh_maps s)) key = Some rec" "dp_stmt rec = Some p"
    "key \<notin> set ks" "length ks < length (dpipe_freelist (sh_maps s))"
  shows "at_rest (release now sock key s) (R(p \<mapsto> (st\<lparr>stmt_refs := stmt_refs st - 1\<rparr>, sql, pay))) (ks @ [key])"
    "dpipes (sh_maps (release now sock key s)) = dpipes (sh_maps s)" "stmts_map (sh_maps (release now sock key s)) = stmts_map (sh_maps s)"
    "0 < n \<Longrightarrow> room n (sh_arena s) \<Longrightarrow> room n (sh_arena (release now sock key s))"
proof -
  obtain C where C: "heap.objects (sh_arena s) C" "entry_ok C p (st, sql, pay)"
    using assms(1,2) by (auto simp: at_rest_def elim: ownsE)
  have r: "record_at C p st" using C(2) by (simp add: entry_ok_def)
  have k: "key < length (dpipes (sh_maps s))" "dp_stmt (dpipes (sh_maps s) ! key) = Some p" using assms(4,5) by (auto simp: array_lookup_def split: if_splits)
  have m: "mapped s" "lock (ctl (sh_arena s)) = 0" "freelist_ok (sh_maps s)" "free_keys (sh_maps s) = ks" "owns (sh_arena s) R"
    using assms(1) by (simp_all add: at_rest_def)
  let ?m = "(sh_maps s)\<lparr>pipe_sk_info_map := AList.update sock \<lparr>si_key = 0, si_paired = 0\<rparr> (pipe_sk_info_map (sh_maps s)), cpipe_map := (cpipe_map (sh_maps s))[key := None]\<rparr>"
  have rel: "release now sock key s = s\<lparr>sh_arena := (sh_arena s)\<lparr>mem := write_stmt (mem (sh_arena s)) p (st\<lparr>stmt_refs := stmt_refs st - 1\<rparr>),
      ctl := (ctl (sh_arena s))\<lparr>lock := 0, taken_ns := now\<rparr>\<rparr>, sh_maps := pushDpipe key ?m\<rparr>"
    using release_gives_back [OF C(1) r assms(3) m(1,2) k] by (simp add: Let_def)
  have f: "freelist_ok ?m" "free_keys ?m = ks" "num_free (dpipes_meta_map ?m) < length (dpipe_freelist ?m)"
    using m(3,4) length_free_keys [OF m(3)] assms(7) by (auto simp: freelist_ok_def free_keys_def)
  have p: "pushDpipe key ?m = pushed key ?m" by (rule pushDpipe_pushed [OF f(1,3)])
  have "freelist_ok (pushed key ?m)" by (rule freelist_ok_pushed [OF f(1,3)]) (use f(2) assms(6) in simp)
  moreover have "free_keys (pushed key ?m) = ks @ [key]" using free_keys_pushed [OF f(3)] f(2) by simp
  moreover have "stmt_refs st - 1 < 2 ^ 32" using record_fits [OF r] by (auto simp: stmt_fits_def)
  then have "owns (sh_arena (release now sock key s)) (R(p \<mapsto> (st\<lparr>stmt_refs := stmt_refs st - 1\<rparr>, sql, pay)))"
    using owns_refs [OF m(5) assms(2)] unfolding rel by simp
  ultimately show "at_rest (release now sock key s) (R(p \<mapsto> (st\<lparr>stmt_refs := stmt_refs st - 1\<rparr>, sql, pay))) (ks @ [key])"
    using m(1) unfolding at_rest_def rel p by simp
  show "dpipes (sh_maps (release now sock key s)) = dpipes (sh_maps s)" "stmts_map (sh_maps (release now sock key s)) = stmts_map (sh_maps s)"
    unfolding rel p by (simp_all add: pushed_def)
  show "room n (sh_arena (release now sock key s))" if "0 < n" "room n (sh_arena s)"
    using room_refs [OF m(5) assms(2) that] unfolding rel by simp
qed

lemma distinct_keys: "at_rest s R ks \<Longrightarrow> distinct ks"
  by (auto simp: at_rest_def freelist_ok_def)

lemma keys_fit: "at_rest s R ks \<Longrightarrow> length ks \<le> length (dpipe_freelist (sh_maps s))"
  by (auto simp: at_rest_def freelist_ok_def free_keys_def)

section \<open>The daemon's steps\<close>

lemma at_rest_seen:
  "at_rest s R ks \<Longrightarrow> owns (d_arena d) R' \<Longrightarrow> lock_of (d_arena d) = lock_of (sh_arena s) \<Longrightarrow> freelist_ok (d_maps d) \<Longrightarrow> free_keys (d_maps d) = ks
    \<Longrightarrow> at_rest (seen d s) R' ks"
  by (simp add: at_rest_def seen_def)

lemma under_sel [simp]:
  "d_arena (under d s) = sh_arena s" "d_maps (under d s) = sh_maps s" "key_of_fd (under d s) = key_of_fd d" "opt (under d s) = opt d" "d_pool (under d s) = d_pool d"
  "local_on (under d s) = local_on d" "replies (under d s) = replies d"
  by (simp_all add: under_def)

text \<open>A request in pieces is read whole.\<close>

lemma request_read:
  assumes "concat cs = bncl_req kind len @ body" "\<forall>c\<in>set cs. c \<noteq> []"
  obtains cs' where "readExactly 8 (map Got cs) = Some (bncl_req kind len, map Got cs')" "concat cs' = body" "\<forall>c\<in>set cs'. c \<noteq> []"
proof -
  have "length (bncl_req kind len) = 8" by (simp add: bncl_req_def)
  from readExactly_pieces [OF assms this] show thesis using that by blast
qed

lemma serve_store:
  assumes rest: "at_rest s R ks" "R p = Some (st, sql, pay)" "sql \<noteq> []" and now: "now < 2 ^ 64" "now' < 2 ^ 64"
    and pipe: "array_lookup (dpipes (sh_maps s)) key = Some rec" "dp_stmt rec = Some p" "map_of (key_of_fd d) fd = Some key"
    and body: "body \<noteq> []" "storable body" "length body \<le> BNCL_STORE_MAX" "put body (sh_arena s) \<noteq> Some (None, sh_arena s)"
    and input: "concat cs = bncl_req BNCL_REQ_STORE (length body) @ body" "\<forall>c\<in>set cs. c \<noteq> []"
  obtains d' q where "serve fd (map Got cs) sp now now' (under d s) = Some d'" "d_maps d' = sh_maps s" "key_of_fd d' = key_of_fd d" "d_pool d' = d_pool d" "local_on d' = local_on d"
    "at_rest (seen d' s) (R(p \<mapsto> (with_payload q (length body) now' (u32_of_int (o_ttl (opt d))) st, sql, body))) ks"
proof -
  let ?d = "under d s"
  obtain cs' where r: "readExactly 8 (map Got cs) = Some (bncl_req BNCL_REQ_STORE (length body), map Got cs')" "concat cs' = body" "\<forall>c\<in>set cs'. c \<noteq> []"
    by (rule request_read [OF input])
  obtain cs2 where r2: "readExactly (length body) (map Got cs') = Some (body, map Got cs2)" using readExactly_pieces [of cs' body "[]"] r(2,3) by auto
  have "length body < 2 ^ 32" using body(3) by (simp add: BNCL_STORE_MAX_def)
  then have f: "le (take 4 (bncl_req BNCL_REQ_STORE (length body))) = BNCL_REQ_STORE" "le (drop 4 (bncl_req BNCL_REQ_STORE (length body))) = length body"
    using bncl_req_fields [of BNCL_REQ_STORE "length body"] by (simp_all add: BNCL_REQ_STORE_def)
  have own: "owns (d_arena ?d) R" using rest(1) by (simp add: at_rest_def)
  have pipe': "array_lookup (dpipes (d_maps ?d)) key = Some rec" using pipe(1) by simp
  have full: "put body (d_arena ?d) \<noteq> Some (None, d_arena ?d)" using body(4) by simp
  obtain d' q where st: "store key body now now' ?d = Some (True, d')"
    "owns (d_arena d') (R(p \<mapsto> (with_payload q (length body) now' (u32_of_int (o_ttl (opt ?d))) st, sql, body)))"
    using store_spec [OF own rest(2,3) now pipe' pipe(2) body(3)] body(1,2) full by blast
  have sv: "serve fd (map Got cs) sp now now' ?d = Some d'" using r(1) r2 f pipe(3) body(1,3) st(1) by (simp add: serve_def Let_def)
  obtain v a c where fr: "d' = ?d\<lparr>d_valkey := v, d_arena := a, cnt := c\<rparr>" "lock_of a = lock_of (d_arena ?d)" using store_frame [OF st(1)] by blast
  show thesis
    by (rule that [OF sv, of q]) (use fr at_rest_seen [OF rest(1) st(2)] rest(1) in \<open>simp_all add: at_rest_def\<close>)
qed

lemma serve_lookup:
  assumes rest: "at_rest s R ks" "R p = Some (st, sql, pay)"
    and pipe: "array_lookup (dpipes (sh_maps s)) key = Some rec" "dp_stmt rec = Some p" "map_of (key_of_fd d) fd = Some key" "byKey (d_pool d) key = Some pi"
    and hit: "local_hit d st now" and input: "concat cs = bncl_req BNCL_REQ_LOOKUP 0" "\<forall>c\<in>set cs. c \<noteq> []"
  obtains d' where "serve fd (map Got cs) True now now' (under d s) = Some d'" "d_maps d' = paired (nat (p_sfd pi)) key (sh_maps s)"
    "replies d' = replies d @ [(fd, agent_reply AGENT_OK (stmt_id st))]" "at_rest (seen d' s) R ks"
proof -
  have "concat cs = bncl_req BNCL_REQ_LOOKUP 0 @ []" using input(1) by simp
  then obtain cs' where r: "readExactly 8 (map Got cs) = Some (bncl_req BNCL_REQ_LOOKUP 0, map Got cs')" by (rule request_read [OF _ input(2)])
  have f: "le (take 4 (bncl_req BNCL_REQ_LOOKUP 0)) \<noteq> BNCL_REQ_STORE"
    using bncl_req_fields [of BNCL_REQ_LOOKUP 0] by (simp add: BNCL_REQ_STORE_def BNCL_REQ_LOOKUP_def)
  let ?d = "(under d s)\<lparr>d_maps := paired (nat (p_sfd pi)) key (sh_maps s)\<rparr>"
  have own: "owns (d_arena ?d) R" using rest(1) by (simp add: at_rest_def)
  have rc: "rec_at ?d p = st" by (rule rec_owned [OF own rest(2)])
  then have rs: "resolve p now now' ?d = Some (AGENT_OK, ?d)" using hit by (simp add: resolve_def local_hit_def under_def)
  let ?e = "send_reply fd AGENT_OK (stmt_id st) (count_status AGENT_OK ?d)"
  have sv: "serve fd (map Got cs) True now now' (under d s) = Some ?e" using r f pipe rs rc by (simp add: serve_def Let_def)
  show thesis
    by (rule that [OF sv]) (use rest(1) own in \<open>auto simp: send_reply_def count_status_def at_rest_def seen_def freelist_ok_def free_keys_def\<close>)
qed

section \<open>The agents' steps\<close>

lemma findStmt_cong: "mapped s' = mapped s \<Longrightarrow> stmts_map (sh_maps s') = stmts_map (sh_maps s) \<Longrightarrow> findStmt sql s' = findStmt sql s"
  by (simp add: findStmt_def)

lemma lookup_at_rest:
  assumes "at_rest s R ks" "findStmt sql s = Some p" "R p = Some (st, sql, pay)" "0 < stmt_refs st" "stmt_refs st < 2 ^ 32 - 1"
    "stmt_state st = STMT_S_LOCAL" "stmt_data st \<noteq> None" "pay \<noteq> []" "\<not> clientExpired st now"
  shows "lookupPayload sql now s = (Some (pay, stmt_id st), s)"
proof -
  obtain C where C: "heap.objects (sh_arena s) C" "entry_ok C p (st, sql, pay)" using assms(1,3) by (auto simp: at_rest_def elim: ownsE)
  then have r: "record_at C p st" by (simp add: entry_ok_def)
  have "case stmt_data st of None \<Rightarrow> True | Some q \<Rightarrow> q \<noteq> p \<and> C q = Some pay \<and> length pay = stmt_data_len st"
    using C(2) entry_ne [OF C(2)] by (auto simp: entry_ok_def split: option.splits)
  from lookup_spec [OF C(1) assms(2) r assms(5) this] show ?thesis using assms(4,6-9) by simp
qed

text \<open>Posting a response: the pipe and the reference are back at once, but the pipe's record keeps naming the statement.\<close>

lemma publish_at_rest:
  assumes "at_rest (sh a) R (ks @ [key])" "pipe_room (sh a) key" "findStmt sql (sh a) = Some p" "R p = Some (st, sql, pay)" "0 < stmt_refs st" "stmt_refs st < 2 ^ 32 - 1"
    and "map_ok t" "store_ok t"
  shows "at_rest (sh (publish t sql sock canon a)) R (ks @ [key])" "pipe_room (sh (publish t sql sock canon a)) key"
    "\<exists>rec. array_lookup (dpipes (sh_maps (sh (publish t sql sock canon a)))) key = Some rec \<and> dp_stmt rec = Some p"
    "stmts_map (sh_maps (sh (publish t sql sock canon a))) = stmts_map (sh_maps (sh a))"
    "0 < n \<Longrightarrow> room n (sh_arena (sh a)) \<Longrightarrow> room n (sh_arena (sh (publish t sql sock canon a)))"
proof -
  let ?R = "R(p \<mapsto> (bump st, sql, pay))"
  obtain s rec where q: "acquire True True (t_lock t) (t_relock t) sql sock (sh a) = (Some key, s)" "at_rest s ?R ks" "pipe_room s key"
    "array_lookup (dpipes (sh_maps s)) key = Some rec" "dp_stmt rec = Some p" "length (dpipe_freelist (sh_maps s)) = length (dpipe_freelist (sh_maps (sh a)))"
    "stmts_map (sh_maps s) = stmts_map (sh_maps (sh a))" "\<forall>n. 0 < n \<longrightarrow> room n (sh_arena (sh a)) \<longrightarrow> room n (sh_arena s)"
    by (rule acquire_at_rest [OF assms(1-6)])
  have e: "sh (publish t sql sock canon a) = release (t_release t) sock key s" using q(1) assms(7,8) by (simp add: publish_def Let_def)
  have k: "key \<notin> set ks" using distinct_keys [OF assms(1)] by simp
  have l: "length ks < length (dpipe_freelist (sh_maps s))"
    using keys_fit [OF assms(1)] q(6) by simp
  have b: "?R p = Some (bump st, sql, pay)" "0 < stmt_refs (bump st)" by simp_all
  note L = release_at_rest [OF q(2) b q(4,5) k l, where now = "t_release t" and sock = sock]
  have "?R(p \<mapsto> ((bump st)\<lparr>stmt_refs := stmt_refs (bump st) - 1\<rparr>, sql, pay)) = R" using assms(4) by (simp add: fun_upd_idem)
  from L(1) [unfolded this] show "at_rest (sh (publish t sql sock canon a)) R (ks @ [key])" unfolding e .
  show "pipe_room (sh (publish t sql sock canon a)) key" using q(3) L(2) unfolding e by (simp add: pipe_room_def)
  show "\<exists>rec. array_lookup (dpipes (sh_maps (sh (publish t sql sock canon a)))) key = Some rec \<and> dp_stmt rec = Some p" using q(4,5) L(2) unfolding e by simp
  show "stmts_map (sh_maps (sh (publish t sql sock canon a))) = stmts_map (sh_maps (sh a))" using q(7) L(3) unfolding e by simp
  show "room n (sh_arena (sh (publish t sql sock canon a)))" if "0 < n" "room n (sh_arena (sh a))" using L(4) [OF that(1) q(8) [rule_format, OF that]] unfolding e .
qed

lemma fresh_copy: "look < now + NS_PER_S \<Longrightarrow> \<not> clientExpired (with_payload q n now ttl st) look"
  by (simp add: clientExpired_def with_payload_def NS_PER_S_def)

lemma payload_sel [simp]:
  "stmt_state (with_payload q n ts ttl st) = STMT_S_LOCAL" "stmt_data (with_payload q n ts ttl st) = Some q" "stmt_refs (with_payload q n ts ttl st) = stmt_refs st"
  "stmt_id (with_payload q n ts ttl st) = stmt_id st" "stmt_ts (with_payload q n ts ttl st) = ts" "stmt_ttl (with_payload q n ts ttl st) = ttl"
  by (simp_all add: with_payload_def)

abbreviation canonical :: "resultSet \<Rightarrow> bytes" where
  "canonical rs \<equiv> encodeResultSet rs BNCL_CANONICAL_CAPS 1"

lemma canonical_parsed: "resultSet_ok rs \<Longrightarrow> parseResultSet (canonical rs) BNCL_CANONICAL_CAPS = Some rs"
  using parse_encoded [of rs BNCL_CANONICAL_CAPS 1 "[]"] by simp

lemma canonical_storable: "resultSet_ok rs \<Longrightarrow> \<not> has_bits (status rs) SERVER_STATUS_IN_TRANS \<Longrightarrow> storable (canonical rs)"
  using canonical_parsed by (auto simp: storable_def)

section \<open>Two statements\<close>

definition bare_stmt :: "nat \<Rightarrow> stmt" where
  "bare_stmt t = demo_stmt\<lparr>stmt_txt := Some t, stmt_data := None, stmt_data_len := 0\<rparr>"

lemma demo_two:
  obtains a p p' t t' where "owns a [p \<mapsto> (bare_stmt t, [65], []), p' \<mapsto> (bare_stmt t', [66], [])]" "p \<noteq> p'" "0 < p" "0 < p'" "lock_of a = 0"
    "\<And>src :: bytes. src \<noteq> [] \<Longrightarrow> length src \<le> 200 \<Longrightarrow> room (length src) a"
proof -
  have b: "block_for 56 = 80" "block_for (Suc (Suc 0)) = 32" by (simp_all add: block_for_def align8_def arena_consts MIN_BLOCK_24 Let_def)
  obtain a0 where a0: "arena_init (Some (\<lambda>_. 0)) 4096 (sh_arena demo_shared) = (True, a0)" "roomy a0 Map.empty (4096 - 64)" using roomy_init [of 4096] by fastforce
  have l0: "lock_of a0 = 0" using a0(1) by (auto simp: arena_init_def Let_def split: if_splits)
  obtain t a1 where t: "put [65, 0] a0 = Some (Some t, a1)" "roomy a1 [t \<mapsto> [65, 0]] 4000" using roomy_put [OF a0(2), of "[65, 0]"] b by auto
  obtain p a2 where p: "put (enc_stmt (bare_stmt t)) a1 = Some (Some p, a2)" "[t \<mapsto> [65, 0 :: u8]] p = None" "roomy a2 [t \<mapsto> [65, 0], p \<mapsto> enc_stmt (bare_stmt t)] 3920"
    using roomy_put [OF t(2), of "enc_stmt (bare_stmt t)"] b by (auto simp: STMT_BYTES_def)
  let ?C = "[t \<mapsto> [65, 0], p \<mapsto> enc_stmt (bare_stmt t)]"
  obtain t' a3 where t': "put [66, 0] a2 = Some (Some t', a3)" "?C t' = None" "roomy a3 (?C(t' \<mapsto> [66, 0])) 3888" using roomy_put [OF p(3), of "[66, 0]"] b by auto
  let ?D = "?C(t' \<mapsto> [66, 0])"
  obtain p' a4 where p': "put (enc_stmt (bare_stmt t')) a3 = Some (Some p', a4)" "?D p' = None" "roomy a4 (?D(p' \<mapsto> enc_stmt (bare_stmt t'))) 3808"
    using roomy_put [OF t'(3), of "enc_stmt (bare_stmt t')"] b by (auto simp: STMT_BYTES_def)
  let ?E = "?D(p' \<mapsto> enc_stmt (bare_stmt t'))"
  have l: "lock_of a4 = 0" using l0 lock_put [OF t(1)] lock_put [OF p(1)] lock_put [OF t'(1)] lock_put [OF p'(1)] by simp
  have o: "heap.objects a4 ?E" using p'(3) by (simp add: roomy_def)
  have ne: "p \<noteq> t" "t' \<noteq> t" "t' \<noteq> p" "p' \<noteq> t" "p' \<noteq> p" "p' \<noteq> t'" using p(2) t'(2) p'(2) by (auto split: if_splits)
  have C: "?E t = Some [65, 0]" "?E p = Some (enc_stmt (bare_stmt t))" "?E t' = Some [66, 0]" "?E p' = Some (enc_stmt (bare_stmt t'))"
    by (simp_all only: fun_upd_apply ne ne [symmetric] if_False if_True refl)
  from heap.objects_bound [OF o] C have bd: "0 < t" "t < 2 ^ 32" "0 < t'" "t' < 2 ^ 32" "0 < p" "0 < p'" by blast+
  then have f: "stmt_fits (bare_stmt t)" "stmt_fits (bare_stmt t')" by (simp_all add: stmt_fits_def bare_stmt_def demo_stmt_def STMT_S_LOCAL_def enc_ptr_def)
  have "entry_ok ?E p (bare_stmt t, [65], [])" "entry_ok ?E p' (bare_stmt t', [66], [])"
    using C f ne by (simp_all add: entry_ok_def record_at_def blocks_def opt_list_def bare_stmt_def demo_stmt_def)
  then have own: "owns a4 [p \<mapsto> (bare_stmt t, [65], []), p' \<mapsto> (bare_stmt t', [66], [])]"
    using ne by (intro ownsI [OF o]) (auto simp: apart_entries_def blocks_def opt_list_def bare_stmt_def split: if_splits)
  have rm: "room (length src) a4" if "src \<noteq> []" "length src \<le> 200" for src :: bytes
  proof -
    have "block_for (length src) + 24 \<le> 3808" using that(2) by (simp add: block_for_def align8_def arena_consts MIN_BLOCK_24 Let_def)
    then show ?thesis using roomy_put [OF p'(3) that(1)] that(2) put_room by auto
  qed
  show thesis by (rule that [OF own ne(5) [symmetric] bd(5,6) l rm])
qed

definition demo_state :: "nat \<Rightarrow> nat \<Rightarrow> arena \<Rightarrow> shared" where
  "demo_state p p' b = \<lparr>sh_arena = b, sh_maps = demo_maps\<lparr>stmts_map := [(stmt_key [65], p), (stmt_key [66], p')], dpipe_freelist := [0, 1]\<rparr>, mapped = True, cfg_pin = True\<rparr>"

definition demo_serving :: "nat \<Rightarrow> arena \<Rightarrow> daemon" where
  "demo_serving p b = (demo_daemon p b)\<lparr>key_of_fd := [(9, 1)], d_pool := \<lparr>pipes = [fresh_pipe, fresh_pipe\<lparr>p_sfd := 9\<rparr>], listening = True\<rparr>\<rparr>"

lemma demo_state_at_rest:
  obtains b p p' st st' where "at_rest (demo_state p p' b) [p \<mapsto> (st, [65], []), p' \<mapsto> (st', [66], [])] ([0] @ [1])" "pipe_room (demo_state p p' b) 1"
    "findStmt [65] (demo_state p p' b) = Some p" "findStmt [66] (demo_state p p' b) = Some p'" "p \<noteq> p'" "stmt_refs st = 1" "stmt_refs st' = 1" "stmt_id st = 7"
    "room (length (canonical demoResult)) (sh_arena (demo_state p p' b))"
proof -
  obtain b p p' t t' where o: "owns b [p \<mapsto> (bare_stmt t, [65], []), p' \<mapsto> (bare_stmt t', [66], [])]" "p \<noteq> p'" "0 < p" "0 < p'" "lock_of b = 0"
    and rm: "\<And>src :: bytes. src \<noteq> [] \<Longrightarrow> length src \<le> 200 \<Longrightarrow> room (length src) b" by (rule demo_two) blast
  have ne: "stmt_key [65] \<noteq> stmt_key [66]" using stmt_key_inj [of "[65]" "[66]"] by auto
  show thesis
    by (rule that [of p p' b "bare_stmt t" "bare_stmt t'"])
       (use o ne rm [OF demo_length] in \<open>simp_all add: demo_state_def at_rest_def pipe_room_def demo_maps_def freelist_ok_def free_keys_def findStmt_def
         BNCL_STMT_MAX_def bare_stmt_def demo_stmt_def\<close>)
qed

lemma demo_quiet: "\<not> has_bits (status demoResult) SERVER_STATUS_IN_TRANS"
  by (simp add: demoResult_def has_bits_def SERVER_STATUS_IN_TRANS_def)

section \<open>Properties\<close>

text \<open>
  C37: a response can be stored for the wrong statement. An agent that has posted a response gives its pipe back before the daemon has read the request; the next client to take a pipe gets the
  same one and points it at its own statement. When the daemon then reads the request it stores the first statement's response in the second statement's record, and every client that asks for the
  second statement is served the rows of the first.
\<close>

theorem response_stored_for_another:
  assumes rest: "at_rest (sh a) R (ks @ [key])" "pipe_room (sh a) key"
    and first: "findStmt sql (sh a) = Some p" "R p = Some (st, sql, pay)" "0 < stmt_refs st" "stmt_refs st < 2 ^ 32 - 1"
    and second: "findStmt sql' (sh a) = Some p'" "R p' = Some (st', sql', pay')" "0 < stmt_refs st'" "stmt_refs st' < 2 ^ 32 - 2" "sql' \<noteq> []"
    and post: "map_ok t" "store_ok t" and rows: "resultSet_ok rs" "\<not> has_bits (status rs) SERVER_STATUS_IN_TRANS" "length (canonical rs) \<le> BNCL_STORE_MAX"
    and other: "acquire True True n n' sql' sock' (sh (publish t sql sock (canonical rs) a)) = (k, s)"
    and daemon: "map_of (key_of_fd d) fd = Some key" "room (length (canonical rs)) (sh_arena (sh a))" "now < 2 ^ 64" "now' < 2 ^ 64"
    and input: "concat cs = bncl_req BNCL_REQ_STORE (length (canonical rs)) @ canonical rs" "\<forall>c\<in>set cs. c \<noteq> []"
    and soon: "look < now' + NS_PER_S"
  shows "k = Some key \<and> (\<exists>d' i. serve fd (map Got cs) sp now now' (under d s) = Some d' \<and> fst (lookupPayload sql' look (seen d' s)) = Some (canonical rs, i))"
proof -
  let ?s = "sh (publish t sql sock (canonical rs) a)"
  note P = publish_at_rest [OF rest first post, where sock = sock and canon = "canonical rs"]
  have f: "findStmt sql' ?s = Some p'" using second(1) findStmt_cong [of ?s "sh a"] P(1,4) rest(1) by (simp add: at_rest_def)
  have b: "stmt_refs st' < 2 ^ 32 - 1" using second(4) by simp
  obtain s2 rec where q: "acquire True True n n' sql' sock' ?s = (Some key, s2)" "at_rest s2 (R(p' \<mapsto> (bump st', sql', pay'))) ks"
    "array_lookup (dpipes (sh_maps s2)) key = Some rec" "dp_stmt rec = Some p'" "stmts_map (sh_maps s2) = stmts_map (sh_maps ?s)" "\<forall>n. 0 < n \<longrightarrow> room n (sh_arena ?s) \<longrightarrow> room n (sh_arena s2)"
    by (rule acquire_at_rest [OF P(1,2) f second(2,3) b])
  have s: "k = Some key" "s = s2" using other q(1) by simp_all
  have e: "(R(p' \<mapsto> (bump st', sql', pay'))) p' = Some (bump st', sql', pay')" by simp
  have "0 < length (canonical rs)" using encode_nonempty by simp
  then have full: "put (canonical rs) (sh_arena s2) \<noteq> Some (None, sh_arena s2)" using q(6) P(5) daemon(2) put_room by blast
  obtain d' q' where v: "serve fd (map Got cs) sp now now' (under d s2) = Some d'" "d_maps d' = sh_maps s2"
    "at_rest (seen d' s2) (R(p' \<mapsto> (bump st', sql', pay'), p' \<mapsto> (with_payload q' (length (canonical rs)) now' (u32_of_int (o_ttl (opt d))) (bump st'), sql', canonical rs))) ks"
    by (rule serve_store [OF q(2) e second(5) daemon(3,4) q(3,4) daemon(1) encode_nonempty canonical_storable [OF rows(1,2)] rows(3) full input])
  have g: "findStmt sql' (seen d' s2) = Some p'" using f findStmt_cong [of "seen d' s2" ?s] v(2) q(2,5) P(1) by (simp add: seen_def at_rest_def)
  note L = lookup_at_rest [OF v(3) g fun_upd_same]
  have "lookupPayload sql' look (seen d' s2) = (Some (canonical rs, stmt_id st'), seen d' s2)"
    using L [of look] second(3,4) soon encode_nonempty fresh_copy by simp
  then show ?thesis using s v(1) by simp
qed

theorem response_stored_for_another_witness:
  "\<exists>a d k s d' i. acquire True True 7 7 [66] 5 (sh (publish demo_attempt [65] 4 (canonical demoResult) a)) = (k, s)
     \<and> serve 9 [Got (bncl_req BNCL_REQ_STORE (length (canonical demoResult)) @ canonical demoResult)] True 8 8 (under d s) = Some d'
     \<and> fst (lookupPayload [66] 9 (seen d' s)) = Some (canonical demoResult, i)"
proof -
  obtain b p p' st st' where R: "at_rest (demo_state p p' b) [p \<mapsto> (st, [65], []), p' \<mapsto> (st', [66], [])] ([0] @ [1])" "pipe_room (demo_state p p' b) 1"
    "findStmt [65] (demo_state p p' b) = Some p" "findStmt [66] (demo_state p p' b) = Some p'" "p \<noteq> p'" "stmt_refs st = 1" "stmt_refs st' = 1" "stmt_id st = 7"
    "room (length (canonical demoResult)) (sh_arena (demo_state p p' b))" by (rule demo_state_at_rest)
  let ?a = "demo_agent new_conn (demo_state p p' b)" and ?d = "demo_serving p b"
  let ?R = "[p \<mapsto> (st, [65], []), p' \<mapsto> (st', [66], [] :: bytes)]"
  have sh: "sh ?a = demo_state p p' b" by (simp add: demo_agent_def)
  have R': "at_rest (sh ?a) ?R ([0] @ [1])" "pipe_room (sh ?a) 1" "findStmt [65] (sh ?a) = Some p" "findStmt [66] (sh ?a) = Some p'" unfolding sh by (rule R(1-4))+
  have e: "?R p = Some (st, [65], [])" "?R p' = Some (st', [66], [])" using R(5) by simp_all
  obtain k s where q: "acquire True True 7 7 [66] 5 (sh (publish demo_attempt [65] 4 (canonical demoResult) ?a)) = (k, s)"
    by (cases "acquire True True 7 7 [66] 5 (sh (publish demo_attempt [65] 4 (canonical demoResult) ?a))")
  have "\<exists>d' i. serve 9 (map Got [bncl_req BNCL_REQ_STORE (length (canonical demoResult)) @ canonical demoResult]) True 8 8 (under ?d s) = Some d'
      \<and> fst (lookupPayload [66] 9 (seen d' s)) = Some (canonical demoResult, i)"
    by (rule response_stored_for_another [OF R'(1-3) e(1) _ _ R'(4) e(2) _ _ _ _ _ demoResult_ok demo_quiet _ q, THEN conjunct2])
       (use R(6-9) demo_length in \<open>simp_all add: sh demo_serving_def demo_attempt_def BNCL_STORE_MAX_def NS_PER_S_def\<close>)
  then show ?thesis unfolding list.map using q by blast
qed

end
