(* ===== verification/Served.thy ===== *)
theory Served
  imports Cycle
begin

text \<open>
  The whole way of a response: one agent observes it and posts it, the daemon stores it, another agent suppresses the same query and asks, the daemon answers from the local tier, and the other
  agent serves the response in its own connection's framing.
\<close>

section \<open>Lifetimes\<close>

text \<open>Both sides agree that a copy is current.\<close>

definition current :: "nat \<Rightarrow> nat \<Rightarrow> nat \<Rightarrow> bool" where
  "current ttl ts now \<longleftrightarrow> ttl = 0 \<or> 0 < ts \<and> ts \<le> now \<and> now \<le> ts + ttl * NS_PER_S"

lemma current_client: "current (stmt_ttl st) (stmt_ts st) now \<Longrightarrow> \<not> clientExpired st now"
proof -
  assume c: "current (stmt_ttl st) (stmt_ts st) now"
  have "(now - stmt_ts st) div NS_PER_S \<le> stmt_ttl st" if "now \<le> stmt_ts st + stmt_ttl st * NS_PER_S"
    using that by (metis NS_PER_S_def add.commute div_le_mono div_mult_self_is_m le_diff_conv zero_less_numeral)
  then show ?thesis using c by (auto simp: current_def clientExpired_def)
qed

lemma current_daemon:
  assumes "current (stmt_ttl st) (stmt_ts st) now" "now < 2 ^ 64" "stmt_ttl st < 2 ^ 32"
  shows "\<not> expired st now"
proof (cases "stmt_ttl st = 0")
  case False
  then have c: "0 < stmt_ts st" "stmt_ts st \<le> now" "now - stmt_ts st \<le> stmt_ttl st * NS_PER_S" using assms(1) by (auto simp: current_def)
  have t: "wrap64 (stmt_ttl st * NS_PER_S) = stmt_ttl st * NS_PER_S" using assms(3) by (simp add: NS_PER_S_def)
  have e: "now + 2 ^ 64 - stmt_ts st = (now - stmt_ts st) + 2 ^ 64" using c(2) by simp
  have b: "now - stmt_ts st < 2 ^ 64" using assms(2) by linarith
  have "wrap64 (now + 2 ^ 64 - stmt_ts st) = now - stmt_ts st" unfolding e wrap64_def using b by (simp only: mod_add_self2 mod_less)
  then show ?thesis using c False unfolding expired_def t by simp
qed (simp add: expired_def)

section \<open>Suppressing a whole command\<close>

definition idle_conn :: "conn \<Rightarrow> bool" where
  "idle_conn c \<longleftrightarrow> reader_ok (rq_reader (c_req c)) \<and> pending (rq_reader (c_req c)) = [] \<and> rq_caps (c_req c) = BASE_CAPS \<and> \<not> in_txn c"

lemma command_fed:
  assumes "idle_conn c"
  shows "\<exists>rq. request_feed (c_req c) (encodeMessage (COM_QUERY # sql) 0) = (Some sql, rq) \<and> rq_last_seq rq = of_nat (length (COM_QUERY # sql) div kMaxPayload)"
proof -
  let ?data = "encodeMessage (COM_QUERY # sql) 0" and ?r = "rq_reader (c_req c)"
  have ne: "?data \<noteq> []" by (auto simp: encodeMessage_frames frames.simps [of 0] header_def split: if_splits)
  have p: "reader_ok (reader_append ?r ?data)" "pending (reader_append ?r ?data) = encodeMessage (COM_QUERY # sql) 0 @ []"
    using assms by (simp_all add: idle_conn_def framing_simps)
  obtain m r' where m: "reader_next (reader_append ?r ?data) = Some (m, r')" "payload m = COM_QUERY # sql" "last_seq m = of_nat (length (COM_QUERY # sql) div kMaxPayload)"
    using reader_next_encoded [OF p] by auto
  have st: "statement BASE_CAPS (payload m) = Some sql"
    using m(2) extractQuery_plain [of BASE_CAPS sql]
    by (simp add: statement_def has_bits_def BASE_CAPS_def CLIENT_PROTOCOL_41_def CLIENT_TRANSACTIONS_def CLIENT_QUERY_ATTRIBUTES_def)
  then show ?thesis using m ne assms by (simp add: request_feed_def request_next_step idle_conn_def noted_def)
qed

text \<open>An agent that intercepts the statement, with a daemon that can be asked.\<close>

definition intercepts :: "nat \<Rightarrow> attempt \<Rightarrow> bytes \<Rightarrow> agent \<Rightarrow> bool" where
  "intercepts now t sql a \<longleftrightarrow> on_s a \<and> contains (list_s a) sql \<and> now < next_poll_ns a \<and> map_ok t \<and> store_ok t \<and> askLookup (send t)"

definition waiting_for :: "bytes \<Rightarrow> nat \<Rightarrow> nat \<Rightarrow> conn \<Rightarrow> bool" where
  "waiting_for sql sock key c \<longleftrightarrow> awaiting c \<and> c_pending c = sql \<and> c_dpipe c = key \<and> c_sock c = sock \<and> c_status c = NO_VERDICT \<and> c_query c \<noteq> []"

lemma write_asks:
  assumes c: "idle_conn (connFor ssl b)" and b: "intercepts now (ts 0) sql b"
    and rest: "at_rest (sh b) R (ks @ [key])" "pipe_room (sh b) key" "findStmt sql (sh b) = Some p" "R p = Some (st, sql, pay)" "0 < stmt_refs st" "stmt_refs st < 2 ^ 32 - 1"
    and hit: "stmt_state st = STMT_S_LOCAL" "stmt_data st \<noteq> None" "pay \<noteq> []" "\<not> clientExpired st (t_look (ts 0))"
  obtains r b1 rec where "rep_SSL_write now alive lf ts real ssl sock (encodeMessage (COM_QUERY # sql) 0) b = (r, b1)"
    "waiting_for sql sock key (connFor ssl b1)" "same_side (connFor ssl b) (connFor ssl b1)" "to_server b1 = to_server b"
    "c_last_seq (connFor ssl b1) = of_nat (length (COM_QUERY # sql) div kMaxPayload)"
    "at_rest (sh b1) (R(p \<mapsto> (bump st, sql, pay))) ks" "array_lookup (dpipes (sh_maps (sh b1))) key = Some rec" "dp_stmt rec = Some p"
    "stmts_map (sh_maps (sh b1)) = stmts_map (sh_maps (sh b))" "length (dpipe_freelist (sh_maps (sh b1))) = length (dpipe_freelist (sh_maps (sh b)))"
proof -
  let ?data = "encodeMessage (COM_QUERY # sql) 0" and ?c = "connFor ssl b" and ?t = "ts 0"
  let ?b = "count (\<lambda>s. s\<lparr>st_writes := st_writes s + 1\<rparr>) b"
  have B: "on_s b" "contains (list_s b) sql" "now < next_poll_ns b" "map_ok ?t" "store_ok ?t" "askLookup (send ?t)" using b by (auto simp: intercepts_def)
  obtain rq where rq: "request_feed (c_req ?c) ?data = (Some sql, rq)" "rq_last_seq rq = of_nat (length (COM_QUERY # sql) div kMaxPayload)"
    using command_fed [OF c] by blast
  let ?d = "realign (?c\<lparr>c_req := rq\<rparr>)"
  obtain s rec where q: "acquire True True (t_lock ?t) (t_relock ?t) sql sock (sh b) = (Some key, s)" "at_rest s (R(p \<mapsto> (bump st, sql, pay))) ks"
    "array_lookup (dpipes (sh_maps s)) key = Some rec" "dp_stmt rec = Some p" "length (dpipe_freelist (sh_maps s)) = length (dpipe_freelist (sh_maps (sh b)))"
    "stmts_map (sh_maps s) = stmts_map (sh_maps (sh b))"
    by (rule acquire_at_rest [OF rest])
  have look: "lookupPayload sql (t_look ?t) (sh b) = (Some (pay, stmt_id st), sh b)" by (rule lookup_at_rest [OF rest(1,3-6) hit])
  have tx: "\<not> in_txn ?c" using c by (simp add: idle_conn_def)
  let ?c1 = "?d\<lparr>c_dpipe := key, awaiting := True, c_status := NO_VERDICT, deadline_ns := wrap64 (t_dead ?t + AGENT_TIMEOUT_NS), c_sock := sock, c_pending := sql, c_query := ?data\<rparr>"
  obtain b1 where T: "tryStatement ?t ssl sock ?data sql ?d ?b = (True, ?c1, b1)" "sh b1 = s" "to_server b1 = to_server b"
    using B q(1) look tx by (cases "local_s b") (simp_all add: tryStatement_def realign_def Let_def)
  then have l: "handleLoop ts 0 ssl sock ?data sql (?c\<lparr>c_req := rq\<rparr>) ?b = (True, ?c1, b1)" by (simp add: handleLoop.simps [of ts 0])
  have ne: "?data \<noteq> []" by (auto simp: encodeMessage_frames frames.simps [of 0] header_def split: if_splits)
  have rf: "refreshLocked now alive lf ?b = ?b" using B(3) by (simp add: refreshLocked_def)
  have w: "rep_SSL_write now alive lf ts real ssl sock ?data b = (int (length ?data), put_conn ssl ?c1 b1)"
    using rq(1) ne rf l by (simp add: rep_SSL_write_def handleWrite_def Let_def)
  have cn: "connFor ssl (put_conn ssl ?c1 b1) = ?c1" by (simp add: realign_def)
  show thesis
    by (rule that [OF w], unfold cn)
       (use q T(2,3) ne rq(2) in \<open>simp_all add: waiting_for_def same_side_def realign_def put_conn_def\<close>)
qed

section \<open>Settling with a hit\<close>

lemma reply_taken:
  assumes "c_status c = NO_VERDICT"
  shows "c_status (verdict now (Some (0, agent_reply AGENT_OK i)) c) = REPLY_OK"
  using assms by (auto simp: verdict_def takeReply_def agent_reply_def REPLY_OK_def Let_def)

lemma settle_answers:
  assumes c: "waiting_for sql sock key c" "caps_known c"
    and rest: "at_rest (sh b) R ks" "R p = Some (st, sql, canonical rs)" "1 < stmt_refs st" "findStmt sql (sh b) = Some p"
    and pipe: "array_lookup (dpipes (sh_maps (sh b))) key = Some rec" "dp_stmt rec = Some p" "key \<notin> set ks" "length ks < length (dpipe_freelist (sh_maps (sh b)))"
    and hit: "stmt_state st = STMT_S_LOCAL" "stmt_data st \<noteq> None" "\<not> clientExpired st (t_look t)" "resultSet_ok rs"
  shows "answer t now (Some (0, agent_reply AGENT_OK i)) c b = Some rs"
proof -
  let ?s = "release (t_release t) (c_sock c) (c_dpipe c) (sh b)" and ?st = "st\<lparr>stmt_refs := stmt_refs st - 1\<rparr>"
  have k: "c_dpipe c = key" "c_pending c = sql" "c_status c = NO_VERDICT" using c(1) by (simp_all add: waiting_for_def)
  have pos: "0 < stmt_refs st" using rest(3) by simp
  note L = release_at_rest [OF rest(1,2) pos pipe, where now = "t_release t" and sock = "c_sock c"]
  have fits: "stmt_refs st < 2 ^ 32" using owns_read(2) [of "sh_arena (sh b)" R p st sql] rest(1,2) by (auto simp: at_rest_def stmt_fits_def)
  have m: "mapped (sh b)" "mapped ?s" using rest(1) L(1) k(1) by (simp_all add: at_rest_def)
  have f: "findStmt sql ?s = Some p" using rest(4) findStmt_cong [of ?s "sh b"] m L(3) k(1) by simp
  have r: "0 < stmt_refs ?st" "stmt_refs ?st < 2 ^ 32 - 1" "\<not> clientExpired ?st (t_look t)" using rest(3) fits hit(3) by (auto simp: clientExpired_def)
  have "lookupPayload sql (t_look t) ?s = (Some (canonical rs, stmt_id ?st), ?s)"
    using lookup_at_rest [OF L(1) [folded k(1)] f fun_upd_same r(1,2) _ _ encode_nonempty r(3)] hit(1,2) by simp
  then show ?thesis using reply_taken [OF k(3)] k(2) c(2) canonical_parsed [OF hit(4)] by (simp add: answer_def)
qed

lemma connFor_sh [simp]: "connFor ssl (b\<lparr>sh := s\<rparr>) = connFor ssl b"
  by (simp add: connFor_def)

section \<open>Storing\<close>

text \<open>The shared state between the agent's post and the daemon's reading of it, and after.\<close>

lemma post_stored:
  assumes rest: "at_rest (sh a) R (ks @ [key])" "pipe_room (sh a) key" "findStmt sql (sh a) = Some p" "R p = Some (st, sql, pay)" "0 < stmt_refs st" "stmt_refs st < 2 ^ 32 - 1"
      "sql \<noteq> []"
    and post: "map_ok t" "store_ok t" and rows: "resultSet_ok rs" "\<not> has_bits (status rs) SERVER_STATUS_IN_TRANS" "length (canonical rs) \<le> BNCL_STORE_MAX"
    and daemon: "map_of (key_of_fd d) fd = Some key" "room (length (canonical rs)) (sh_arena (sh a))" "n1 < 2 ^ 64" "n2 < 2 ^ 64"
    and input: "concat cs = bncl_req BNCL_REQ_STORE (length (canonical rs)) @ canonical rs" "\<forall>c\<in>set cs. c \<noteq> []"
  obtains d1 q where "serve fd (map Got cs) sp n1 n2 (under d (sh (publish t sql sock (canonical rs) a))) = Some d1"
    "key_of_fd d1 = key_of_fd d" "d_pool d1 = d_pool d" "local_on d1 = local_on d"
    "at_rest (seen d1 (sh (publish t sql sock (canonical rs) a)))
       (R(p \<mapsto> (with_payload q (length (canonical rs)) n2 (u32_of_int (o_ttl (opt d))) st, sql, canonical rs))) (ks @ [key])"
    "pipe_room (seen d1 (sh (publish t sql sock (canonical rs) a))) key" "findStmt sql (seen d1 (sh (publish t sql sock (canonical rs) a))) = Some p"
proof -
  let ?s = "sh (publish t sql sock (canonical rs) a)"
  note P = publish_at_rest [OF rest(1-6) post, where sock = sock and canon = "canonical rs"]
  obtain rec where rec: "array_lookup (dpipes (sh_maps ?s)) key = Some rec" "dp_stmt rec = Some p" using P(3) by blast
  have "0 < length (canonical rs)" using encode_nonempty by simp
  then have full: "put (canonical rs) (sh_arena ?s) \<noteq> Some (None, sh_arena ?s)" using P(5) daemon(2) put_room by blast
  obtain d1 q where v: "serve fd (map Got cs) sp n1 n2 (under d ?s) = Some d1" "d_maps d1 = sh_maps ?s" "key_of_fd d1 = key_of_fd d" "d_pool d1 = d_pool d" "local_on d1 = local_on d"
    "at_rest (seen d1 ?s) (R(p \<mapsto> (with_payload q (length (canonical rs)) n2 (u32_of_int (o_ttl (opt d))) st, sql, canonical rs))) (ks @ [key])"
    by (rule serve_store [OF P(1) rest(4,7) daemon(3,4) rec daemon(1) encode_nonempty canonical_storable [OF rows(1,2)] rows(3) full input])
  have m: "mapped (seen d1 ?s)" "mapped ?s" "mapped (sh a)" using v(6) P(1) rest(1) by (simp_all add: at_rest_def)
  have "findStmt sql (seen d1 ?s) = Some p" using rest(3) findStmt_cong [of "seen d1 ?s" "sh a"] m v(2) P(4) by (simp add: seen_def)
  moreover have "pipe_room (seen d1 ?s) key" using P(2) v(2) by (simp add: pipe_room_def seen_def)
  ultimately show thesis using that [OF v(1,3-6)] by blast
qed

section \<open>Asking and serving\<close>

text \<open>From a state whose record of the statement holds a canonical result set.\<close>

lemma asked_and_served:
  assumes rest: "at_rest (sh b) R (ks @ [key])" "pipe_room (sh b) key" "findStmt sql (sh b) = Some p" "R p = Some (st, sql, canonical rs)" "0 < stmt_refs st" "stmt_refs st < 2 ^ 32 - 1"
    and copy: "stmt_state st = STMT_S_LOCAL" "stmt_data st \<noteq> None" "stmt_ttl st < 2 ^ 32" "resultSet_ok rs"
    and daemon: "map_of (key_of_fd d) fd = Some key" "byKey (d_pool d) key = Some pi" "local_on d" "n3 < 2 ^ 64"
    and input: "concat cs = bncl_req BNCL_REQ_LOOKUP 0" "\<forall>c\<in>set cs. c \<noteq> []"
    and conn: "idle_conn (connFor ssl b)" "caps_known (connFor ssl b)" "intercepts now (ts 0) sql b" "0 < n"
    and time: "current (stmt_ttl st) (stmt_ts st) (t_look (ts 0))" "current (stmt_ttl st) (stmt_ts st) n3" "current (stmt_ttl st) (stmt_ts st) (t_look t')"
  obtains r b1 d2 b2 where
    "rep_SSL_write now alive lf ts real ssl sock (encodeMessage (COM_QUERY # sql) 0) b = (r, b1)"
    "serve fd (map Got cs) True n3 n4 (under d (sh b1)) = Some d2" "replies d2 = replies d @ [(fd, agent_reply AGENT_OK (stmt_id st))]"
    "rep_SSL_read t' now' (Some (0, agent_reply AGENT_OK (stmt_id st))) ts' real' ssl sock n (b1\<lparr>sh := seen d2 (sh b1)\<rparr>) =
       (Some (take n (encodeResultSet rs (c_caps (connFor ssl b)) (of_nat (length (COM_QUERY # sql) div kMaxPayload) + 1))), b2)"
    "parseResultSet (encodeResultSet rs (c_caps (connFor ssl b)) (of_nat (length (COM_QUERY # sql) div kMaxPayload) + 1)) (c_caps (connFor ssl b)) = Some rs"
    "to_server b2 = to_server b"
proof -
  let ?c = "connFor ssl b" and ?reply = "Some (0, agent_reply AGENT_OK (stmt_id st))"
  obtain r b1 rec where w: "rep_SSL_write now alive lf ts real ssl sock (encodeMessage (COM_QUERY # sql) 0) b = (r, b1)"
    "waiting_for sql sock key (connFor ssl b1)" "same_side ?c (connFor ssl b1)" "to_server b1 = to_server b"
    "c_last_seq (connFor ssl b1) = of_nat (length (COM_QUERY # sql) div kMaxPayload)"
    "at_rest (sh b1) (R(p \<mapsto> (bump st, sql, canonical rs))) ks" "array_lookup (dpipes (sh_maps (sh b1))) key = Some rec" "dp_stmt rec = Some p"
    "stmts_map (sh_maps (sh b1)) = stmts_map (sh_maps (sh b))" "length (dpipe_freelist (sh_maps (sh b1))) = length (dpipe_freelist (sh_maps (sh b)))"
    by (rule write_asks [where ts = ts, OF conn(1,3) rest copy(1,2) encode_nonempty current_client [OF time(1)]])
  have hit: "local_hit d (bump st) n3" using daemon(3) copy(1,2) current_daemon [of "bump st" n3] time(2) daemon(4) copy(3) by (simp add: local_hit_def)
  obtain d2 where l: "serve fd (map Got cs) True n3 n4 (under d (sh b1)) = Some d2" "d_maps d2 = paired (nat (p_sfd pi)) key (sh_maps (sh b1))"
    "replies d2 = replies d @ [(fd, agent_reply AGENT_OK (stmt_id (bump st)))]" "at_rest (seen d2 (sh b1)) (R(p \<mapsto> (bump st, sql, canonical rs))) ks"
    by (rule serve_lookup [OF w(6) fun_upd_same w(7,8) daemon(1,2) hit input])
  let ?b1 = "b1\<lparr>sh := seen d2 (sh b1)\<rparr>"
  have caps: "caps_known (connFor ssl b1)" "c_caps (connFor ssl b1) = c_caps ?c" using w(3) conn(2) by (simp_all add: same_side_def)
  have l4: "at_rest (sh ?b1) (R(p \<mapsto> (bump st, sql, canonical rs))) ks" using l(4) by simp
  have f: "findStmt sql (sh ?b1) = Some p" using rest(1,3) l4 findStmt_cong [of "sh ?b1" "sh b"] w(9) l(2) by (simp add: seen_def at_rest_def)
  have kk: "key \<notin> set ks" "length ks < length (dpipe_freelist (sh_maps (sh ?b1)))" "array_lookup (dpipes (sh_maps (sh ?b1))) key = Some rec"
    using distinct_keys [OF rest(1)] keys_fit [OF rest(1)] w(7,10) l(2) by (simp_all add: seen_def)
  have ex: "\<not> clientExpired (bump st) (t_look t')" using current_client [OF time(3)] by (simp add: clientExpired_def)
  have ans: "answer t' now' ?reply (connFor ssl b1) ?b1 = Some rs"
    by (rule settle_answers [OF w(2) caps(1) l4 fun_upd_same _ f kk(3) w(8) kk(1,2)]) (use rest(5) ex copy in simp_all)
  have wait: "awaiting (connFor ssl ?b1)" "c_query (connFor ssl ?b1) \<noteq> []" using w(2) by (simp_all add: waiting_for_def)
  obtain x b2 where rd: "rep_SSL_read t' now' ?reply ts' real' ssl sock n ?b1 = (x, b2)" by (cases "rep_SSL_read t' now' ?reply ts' real' ssl sock n ?b1")
  note S = read_settles [OF wait conn(4), where t = t' and now = now' and arrives = ?reply and ts = ts' and real = real' and sock = sock, unfolded rd connFor_sh]
  show thesis by (rule that [OF w(1) l(1), of b2]) (use w(4,5) l(3) S rd caps(2) ans in \<open>simp_all add: Let_def\<close>)
qed

end
