(* ===== verification/Startup.thy ===== *)
theory Startup
  imports Daemon
begin

text \<open>
  The life of the daemon, \<open>src/src/daemon/main.cpp\<close>: the command line, \<open>start\<close>, the event loop and \<open>stop\<close>. What the operating system and the BPF loader answer is the record \<open>boot\<close>;
  what the daemon leaves on the host, for others to find, is the record \<open>machine\<close>.
\<close>

section \<open>The host\<close>

text \<open>
  The control socket's file at the configured path, the pinned maps under \<open>BNCL_PIN_DIR\<close>, and the two programs attached to their maps.
\<close>

record machine =
  ctl_file :: bool
  pinned :: bool
  c2d_attached :: bool
  d2c_attached :: bool

record boot =
  probe_ok :: bool
  answered :: bool
  ctl_sock_ok :: bool
  bind_ok :: bool
  listen_ok :: bool
  open_ok :: bool
  load_maps :: "nat \<Rightarrow> nat \<Rightarrow> maps option"
  mapping :: "mem option"
  attach_c2d_ok :: bool
  attach_d2c_ok :: bool
  list_file :: "bytes option"
  load_time :: nat
  listener_ok :: bool
  pipe_socks :: "nat \<Rightarrow> (nat \<times> nat) option"
  epoll_ok :: bool
  add_ok :: "nat \<Rightarrow> bool"
  add_ctl_ok :: bool
  boot_time :: nat

section \<open>The command line\<close>

definition BNCL_MAX_PIPES :: nat where "BNCL_MAX_PIPES = 4096"
definition BNCL_MAX_STMTS :: nat where "BNCL_MAX_STMTS = 1024"
definition BNCL_CTL_SOCK :: bytes where "BNCL_CTL_SOCK = lit ''/run/barnacle/daemon.sock''"

definition default_options :: options where
  "default_options = \<lparr>o_stmt_list = [], o_host = lit ''valkey'', o_port = 6379, o_mysql_port = 3306, o_pipes = 64, o_max_stmts = BNCL_MAX_STMTS,
     o_max_pipes = BNCL_MAX_PIPES, o_ttl = 60, o_error_ttl = 30, o_ctl_path = BNCL_CTL_SOCK, o_local_on = True, o_verbose = False\<rparr>"

text \<open>\<open>atoi\<close> as the C library computes it: \<open>strtol\<close>, cut to 32 bits.\<close>

definition atoi :: "bytes \<Rightarrow> int" where
  "atoi bs = (strtol bs + 2 ^ 31) mod 2 ^ 32 - 2 ^ 31"

definition u16_of_int :: "int \<Rightarrow> nat" where
  "u16_of_int i = nat (i mod 2 ^ 16)"

text \<open>What an option with a value does with it.\<close>

definition takes_value :: "bytes \<Rightarrow> (bytes \<Rightarrow> options \<Rightarrow> options) option" where
  "takes_value a =
     (if a = lit ''-l'' then Some (\<lambda>v o'. o'\<lparr>o_stmt_list := v\<rparr>)
      else if a = lit ''-H'' then Some (\<lambda>v o'. o'\<lparr>o_host := v\<rparr>)
      else if a = lit ''-P'' then Some (\<lambda>v o'. o'\<lparr>o_port := u16_of_int (atoi v)\<rparr>)
      else if a = lit ''-m'' then Some (\<lambda>v o'. o'\<lparr>o_mysql_port := u16_of_int (atoi v)\<rparr>)
      else if a = lit ''-n'' then Some (\<lambda>v o'. o'\<lparr>o_pipes := u32_of_int (atoi v)\<rparr>)
      else if a = lit ''-S'' then Some (\<lambda>v o'. o'\<lparr>o_max_stmts := u32_of_int (atoi v)\<rparr>)
      else if a = lit ''-C'' then Some (\<lambda>v o'. o'\<lparr>o_max_pipes := u32_of_int (atoi v)\<rparr>)
      else if a = lit ''-t'' then Some (\<lambda>v o'. o'\<lparr>o_ttl := atoi v\<rparr>)
      else if a = lit ''-e'' then Some (\<lambda>v o'. o'\<lparr>o_error_ttl := atoi v\<rparr>)
      else if a = lit ''-s'' then Some (\<lambda>v o'. o'\<lparr>o_ctl_path := v\<rparr>)
      else None)"

definition takes_none :: "bytes \<Rightarrow> (options \<Rightarrow> options) option" where
  "takes_none a =
     (if a = lit ''-R'' then Some (\<lambda>o'. o'\<lparr>o_local_on := False\<rparr>)
      else if a = lit ''-v'' then Some (\<lambda>o'. o'\<lparr>o_verbose := True\<rparr>)
      else None)"

text \<open>The arguments after the program's name; \<open>None\<close> prints the usage and exits.\<close>

fun parseArgs :: "bytes list \<Rightarrow> options \<Rightarrow> options option" where
  "parseArgs [] o' = Some o'"
| "parseArgs (a # rest) o' =
     (case takes_value a of
        Some f \<Rightarrow> (case rest of [] \<Rightarrow> None | v # rest \<Rightarrow> parseArgs rest (f v o'))
      | None \<Rightarrow> (case takes_none a of Some f \<Rightarrow> parseArgs rest (f o') | None \<Rightarrow> None))"

definition clampPipes :: "options \<Rightarrow> options" where
  "clampPipes o' = (if o_pipes o' > o_max_pipes o' then o'\<lparr>o_pipes := o_max_pipes o'\<rparr> else o')"

section \<open>Starting\<close>

text \<open>Making the directory may fail and is ignored. \<open>sun_path\<close> has 108 bytes.\<close>

definition openControl :: "boot \<Rightarrow> daemon \<Rightarrow> machine \<Rightarrow> bool \<times> daemon \<times> machine" where
  "openControl b d h =
     (if o_ctl_path (opt d) = [] then (True, d, h)
      else if length (o_ctl_path (opt d)) \<ge> 108 then (False, d, h)
      else if probe_ok b \<and> answered b then (False, d, h)
      else let h = h\<lparr>ctl_file := False\<rparr> in
        if \<not> ctl_sock_ok b then (False, d, h)
        else let d = d\<lparr>ctl_open := True\<rparr> in
          if \<not> bind_ok b then (False, d, h)
          else let h = h\<lparr>ctl_file := True\<rparr> in
            if \<not> listen_ok b then (False, d, h) else (True, d, h))"

definition attachSplices :: "boot \<Rightarrow> daemon \<Rightarrow> machine \<Rightarrow> bool \<times> daemon \<times> machine" where
  "attachSplices b d h =
     (if \<not> attach_c2d_ok b then (False, d, h)
      else let d = d\<lparr>c2d_on := True\<rparr>; h = h\<lparr>c2d_attached := True\<rparr> in
        if \<not> attach_d2c_ok b then (False, d, h)
        else (True, d\<lparr>d2c_on := True\<rparr>, h\<lparr>d2c_attached := True\<rparr>))"

definition setSlots :: "daemon \<Rightarrow> daemon" where
  "setSlots d =
     (let d = cfgSet BNCL_CFG_ENABLED 1 d;
          d = cfgSet BNCL_CFG_PORT (o_mysql_port (opt d)) d;
          d = cfgSet BNCL_CFG_ERROR_TTL (u32_of_int (o_error_ttl (opt d))) d;
          d = cfgSet BNCL_CFG_CLIENT_ON 1 d;
          d = cfgSet BNCL_CFG_GENERATION 1 d;
          d = d\<lparr>local_on := o_local_on (opt d)\<rparr>
      in cfgSet BNCL_CFG_LOCAL_ON (if local_on d then 1 else 0) d)"

definition arena_open :: "mem option \<Rightarrow> arena \<Rightarrow> bool \<times> arena" where
  "arena_open memory a = arena_init memory (4096 * 4096) a"

text \<open>The loop that adds the pipes to the epoll set.\<close>

fun watchPipes :: "(nat \<Rightarrow> bool) \<Rightarrow> nat list \<Rightarrow> daemon \<Rightarrow> (bool \<times> daemon) option" where
  "watchPipes adds [] d = Some (True, d)"
| "watchPipes adds (i # is) d =
     (case byKey (d_pool d) i of
        None \<Rightarrow> None
      | Some p \<Rightarrow>
          if \<not> adds i then Some (False, d)
          else watchPipes adds is (d\<lparr>key_of_fd := AList.update (nat (p_sfd p)) (p_key p) (key_of_fd d)\<rparr>))"

text \<open>From the pool on.\<close>

definition startServing :: "boot \<Rightarrow> daemon \<Rightarrow> (bool \<times> daemon) option" where
  "startServing b d =
     (case pool_init (listener_ok b) (map (pipe_socks b) [0..<o_pipes (opt d)]) (d_pool d) (d_maps d) of
        (ok, p, m) \<Rightarrow>
          let d = d\<lparr>d_pool := p, d_maps := m\<rparr> in
          if \<not> ok then Some (False, d)
          else if \<not> epoll_ok b then Some (False, d)
          else case watchPipes (add_ok b) [0..<o_pipes (opt d)] (d\<lparr>polling := True\<rparr>) of
            None \<Rightarrow> None
          | Some (False, d) \<Rightarrow> Some (False, d)
          | Some (True, d) \<Rightarrow>
              if ctl_open d \<and> \<not> add_ctl_ok b then Some (False, d)
              else let d = d\<lparr>d_valkey := snd (vk_connect (o_host (opt d)) (o_port (opt d)) (d_valkey d))\<rparr>
                   in Some (True, d\<lparr>started := boot_time b\<rparr>))"

definition start :: "boot \<Rightarrow> daemon \<Rightarrow> machine \<Rightarrow> (bool \<times> daemon \<times> machine) option" where
  "start b d h =
     (case openControl b d h of
        (False, d, h) \<Rightarrow> Some (False, d, h)
      | (True, d, h) \<Rightarrow>
          if \<not> open_ok b then Some (False, d, h)
          else case load_maps b (o_max_stmts (opt d)) (o_max_pipes (opt d)) of
            None \<Rightarrow> Some (False, d, h)
          | Some m \<Rightarrow>
              let d = setSlots (d\<lparr>d_maps := m, loaded := True\<rparr>); h = h\<lparr>pinned := True\<rparr> in
              (case arena_open (mapping b) (d_arena d) of
                 (False, a) \<Rightarrow> Some (False, d\<lparr>d_arena := a\<rparr>, h)
               | (True, a) \<Rightarrow>
                   (case attachSplices b (d\<lparr>d_arena := a\<rparr>) h of
                      (False, d, h) \<Rightarrow> Some (False, d, h)
                    | (True, d, h) \<Rightarrow>
                        (case loadStatements (list_file b) (load_time b) d of
                           None \<Rightarrow> None
                         | Some (False, d) \<Rightarrow> Some (False, d, h)
                         | Some (True, d) \<Rightarrow> map_option (\<lambda>(ok, d). (ok, d, h)) (startServing b d)))))"

section \<open>Running\<close>

text \<open>
  One event of the epoll set: a request on a pipe's socket, or a connection on the control socket, whose \<open>accept\<close> may fail; a command comes with what its read returned and with what the
  list file holds.
\<close>

datatype event = Request nat "rd list" bool nat nat | Command "bytes option" "bytes option" nat

fun handle :: "event \<Rightarrow> daemon \<Rightarrow> daemon option" where
  "handle (Request fd input splice_ok now now') d = serve fd input splice_ok now now' d"
| "handle (Command None _ _) d = Some d"
| "handle (Command (Some line) contents now) d = map_option snd (control line contents now d)"

text \<open>
  Clients run at any time: what they do to the arena and the shared maps before the daemon's next step is an action on both.
\<close>

type_synonym action = "arena \<times> maps \<Rightarrow> arena \<times> maps"

definition act :: "action \<Rightarrow> daemon \<Rightarrow> daemon" where
  "act f d = (let (a, m) = f (d_arena d, d_maps d) in d\<lparr>d_arena := a, d_maps := m\<rparr>)"

fun handleAll :: "(action \<times> event) list \<Rightarrow> daemon \<Rightarrow> daemon option" where
  "handleAll [] d = Some d"
| "handleAll ((f, e) # es) d = (case handle e (act f d) of None \<Rightarrow> None | Some d \<Rightarrow> handleAll es d)"

datatype waited = Ready "(action \<times> event) list" | Interrupted | WaitFailed

text \<open>
  One turn of the loop: the clients' actions before the tick, the clock, and what \<open>epoll_wait\<close> returned. The list of turns ends when a signal has set \<open>exiting_s\<close>.
\<close>

record turn =
  clients :: action
  tick_time :: nat
  waited :: waited

fun run :: "turn list \<Rightarrow> daemon \<Rightarrow> daemon option" where
  "run [] d = Some d"
| "run (r # rs) d =
     (case tick (tick_time r) (act (clients r) d) of
        None \<Rightarrow> None
      | Some d \<Rightarrow>
          (case waited r of
             WaitFailed \<Rightarrow> Some d
           | Interrupted \<Rightarrow> run rs d
           | Ready es \<Rightarrow> (case handleAll es d of None \<Rightarrow> None | Some d \<Rightarrow> run rs d)))"

section \<open>Stopping\<close>

text \<open>A splice is on, and the maps are loaded, only when the skeleton is open, so the source's checks of \<open>skel\<close> add nothing.\<close>

definition stop :: "daemon \<Rightarrow> machine \<Rightarrow> daemon \<times> machine" where
  "stop d h =
     (let d = d\<lparr>d_pool := pool_shutdown (d_pool d)\<rparr>;
          h = (if ctl_open d then h\<lparr>ctl_file := False\<rparr> else h);
          h = (if c2d_on d then h\<lparr>c2d_attached := False\<rparr> else h);
          h = (if d2c_on d then h\<lparr>d2c_attached := False\<rparr> else h);
          d = d\<lparr>d_arena := arena_close (d_arena d)\<rparr>;
          h = (if loaded d then h\<lparr>pinned := False\<rparr> else h)
      in (d, h))"

definition closed_arena :: arena where
  "closed_arena = \<lparr>opened = False, cap = 0, ctl = \<lparr>lock = 0, taken_ns = 0, heap = 0, heap_end = 0, free_head = 0, retire_head = 0, used = 0\<rparr>, mem = \<lambda>_. 0\<rparr>"

text \<open>A daemon just constructed, with the shared tier's connection still to be made.\<close>

definition new_daemon :: "valkey \<Rightarrow> options \<Rightarrow> daemon" where
  "new_daemon v o' = \<lparr>opt = o', d_arena = closed_arena, d_maps = no_maps, d_pool = empty_pool, d_list = empty_list, d_valkey = v, key_of_fd = [], known = [], next_id = 1,
     orphans = [], cnt = \<lparr>hits = 0, misses = 0, errors = 0, stores = 0, refused = 0, reloads = 0, lockbreaks = 0\<rparr>, local_on = True, started = 0, polling = False,
     ctl_open = False, loaded = False, c2d_on = False, d2c_on = False, replies = []\<rparr>"

text \<open>The exit code and what is left on the host.\<close>

definition main :: "valkey \<Rightarrow> boot \<Rightarrow> turn list \<Rightarrow> bytes list \<Rightarrow> machine \<Rightarrow> (nat \<times> machine) option" where
  "main v b turns args h =
     (case parseArgs args default_options of
        None \<Rightarrow> Some (1, h)
      | Some o' \<Rightarrow>
          (case start b (new_daemon v (clampPipes o')) h of
             None \<Rightarrow> None
           | Some (False, d, h) \<Rightarrow> Some (1, snd (stop d h))
           | Some (True, d, h) \<Rightarrow>
               (case run turns d of
                  None \<Rightarrow> None
                | Some d \<Rightarrow> Some (0, snd (stop d h)))))"

end
