(* ===== verification/Life.thy ===== *)
theory Life
  imports Startup Frame DaemonSpec
begin

text \<open>
  The daemon's life: what \<open>start\<close> sets up, what no step of the event loop changes, and what \<open>stop\<close> takes away.
\<close>

section \<open>What a running daemon never changes\<close>

definition fixed :: "daemon \<Rightarrow> dpipe list \<times> options \<times> pool \<times> (nat \<times> nat) list \<times> bool \<times> bool \<times> bool \<times> bool" where
  "fixed d = (dpipes (d_maps d), opt d, d_pool d, key_of_fd d, ctl_open d, loaded d, c2d_on d, d2c_on d)"

lemma fixed_frame [simp]:
  "fixed (d\<lparr>d_arena := a\<rparr>) = fixed d" "fixed (d\<lparr>d_maps := (d_maps d)\<lparr>stmts_map := sm\<rparr>\<rparr>) = fixed d" "fixed (d\<lparr>d_maps := (d_maps d)\<lparr>cfg := cf\<rparr>\<rparr>) = fixed d"
  "fixed (d\<lparr>d_maps := (d_maps d)\<lparr>pipe_sk_info_map := im\<rparr>\<rparr>) = fixed d" "fixed (d\<lparr>d_valkey := v\<rparr>) = fixed d" "fixed (d\<lparr>cnt := c\<rparr>) = fixed d"
  "fixed (d\<lparr>replies := q\<rparr>) = fixed d" "fixed (d\<lparr>local_on := l\<rparr>) = fixed d" "fixed (d\<lparr>known := k\<rparr>) = fixed d" "fixed (d\<lparr>d_list := t\<rparr>) = fixed d"
  "fixed (d\<lparr>orphans := ps\<rparr>) = fixed d" "fixed (d\<lparr>next_id := i\<rparr>) = fixed d"
  by (simp_all add: fixed_def)

lemma fixed_set_rec [simp]: "fixed (set_rec p st d) = fixed d"
  by (simp add: set_rec_def)

lemma fixed_retireStmt [simp]: "fixed (retireStmt p now d) = fixed d"
  by (simp add: retireStmt_def Let_def)

lemma fixed_collectLoop: "fixed (snd (collectLoop now ps d)) = fixed d"
  by (induction ps arbitrary: d) (auto simp: case_prod_beta)

lemma fixed_tick: "tick now d = Some d' \<Longrightarrow> fixed d' = fixed d"
  by (auto simp: tick_def collectOrphans_def breakStaleLock_def case_prod_beta fixed_collectLoop Let_def split: if_splits)

lemma fixed_newRecord: "newRecord sql d = Some (r, d') \<Longrightarrow> fixed d' = fixed d"
  by (auto simp: newRecord_def Let_def split: option.splits prod.splits)

lemma fixed_findOrMake: "findOrMake sql d = Some (r, d') \<Longrightarrow> fixed d' = fixed d"
  by (auto simp: findOrMake_def fixed_newRecord split: option.splits)

lemma fixed_publishAll: "publishAll ss ks d = Some (ok, ks', d') \<Longrightarrow> fixed d' = fixed d"
proof (induction ss ks d rule: publishAll.induct)
  case (2 sql rest "next" d)
  then show ?case by (fastforce dest: fixed_findOrMake split: if_splits option.splits)
qed simp

lemma fixed_unpublish [simp]: "fixed (unpublish now sql p d) = fixed d"
  by (simp add: unpublish_def Let_def case_prod_beta)

lemma fixed_dropGone: "fixed (dropGone now ks rest d) = fixed d"
  by (induction now ks rest d rule: dropGone.induct) auto

lemma fixed_load: "loadStatements f now d = Some (ok, d') \<Longrightarrow> fixed d' = fixed d"
  by (auto simp: loadStatements_def fixed_dropGone dest: fixed_publishAll split: if_splits sum.splits option.splits prod.splits bool.splits)

lemma fixed_cfgSet [simp]: "fixed (cfgSet slot v d) = fixed d"
  by (simp add: cfgSet_def split: option.split)

lemma fixed_valkeyUp: "fixed (snd (valkeyUp d)) = fixed d"
  using valkeyUp_frame [of d] by auto

lemma fixed_resolve: "resolve p now now' d = Some (s, d') \<Longrightarrow> fixed d' = fixed d"
  using resolve_frame by fastforce

lemma fixed_store: "store key body now now' d = Some (b, d') \<Longrightarrow> fixed d' = fixed d"
  using store_frame by fastforce

lemma fixed_count [simp]: "fixed (count_status s d) = fixed d"
  by (cases s) (simp_all add: count_status_def)

lemma fixed_serve: "serve fd input sp now now' d = Some d' \<Longrightarrow> fixed d' = fixed d"
  by (fastforce simp: serve_def send_reply_def Let_def dest!: fixed_store fixed_resolve split: option.splits if_splits prod.splits)

lemma fixed_stats: "stats now d = Some (f, d') \<Longrightarrow> fixed d' = fixed d"
  using fixed_valkeyUp [of d] by (auto simp: stats_def Let_def split: option.splits if_splits prod.splits)

lemma fixed_control: "control line f now d = Some (r, d') \<Longrightarrow> fixed d' = fixed d"
  by (auto simp: control_def Let_def dest: fixed_stats fixed_load split: if_splits option.splits prod.splits bool.splits)

lemma fixed_handle: "handle e d = Some d' \<Longrightarrow> fixed d' = fixed d"
  by (cases "(e, d)" rule: handle.cases) (auto dest: fixed_serve fixed_control)

abbreviation flags :: "daemon \<Rightarrow> options \<times> pool \<times> (nat \<times> nat) list \<times> bool \<times> bool \<times> bool \<times> bool" where
  "flags d \<equiv> snd (fixed d)"

lemma flags_act [simp]: "flags (act f d) = flags d"
  by (simp add: act_def fixed_def case_prod_beta Let_def)

lemma flags_handleAll: "handleAll es d = Some d' \<Longrightarrow> flags d' = flags d"
proof (induction es d rule: handleAll.induct)
  case (2 f e es d)
  obtain d1 where h: "handle e (act f d) = Some d1" "handleAll es d1 = Some d'" using "2.prems" by (auto split: option.splits)
  then show ?case using "2.IH" [OF h] fixed_handle [OF h(1)] flags_act [of f d] by simp
qed simp

lemma flags_run: "run rs d = Some d' \<Longrightarrow> flags d' = flags d"
proof (induction rs d rule: run.induct)
  case (2 r rs d)
  obtain d1 where t: "tick (tick_time r) (act (clients r) d) = Some d1" using "2.prems" by (auto split: option.splits)
  have f: "flags d1 = flags d" using fixed_tick [OF t] flags_act by simp
  show ?case
  proof (cases "waited r")
    case (Ready es)
    then obtain d2 where h: "handleAll es d1 = Some d2" "run rs d2 = Some d'" using "2.prems" t by (auto split: option.splits)
    then show ?thesis using "2.IH"(1) [OF t Ready h] flags_handleAll [OF h(1)] f by simp
  next
    case Interrupted
    then show ?thesis using "2.IH"(2) [OF t Interrupted] "2.prems" t f by simp
  qed (use "2.prems" t f in simp)
qed simp

section \<open>What is left on the host\<close>

definition marks :: "daemon \<Rightarrow> bool \<times> bool \<times> bool \<times> bool" where
  "marks d = (ctl_open d, loaded d, c2d_on d, d2c_on d)"

lemma flags_marks: "flags d' = flags d \<Longrightarrow> marks d' = marks d"
  by (simp add: fixed_def marks_def)

lemma marks_load: "loadStatements f now d = Some (ok, d') \<Longrightarrow> marks d' = marks d"
  using fixed_load flags_marks by metis

lemma marks_watch: "watchPipes adds is d = Some (ok, d') \<Longrightarrow> marks d' = marks d"
  by (induction adds "is" d rule: watchPipes.induct) (auto simp: marks_def split: option.splits if_splits)

lemma marks_serving: "startServing b d = Some (ok, d') \<Longrightarrow> marks d' = marks d"
  by (auto simp: startServing_def marks_def Let_def dest!: marks_watch split: option.splits prod.splits if_splits bool.splits)

lemma cfgSet_sel [simp]:
  "marks (cfgSet slot v d) = marks d" "opt (cfgSet slot v d) = opt d" "d_arena (cfgSet slot v d) = d_arena d" "local_on (cfgSet slot v d) = local_on d"
  "known (cfgSet slot v d) = known d" "orphans (cfgSet slot v d) = orphans d" "next_id (cfgSet slot v d) = next_id d" "d_pool (cfgSet slot v d) = d_pool d"
  "key_of_fd (cfgSet slot v d) = key_of_fd d"
  by (simp_all add: cfgSet_def marks_def split: option.split)

lemma marks_local [simp]: "marks (d\<lparr>local_on := l\<rparr>) = marks d"
  by (simp add: marks_def)

lemma slots_sel [simp]:
  "marks (setSlots d) = marks d" "opt (setSlots d) = opt d" "d_arena (setSlots d) = d_arena d" "local_on (setSlots d) = o_local_on (opt d)"
  "known (setSlots d) = known d" "orphans (setSlots d) = orphans d" "next_id (setSlots d) = next_id d" "d_pool (setSlots d) = d_pool d" "key_of_fd (setSlots d) = key_of_fd d"
  by (simp_all add: setSlots_def Let_def)

text \<open>Whatever the daemon has put on the host it remembers, so that \<open>stop\<close> can take it away.\<close>

definition remembered :: "daemon \<Rightarrow> machine \<Rightarrow> machine \<Rightarrow> bool" where
  "remembered d h h' \<longleftrightarrow> (ctl_file h' \<longrightarrow> ctl_file h \<or> ctl_open d) \<and> pinned h' = (pinned h \<or> loaded d)
     \<and> c2d_attached h' = (c2d_attached h \<or> c2d_on d) \<and> d2c_attached h' = (d2c_attached h \<or> d2c_on d)"

lemma remembered_marks: "marks d' = marks d \<Longrightarrow> remembered d' h h' = remembered d h h'"
  by (simp add: remembered_def marks_def)

lemma openControl_cases:
  assumes "openControl b d h = (ok, d', h')"
  shows "d' = d \<and> h' = h \<and> (ok \<longrightarrow> o_ctl_path (opt d) = [])
    \<or> \<not> (probe_ok b \<and> answered b) \<and> (\<not> ok \<and> d' = d \<and> h' = h\<lparr>ctl_file := False\<rparr> \<or> d' = d\<lparr>ctl_open := True\<rparr> \<and> h' = h\<lparr>ctl_file := bind_ok b\<rparr>)"
  using assms unfolding openControl_def Let_def by (auto split: if_splits)

lemma openControl_remembers:
  assumes "openControl b d h = (ok, d', h')" "marks d = (False, False, False, False)"
  shows "remembered d' h h'" "opt d' = opt d" "\<not> loaded d'" "\<not> c2d_on d'" "\<not> d2c_on d'" "d_arena d' = d_arena d"
    "o_ctl_path (opt d) \<noteq> [] \<Longrightarrow> probe_ok b \<Longrightarrow> answered b \<Longrightarrow> \<not> ok \<and> h' = h \<and> d' = d"
  using openControl_cases [OF assms(1)] assms(2) by (auto simp: remembered_def marks_def)

lemma attach_remembers:
  assumes "attachSplices b d h1 = (ok, d', h')" "remembered d h h1"
  shows "remembered d' h h'"
  using assms unfolding attachSplices_def remembered_def Let_def by (simp split: if_splits; elim conjE; hypsubst; simp)

lemma start_remembers:
  assumes "start b d h = Some (ok, d', h')" "marks d = (False, False, False, False)"
  shows "remembered d' h h'"
proof -
  obtain ok1 d1 h1 where o: "openControl b d h = (ok1, d1, h1)" by (cases "openControl b d h")
  note O = openControl_remembers [OF o assms(2)]
  show ?thesis
  proof (cases "ok1 \<and> open_ok b")
    case False
    then show ?thesis using assms(1) o O by (auto simp: start_def split: if_splits bool.splits)
  next
    case True
    show ?thesis
    proof (cases "load_maps b (o_max_stmts (opt d1)) (o_max_pipes (opt d1))")
      case None
      then show ?thesis using assms(1) o O True by (simp add: start_def)
    next
      case (Some m)
      let ?d = "setSlots (d1\<lparr>d_maps := m, loaded := True\<rparr>)" and ?h = "h1\<lparr>pinned := True\<rparr>"
      have mk: "marks ?d = (ctl_open d1, True, c2d_on d1, d2c_on d1)" by (simp add: marks_def [of "d1\<lparr>d_maps := m, loaded := True\<rparr>"])
      then have r: "remembered (?d\<lparr>d_arena := a\<rparr>) h ?h" for a using O by (auto simp: remembered_def marks_def)
      obtain ok2 a where a: "arena_open (mapping b) (d_arena ?d) = (ok2, a)" by (cases "arena_open (mapping b) (d_arena ?d)")
      obtain ok3 d3 h3 where s: "attachSplices b (?d\<lparr>d_arena := a\<rparr>) ?h = (ok3, d3, h3)" by (cases "attachSplices b (?d\<lparr>d_arena := a\<rparr>) ?h")
      note A = attach_remembers [OF s r]
      have r3: "remembered e h h3" if "marks e = marks d3" for e using A remembered_marks [OF that] by simp
      show ?thesis using assms(1) o True Some a s A r r3 marks_load marks_serving
        by (auto simp: start_def Let_def split: if_splits bool.splits option.splits)
    qed
  qed
qed

lemma stop_forgets:
  assumes "remembered d h h'" "marks e = marks d"
  shows "let h2 = snd (stop e h') in (ctl_file h2 \<longrightarrow> ctl_file h) \<and> (pinned h2 \<longrightarrow> pinned h) \<and> (c2d_attached h2 \<longrightarrow> c2d_attached h) \<and> (d2c_attached h2 \<longrightarrow> d2c_attached h)"
  using assms by (auto simp: remembered_def marks_def stop_def Let_def)

section \<open>What is set up\<close>

lemma load_frame_step: "findOrMake sql d = Some (r, d') \<Longrightarrow> d_maps d' = d_maps d"
  by (auto simp: findOrMake_def newRecord_def set_rec_def Let_def split: option.splits prod.splits)

lemma publishAll_frame: "publishAll ss ks d = Some (ok, ks', d') \<Longrightarrow> \<exists>sm. d_maps d' = (d_maps d)\<lparr>stmts_map := sm\<rparr>"
proof (induction ss ks d rule: publishAll.induct)
  case (1 ks d)
  then have "d_maps d' = (d_maps d)\<lparr>stmts_map := stmts_map (d_maps d)\<rparr>" by simp
  then show ?case ..
next
  case (2 sql rest ks d)
  show ?case
  proof (cases "length sql > BNCL_STMT_MAX - 1")
    case True
    then show ?thesis using 2 by simp
  next
    case False
    then obtain r d1 where f: "findOrMake sql d = Some (r, d1)" using "2.prems" by (auto split: option.splits)
    note m = load_frame_step [OF f]
    consider "d' = d1" | p sm where "r = Some p" "hash_update (max_stmts (d_maps d1)) (stmt_key sql) p (stmts_map (d_maps d1)) = Some sm"
        "publishAll rest (AList.update sql p ks) (d1\<lparr>d_maps := (d_maps d1)\<lparr>stmts_map := sm\<rparr>\<rparr>) = Some (ok, ks', d')"
      using "2.prems" False f by (auto split: option.splits)
    then show ?thesis
    proof cases
      case 1
      then have "d_maps d' = (d_maps d)\<lparr>stmts_map := stmts_map (d_maps d)\<rparr>" using m by simp
      then show ?thesis ..
    next
      case (2 p sm)
      from "2.IH"(2) [OF False f refl 2(1,2,3)] show ?thesis using m by auto
    qed
  qed
qed

lemma retireStmt_maps [simp]: "d_maps (retireStmt p now d) = d_maps d"
  by (simp add: retireStmt_def set_rec_def Let_def)

lemma unpublish_maps: "\<exists>sm. d_maps (unpublish now sql p d) = (d_maps d)\<lparr>stmts_map := sm\<rparr>"
  by (auto simp: unpublish_def Let_def case_prod_beta)

lemma dropGone_maps: "\<exists>sm. d_maps (dropGone now ks rest d) = (d_maps d)\<lparr>stmts_map := sm\<rparr>"
proof (induction now ks rest d rule: dropGone.induct)
  case (1 now ks d)
  have "d_maps (dropGone now ks [] d) = (d_maps d)\<lparr>stmts_map := stmts_map (d_maps d)\<rparr>" by simp
  then show ?case ..
next
  case (2 now ks sql p rest d)
  then show ?case using unpublish_maps [of now sql p d] by (cases "map_of ks sql") auto
qed

lemma loadStatements_maps:
  assumes "loadStatements f now d = Some (ok, d')"
  shows "\<exists>sm. d_maps d' = (d_maps d)\<lparr>stmts_map := sm\<rparr>"
proof -
  have same: "\<exists>sm. d_maps d = (d_maps d)\<lparr>stmts_map := sm\<rparr>" by (rule exI [of _ "stmts_map (d_maps d)"]) simp
  consider "d' = d" | l ks ks' where "publishAll l ks d = Some (ok, ks', d')"
    | l ks ks' d1 where "publishAll l ks d = Some (True, ks', d1)" "d_maps d' = d_maps (dropGone now ks' (known d1) d1)"
    using assms by (auto simp: loadStatements_def split: if_splits sum.splits option.splits prod.splits bool.splits)
  then show ?thesis
  proof cases
    case 1
    then show ?thesis using same by simp
  next
    case 2
    then show ?thesis by (rule publishAll_frame)
  next
    case 3
    then show ?thesis using publishAll_frame [OF 3(1)] dropGone_maps [of now ks' "known d1" d1] by auto
  qed
qed

lemma publish_maps: "pool_publish p pi m = (ok, m') \<Longrightarrow> stmts_map m' = stmts_map m \<and> cfg m' = cfg m"
  by (auto simp: pool_publish_def pool_release_def array_update_def Let_def split: option.splits if_splits)

lemma initPipes_maps: "initPipes i socks p m = (ok, p', m') \<Longrightarrow> stmts_map m' = stmts_map m \<and> cfg m' = cfg m \<and> (ok \<longrightarrow> (\<forall>s\<in>set socks. s \<noteq> None))"
proof (induction i socks p m rule: initPipes.induct)
  case (2 i s socks p m)
  show ?case
  proof (cases "makePipe s ((pipes p ! i)\<lparr>p_key := wrap32 i\<rparr>)")
    case None
    then show ?thesis using "2.prems" by (auto simp: Let_def)
  next
    case (Some pi)
    let ?p = "p\<lparr>pipes := (pipes p)[i := pi]\<rparr>"
    obtain ok1 m1 where q: "pool_publish ?p pi m = (ok1, m1)" by (cases "pool_publish ?p pi m")
    have s: "s \<noteq> None" using Some by (auto simp: makePipe_def)
    show ?thesis
    proof (cases ok1)
      case True
      then have "initPipes (i + 1) socks ?p m1 = (ok, p', m')" using "2.prems" Some q by (simp add: Let_def)
      from "2.IH" [OF refl Some refl q [symmetric] refl _ this] True show ?thesis using publish_maps [OF q] s by auto
    qed (use "2.prems" Some q publish_maps [OF q] in \<open>auto simp: Let_def\<close>)
  qed
qed simp

lemma pool_init_maps:
  assumes "pool_init l socks p m = (ok, p', m')"
  shows "stmts_map m' = stmts_map m \<and> cfg m' = cfg m \<and> (ok \<longrightarrow> l \<and> (\<forall>s\<in>set socks. s \<noteq> None))"
  using assms by (auto simp: pool_init_def Let_def dest: initPipes_maps split: if_splits prod.splits)

text \<open>Every pipe the loop has added is found by its socket.\<close>

lemma watchPipes_spec:
  assumes "\<forall>i\<in>set is. byKey (d_pool d) i = Some (pi i)" "inj_on (\<lambda>i. nat (p_sfd (pi i))) (set is)" "distinct is"
  shows "\<exists>ok kf. watchPipes adds is d = Some (ok, d\<lparr>key_of_fd := kf\<rparr>) \<and> (\<forall>fd. fd \<notin> (\<lambda>i. nat (p_sfd (pi i))) ` set is \<longrightarrow> map_of kf fd = map_of (key_of_fd d) fd)
    \<and> (ok \<longrightarrow> (\<forall>i\<in>set is. map_of kf (nat (p_sfd (pi i))) = Some (p_key (pi i)))) \<and> ((\<forall>i\<in>set is. adds i) \<longrightarrow> ok)"
  using assms
proof (induction "is" arbitrary: d)
  case Nil
  have "watchPipes adds [] d = Some (True, d\<lparr>key_of_fd := key_of_fd d\<rparr>)" by simp
  then show ?case by (intro exI [of _ True] exI [of _ "key_of_fd d"]) simp
next
  case (Cons i "is")
  let ?sfd = "\<lambda>i. nat (p_sfd (pi i))"
  show ?case
  proof (cases "adds i")
    case False
    then have "watchPipes adds (i # is) d = Some (False, d\<lparr>key_of_fd := key_of_fd d\<rparr>)" using Cons.prems(1) by simp
    with False show ?thesis by (intro exI [of _ False] exI [of _ "key_of_fd d"]) (simp del: watchPipes.simps)
  next
    case True
    let ?d = "d\<lparr>key_of_fd := AList.update (?sfd i) (p_key (pi i)) (key_of_fd d)\<rparr>"
    have "\<forall>j\<in>set is. byKey (d_pool ?d) j = Some (pi j)" "inj_on ?sfd (set is)" "distinct is" using Cons.prems by (auto simp: inj_on_def)
    from Cons.IH [OF this] obtain ok kf where k: "watchPipes adds is ?d = Some (ok, ?d\<lparr>key_of_fd := kf\<rparr>)"
      "\<And>fd. fd \<notin> ?sfd ` set is \<Longrightarrow> map_of kf fd = map_of (key_of_fd ?d) fd" "ok \<longrightarrow> (\<forall>j\<in>set is. map_of kf (?sfd j) = Some (p_key (pi j)))" "(\<forall>j\<in>set is. adds j) \<longrightarrow> ok" by blast
    have "?sfd i \<notin> ?sfd ` set is" using Cons.prems(2,3) by (auto simp: inj_on_def)
    then have "map_of kf (?sfd i) = Some (p_key (pi i))" using k(2) by (simp add: update_conv')
    then show ?thesis using True Cons.prems(1) k by (intro exI [of _ ok] exI [of _ kf]) (auto simp: update_conv')
  qed
qed

text \<open>Maps as the loader makes them, with \<open>n\<close> slots for pipes.\<close>

definition sized :: "nat \<Rightarrow> maps \<Rightarrow> bool" where
  "sized n m \<longleftrightarrow> length (dpipe_freelist m) = n \<and> length (dpipes m) = n \<and> length (dpipe_map m) = n \<and> length (cpipe_map m) = n \<and> length (cfg m) = BNCL_CFG_N"

definition own_sockets :: "(nat \<Rightarrow> (nat \<times> nat) option) \<Rightarrow> bool" where
  "own_sockets socks \<longleftrightarrow> (\<forall>i j c s c'. socks i = Some (c, s) \<longrightarrow> socks j = Some (c', s) \<longrightarrow> i = j)"

text \<open>Every pipe is free, points at no statement and is found by its socket, and no socket leads elsewhere.\<close>

definition pipes_ready :: "nat \<Rightarrow> daemon \<Rightarrow> bool" where
  "pipes_ready n d \<longleftrightarrow> free_keys (d_maps d) = [0..<n] \<and> freelist_ok (d_maps d)
     \<and> (\<forall>k<n. (\<exists>s. dpipe_map (d_maps d) ! k = Some s \<and> map_of (key_of_fd d) s = Some k) \<and> dp_stmt (dpipes (d_maps d) ! k) = None)
     \<and> (\<forall>fd k. map_of (key_of_fd d) fd = Some k \<longrightarrow> k < n)"

text \<open>What serving needs of the host, and what starting does, with no list to load.\<close>

definition serving_granted :: "nat \<Rightarrow> boot \<Rightarrow> bool" where
  "serving_granted n b \<longleftrightarrow> listener_ok b \<and> (\<forall>i<n. pipe_socks b i \<noteq> None \<and> add_ok b i) \<and> epoll_ok b \<and> add_ctl_ok b"

definition granted :: "options \<Rightarrow> boot \<Rightarrow> bool" where
  "granted o' b \<longleftrightarrow> length (o_ctl_path o') < 108 \<and> \<not> (probe_ok b \<and> answered b) \<and> ctl_sock_ok b \<and> bind_ok b \<and> listen_ok b \<and> open_ok b
     \<and> load_maps b (o_max_stmts o') (o_max_pipes o') \<noteq> None \<and> mapping b \<noteq> None \<and> attach_c2d_ok b \<and> attach_d2c_ok b \<and> o_stmt_list o' = [] \<and> serving_granted (o_pipes o') b"

lemma serving_ready:
  assumes m: "sized n (d_maps d)" "n < 2 ^ 32" "o_pipes (opt d) \<le> n" and socks: "own_sockets (pipe_socks b)" and fresh: "key_of_fd d = []"
  shows "\<exists>ok d'. startServing b d = Some (ok, d') \<and> (serving_granted (o_pipes (opt d)) b \<longrightarrow> ok) \<and> (ok \<longrightarrow> pipes_ready (o_pipes (opt d)) d' \<and> stmts_map (d_maps d') = stmts_map (d_maps d) \<and> cfg (d_maps d') = cfg (d_maps d)
    \<and> d_arena d' = d_arena d \<and> known d' = known d \<and> orphans d' = orphans d \<and> next_id d' = next_id d \<and> local_on d' = local_on d)"
proof -
  let ?n = "o_pipes (opt d)" and ?socks = "map (pipe_socks b) [0..<o_pipes (opt d)]"
  obtain ok p pm where i: "pool_init (listener_ok b) ?socks (d_pool d) (d_maps d) = (ok, p, pm)" by (cases "pool_init (listener_ok b) ?socks (d_pool d) (d_maps d)")
  note F = pool_init_maps [OF i]
  let ?d = "d\<lparr>d_pool := p, d_maps := pm\<rparr>"
  have sz: "length ?socks \<le> length (dpipe_freelist (d_maps d))" "length (dpipe_freelist (d_maps d)) < 2 ^ 32" "length ?socks \<le> length (dpipes (d_maps d))" "length ?socks \<le> length (dpipe_map (d_maps d))"
    using m by (simp_all add: sized_def)
  show ?thesis
  proof (cases "ok \<and> epoll_ok b")
    case False
    have "ok \<and> epoll_ok b" if "serving_granted ?n b"
    proof -
      have "listener_ok b" "epoll_ok b" "\<forall>s\<in>set ?socks. s \<noteq> None" using that by (auto simp: serving_granted_def)
      with pool_ready [OF this(3) sz, of "d_pool d"] i show ?thesis by auto
    qed
    then show ?thesis using i False by (auto simp: startServing_def Let_def)
  next
    case True
    then have all: "\<forall>s\<in>set ?socks. s \<noteq> None" "listener_ok b" using F by auto
    have P: "free_keys pm = [0..<?n]" "freelist_ok pm"
      "\<And>k. k < ?n \<Longrightarrow> \<exists>c s. pipe_socks b k = Some (c, s) \<and> dpipe_map pm ! k = Some s \<and> byKey p k = Some \<lparr>p_key = k, p_cfd = int c, p_sfd = int s\<rparr>"
      "\<forall>k<?n. dp_stmt (dpipes pm ! k) = None"
      using pool_ready [OF all(1) sz, of "d_pool d"] i all(2) by auto
    let ?sfd = "\<lambda>k. snd (the (pipe_socks b k))" and ?cfd = "\<lambda>k. fst (the (pipe_socks b k))"
    let ?pi = "\<lambda>k. \<lparr>p_key = k, p_cfd = int (?cfd k), p_sfd = int (?sfd k)\<rparr>"
    have bk: "\<forall>k\<in>set [0..<?n]. byKey (d_pool (?d\<lparr>polling := True\<rparr>)) k = Some (?pi k)" using P(3) by fastforce
    have inj: "inj_on (\<lambda>i. nat (p_sfd (?pi i))) (set [0..<?n])"
    proof (rule inj_onI)
      fix i j assume a: "i \<in> set [0..<?n]" "j \<in> set [0..<?n]" "nat (p_sfd (?pi i)) = nat (p_sfd (?pi j))"
      then obtain c s c' where "pipe_socks b i = Some (c, s)" "pipe_socks b j = Some (c', s)" using P(3) [of i] P(3) [of j] by auto
      then show "i = j" using socks unfolding own_sockets_def by blast
    qed
    obtain ok2 kf where w: "watchPipes (add_ok b) [0..<?n] (?d\<lparr>polling := True\<rparr>) = Some (ok2, ?d\<lparr>polling := True, key_of_fd := kf\<rparr>)"
      "ok2 \<longrightarrow> (\<forall>k\<in>set [0..<?n]. map_of kf (?sfd k) = Some k)" "(\<forall>k\<in>set [0..<?n]. add_ok b k) \<longrightarrow> ok2"
      "\<forall>fd. fd \<notin> ?sfd ` set [0..<?n] \<longrightarrow> map_of kf fd = None"
    proof (use watchPipes_spec [OF bk inj distinct_upt, of "add_ok b"] in \<open>elim exE conjE\<close>, rule that, assumption)
    qed (simp_all add: fresh)
    have only: "k < ?n" if "ok2" "map_of kf fd = Some k" for fd k using w(2,4) that by (cases "fd \<in> ?sfd ` set [0..<?n]") auto
    have "\<exists>s. dpipe_map pm ! k = Some s \<and> map_of kf s = Some k" if o: "ok2" and k: "k < ?n" for k
    proof -
      obtain c s where "pipe_socks b k = Some (c, s)" "dpipe_map pm ! k = Some s" using P(3) [OF k] by blast
      moreover have "map_of kf (?sfd k) = Some k" using w(2) o k by simp
      ultimately show ?thesis by simp
    qed
    then have r: "ok2 \<Longrightarrow> pipes_ready ?n (?d\<lparr>polling := True, key_of_fd := kf, d_valkey := x, started := y\<rparr>)" for x y using P(1,2,4) only by (auto simp: pipes_ready_def)
    show ?thesis using True i w(1,3) r F by (cases ok2) (auto simp: startServing_def serving_granted_def Let_def)
  qed
qed

lemma slots_set:
  assumes "length (cfg (d_maps d)) = BNCL_CFG_N"
  shows "d_maps (setSlots d) = (d_maps d)\<lparr>cfg :=
    [1, o_mysql_port (opt d), cfg (d_maps d) ! 2, u32_of_int (o_error_ttl (opt d)), 1, 1, if o_local_on (opt d) then 1 else 0]\<rparr>"
proof -
  obtain a b c e f g i where "cfg (d_maps d) = [a, b, c, e, f, g, i]"
    using assms by (auto simp: BNCL_CFG_N_def length_Suc_conv eval_nat_numeral)
  then show ?thesis
    by (simp add: setSlots_def cfgSet_def array_update_def Let_def BNCL_CFG_ENABLED_def BNCL_CFG_PORT_def BNCL_CFG_ERROR_TTL_def BNCL_CFG_CLIENT_ON_def
        BNCL_CFG_GENERATION_def BNCL_CFG_LOCAL_ON_def)
qed

lemma local_publishAll: "publishAll ss ks d = Some (ok, ks', d') \<Longrightarrow> local_on d' = local_on d"
proof (induction ss ks d rule: publishAll.induct)
  case (2 sql rest "next" d)
  have "findOrMake sql d = Some (r, e) \<Longrightarrow> local_on e = local_on d" for r e
    by (auto simp: findOrMake_def newRecord_def set_rec_def Let_def split: option.splits prod.splits)
  with 2 show ?case by (fastforce split: if_splits option.splits)
qed simp

lemma local_dropGone: "local_on (dropGone now ks rest d) = local_on d"
  by (induction now ks rest d rule: dropGone.induct) (auto simp: unpublish_def retireStmt_def set_rec_def Let_def case_prod_beta)

lemma local_load: "loadStatements f now d = Some (ok, d') \<Longrightarrow> local_on d' = local_on d"
  by (auto simp: loadStatements_def local_dropGone dest: local_publishAll split: if_splits sum.splits option.splits prod.splits bool.splits)

lemma arena_open_owns: "arena_open (Some m) a = (ok, a') \<Longrightarrow> ok \<and> owns a' Map.empty"
proof -
  assume "arena_open (Some m) a = (ok, a')"
  moreover obtain a2 where "arena_init (Some m) (4096 * 4096) a = (True, a2)" "heap.objects a2 Map.empty" using heap_init [of "4096 * 4096" m a] by auto
  ultimately show ?thesis by (auto simp: arena_open_def apart_entries_def intro!: ownsI)
qed

text \<open>A reload that takes no statement off the list.\<close>

lemma dropGone_none: "fst ` set rest \<subseteq> fst ` set ks \<Longrightarrow> dropGone now ks rest d = d"
  by (induction rest) (force simp: map_of_eq_None_iff)+

lemma grown_orphans:
  assumes l: "loadStatements (Some contents) now d = Some (True, d')" and src: "o_stmt_list (opt d) \<noteq> []" "load empty_list (o_stmt_list (opt d)) (Some contents) = Inr fresh"
    and ok: "daemon_ok d R" and nul: "\<forall>s\<in>set (stmts fresh). 0 \<notin> set s" and kept: "fst ` set (known d) \<subseteq> set (stmts fresh)"
  shows "orphans d' = orphans d" "fst ` set (known d) \<subseteq> fst ` set (known d')"
proof -
  obtain ks d1 where p: "publishAll (stmts fresh) [] d = Some (True, ks, d1)" "d' = (dropGone now ks (known d1) d1)\<lparr>known := ks, d_list := fresh\<rparr>"
    using l src by (auto simp: loadStatements_def split: option.splits bool.splits)
  obtain b ks' d2 R1 where q: "publishAll (stmts fresh) [] d = Some (b, ks', d2)" "known d2 = known d" "orphans d2 = orphans d"
    "b \<longrightarrow> fst ` set ks' = {s \<in> set (stmts fresh). length s < BNCL_STMT_MAX}"
    using publishAll_spec [OF ok publishing_start [OF ok] loaded_distinct [OF src(2)]] nul by auto
  have same: "known d1 = known d" "orphans d1 = orphans d" "fst ` set ks = {s \<in> set (stmts fresh). length s < BNCL_STMT_MAX}" using p(1) q by auto
  have "\<forall>s\<in>fst ` set (known d). length s < BNCL_STMT_MAX" using ok by (auto simp: daemon_ok_def)
  then have "fst ` set (known d) \<subseteq> fst ` set ks" using kept same(3) by blast
  moreover from this have "dropGone now ks (known d1) d1 = d1" unfolding same(1) by (rule dropGone_none)
  ultimately show "orphans d' = orphans d" "fst ` set (known d) \<subseteq> fst ` set (known d')" using p(2) same by auto
qed

text \<open>The statements of the configured list that can be published.\<close>

definition listed :: "boot \<Rightarrow> options \<Rightarrow> bytes set" where
  "listed b o' = (if o_stmt_list o' = [] then {}
     else case load empty_list (o_stmt_list o') (list_file b) of Inl err \<Rightarrow> {} | Inr l \<Rightarrow> {s \<in> set (stmts l). length s < BNCL_STMT_MAX})"

definition published_list :: "bytes set \<Rightarrow> daemon \<Rightarrow> bool" where
  "published_list S d \<longleftrightarrow> (\<exists>R. daemon_ok d R) \<and> orphans d = [] \<and> fst ` set (known d) = S \<and> (\<forall>(s, p)\<in>set (known d). lookup_stmt d s = Some p)"

lemma first_load:
  assumes d: "owns (d_arena d) Map.empty" "known d = []" "orphans d = []" "next_id d = 1" and now: "load_time b < 2 ^ 64"
    and nul: "\<And>l. load empty_list (o_stmt_list (opt d)) (list_file b) = Inr l \<Longrightarrow> \<forall>s\<in>set (stmts l). 0 \<notin> set s"
  shows "\<exists>ok d'. loadStatements (list_file b) (load_time b) d = Some (ok, d') \<and> (ok \<longrightarrow> published_list (listed b (opt d)) d')"
proof -
  have ok: "daemon_ok d Map.empty" using d by (simp add: daemon_ok_def)
  show ?thesis
  proof (cases "o_stmt_list (opt d) = []")
    case True
    then show ?thesis using ok d(2,3) by (auto simp: loadStatements_def published_list_def listed_def)
  next
    case False
    show ?thesis
    proof (cases "load empty_list (o_stmt_list (opt d)) (list_file b)")
      case (Inl err)
      then show ?thesis using False by (intro exI [of _ False] exI [of _ d]) (simp add: loadStatements_def)
    next
      case (Inr l)
      then obtain contents where c: "list_file b = Some contents" by (cases "list_file b") (auto simp: load_def)
      have src: "load empty_list (o_stmt_list (opt d)) (Some contents) = Inr l" using Inr c by simp
      have z: "\<forall>s\<in>set (stmts l) \<union> fst ` set (known d). 0 \<notin> set s" using nul [OF Inr] d(2) by simp
      obtain ok' d' R' where r: "loadStatements (Some contents) (load_time b) d = Some (ok', d')" "daemon_ok d' R'"
        "ok' \<longrightarrow> fst ` set (known d') = {s \<in> set (stmts l). length s < BNCL_STMT_MAX} \<and> (\<forall>(s, p)\<in>set (known d'). lookup_stmt d' s = Some p)"
      proof (use reload_spec [OF ok False src z now] in \<open>elim exE conjE\<close>, rule that, assumption, assumption)
      qed (simp add: case_prod_beta)
      have "orphans d' = []" if "ok'" using grown_orphans(1) [OF r(1) [unfolded eqTrueI [OF that]] False src ok] nul [OF Inr] d(2,3) by simp
      then have "ok' \<longrightarrow> published_list (listed b (opt d)) d'" using r(2,3) src False c unfolding published_list_def listed_def by auto
      then show ?thesis using r(1) unfolding c by blast
    qed
  qed
qed

text \<open>How far \<open>start\<close> gets: to the list, or it has failed before.\<close>

lemma start_reaches_list:
  assumes "open_ok b" "load_maps b (o_max_stmts o') (o_max_pipes o') = Some m" "mapping b = Some m0" "attach_c2d_ok b" "attach_d2c_ok b" "openControl b (new_daemon v o') h = (True, d1, h1)"
    and "length (cfg m) = BNCL_CFG_N"
  shows "\<exists>e. owns (d_arena e) Map.empty \<and> key_of_fd e = [] \<and> known e = [] \<and> orphans e = [] \<and> next_id e = 1 \<and> opt e = o' \<and> local_on e = o_local_on o'
    \<and> d_maps e = m\<lparr>cfg := [1, o_mysql_port o', cfg m ! 2, u32_of_int (o_error_ttl o'), 1, 1, if o_local_on o' then 1 else 0]\<rparr>
    \<and> start b (new_daemon v o') h = (case loadStatements (list_file b) (load_time b) e of
         None \<Rightarrow> None
       | Some (ok, d) \<Rightarrow> let h' = h1\<lparr>pinned := True, c2d_attached := True, d2c_attached := True\<rparr> in
           if ok then map_option (\<lambda>(ok, d). (ok, d, h')) (startServing b d) else Some (False, d, h'))"
proof -
  have d1: "opt d1 = o'" "known d1 = []" "orphans d1 = []" "next_id d1 = 1" "key_of_fd d1 = []" using openControl_cases [OF assms(6)] by (auto simp: new_daemon_def)
  let ?s = "setSlots (d1\<lparr>d_maps := m, loaded := True\<rparr>)"
  obtain ok a where a: "arena_open (mapping b) (d_arena ?s) = (ok, a)" by (cases "arena_open (mapping b) (d_arena ?s)")
  have own: "ok" "owns a Map.empty" using arena_open_owns a unfolding assms(3) by blast+
  let ?e = "?s\<lparr>d_arena := a, c2d_on := True, d2c_on := True\<rparr>"
  have "start b (new_daemon v o') h = (case loadStatements (list_file b) (load_time b) ?e of
         None \<Rightarrow> None
       | Some (ok, d) \<Rightarrow> let h' = h1\<lparr>pinned := True, c2d_attached := True, d2c_attached := True\<rparr> in
           if ok then map_option (\<lambda>(ok, d). (ok, d, h')) (startServing b d) else Some (False, d, h'))"
    using assms a own(1) d1(1) by (simp add: start_def attachSplices_def Let_def split: option.split bool.split)
  moreover have "d_maps ?e = m\<lparr>cfg := [1, o_mysql_port o', cfg m ! 2, u32_of_int (o_error_ttl o'), 1, 1, if o_local_on o' then 1 else 0]\<rparr>"
    using slots_set [of "d1\<lparr>d_maps := m, loaded := True\<rparr>"] assms(7) d1(1) by simp
  ultimately show ?thesis using own(2) d1 by (intro exI [of _ ?e]) simp
qed

lemma start_stuck:
  assumes "\<not> (fst (openControl b (new_daemon v o') h) \<and> open_ok b \<and> load_maps b (o_max_stmts o') (o_max_pipes o') \<noteq> None \<and> mapping b \<noteq> None \<and> attach_c2d_ok b \<and> attach_d2c_ok b)"
  shows "\<exists>d h'. start b (new_daemon v o') h = Some (False, d, h')"
proof -
  obtain ok d1 h1 where o: "openControl b (new_daemon v o') h = (ok, d1, h1)" by (cases "openControl b (new_daemon v o') h")
  have "opt d1 = o'" using openControl_cases [OF o] by (auto simp: new_daemon_def)
  then show ?thesis using assms o by (auto simp: start_def attachSplices_def arena_open_def arena_init_def Let_def split: bool.splits option.splits)
qed

lemma start_spec:
  assumes "o_pipes o' \<le> o_max_pipes o'" "o_max_pipes o' < 2 ^ 32" "load_time b < 2 ^ 64" "own_sockets (pipe_socks b)"
    and maps: "\<forall>m. load_maps b (o_max_stmts o') (o_max_pipes o') = Some m \<longrightarrow> sized (o_max_pipes o') m"
    and nul: "\<forall>l. load empty_list (o_stmt_list o') (list_file b) = Inr l \<longrightarrow> (\<forall>s\<in>set (stmts l). 0 \<notin> set s)"
  shows "\<exists>ok d h'. start b (new_daemon v o') h = Some (ok, d, h') \<and> (granted o' b \<longrightarrow> ok) \<and> (ok \<longrightarrow>
    published_list (listed b o') d \<and> pipes_ready (o_pipes o') d \<and> (\<exists>x. cfg (d_maps d) = [1, o_mysql_port o', x, u32_of_int (o_error_ttl o'), 1, 1, if o_local_on o' then 1 else 0])
    \<and> local_on d = o_local_on o' \<and> pinned h' \<and> c2d_attached h' \<and> d2c_attached h')"
proof -
  obtain ok1 d1 h1 where o: "openControl b (new_daemon v o') h = (ok1, d1, h1)" by (cases "openControl b (new_daemon v o') h")
  show ?thesis
  proof (cases "ok1 \<and> open_ok b \<and> load_maps b (o_max_stmts o') (o_max_pipes o') \<noteq> None \<and> mapping b \<noteq> None \<and> attach_c2d_ok b \<and> attach_d2c_ok b")
    case False
    then have "\<not> granted o' b" using o unfolding granted_def openControl_def new_daemon_def Let_def by (auto split: if_splits)
    then show ?thesis using start_stuck [of b v o' h] o False by auto
  next
    case True
    then obtain m m0 where m: "load_maps b (o_max_stmts o') (o_max_pipes o') = Some m" "mapping b = Some m0" "openControl b (new_daemon v o') h = (True, d1, h1)" using o by auto
    have sz: "sized (o_max_pipes o') m" using maps m(1) by blast
    then have cf: "length (cfg m) = BNCL_CFG_N" by (simp add: sized_def)
    let ?cf = "[1, o_mysql_port o', cfg m ! 2, u32_of_int (o_error_ttl o'), 1, 1, if o_local_on o' then 1 else 0]"
    let ?h = "h1\<lparr>pinned := True, c2d_attached := True, d2c_attached := True\<rparr>"
    obtain e where e: "owns (d_arena e) Map.empty" "known e = []" "orphans e = []" "next_id e = 1" "opt e = o'" "local_on e = o_local_on o'" "d_maps e = m\<lparr>cfg := ?cf\<rparr>"
      "key_of_fd e = []" "start b (new_daemon v o') h = (case loadStatements (list_file b) (load_time b) e of None \<Rightarrow> None
         | Some (ok, d) \<Rightarrow> let h' = ?h in if ok then map_option (\<lambda>(ok, d). (ok, d, h')) (startServing b d) else Some (False, d, h'))"
      using start_reaches_list [OF _ m(1,2) _ _ m(3) cf] True by blast
    obtain ok3 d3 where l: "loadStatements (list_file b) (load_time b) e = Some (ok3, d3)" "ok3 \<longrightarrow> published_list (listed b o') d3"
      using first_load [OF e(1-4) assms(3)] nul e(5) by auto
    have g3: "granted o' b \<longrightarrow> ok3" using l(1) e(5) by (auto simp: granted_def loadStatements_def)
    obtain sm where sm: "d_maps d3 = m\<lparr>cfg := ?cf, stmts_map := sm\<rparr>" using loadStatements_maps [OF l(1)] e(7) by auto
    have d3: "opt d3 = o'" "local_on d3 = o_local_on o'" "key_of_fd d3 = []" using fixed_load [OF l(1)] local_load [OF l(1)] e(5,6,8) by (simp_all add: fixed_def)
    have s3: "sized (o_max_pipes o') (d_maps d3)" using sz sm by (simp add: sized_def BNCL_CFG_N_def)
    obtain ok d where S: "startServing b d3 = Some (ok, d)" "serving_granted (o_pipes o') b \<longrightarrow> ok" "ok \<longrightarrow> pipes_ready (o_pipes o') d \<and> stmts_map (d_maps d) = stmts_map (d_maps d3) \<and> cfg (d_maps d) = cfg (d_maps d3)
        \<and> d_arena d = d_arena d3 \<and> known d = known d3 \<and> orphans d = orphans d3 \<and> next_id d = next_id d3 \<and> local_on d = local_on d3"
      using serving_ready [OF s3 assms(2) _ assms(4) d3(3)] assms(1) d3(1) by auto
    have P: "published_list (listed b o') d" if "ok" "ok3" using l(2) S(3) that by (auto simp: published_list_def daemon_ok_def)
    have C: "cfg (d_maps d) = ?cf" if "ok" using S(3) sm that by simp
    have L: "local_on d = o_local_on o'" if "ok" using S(3) d3(2) that by simp
    show ?thesis
    proof (cases ok3)
      case True
      then have "start b (new_daemon v o') h = Some (ok, d, ?h)" using e(9) l(1) S(1) by simp
      moreover have "pinned ?h" "c2d_attached ?h" "d2c_attached ?h" by simp_all
      moreover have "granted o' b \<longrightarrow> ok" using S(2) by (simp add: granted_def)
      ultimately show ?thesis using P C L S(3) True by blast
    next
      case False
      then have "start b (new_daemon v o') h = Some (False, d3, ?h)" using e(9) l(1) by simp
      then show ?thesis using g3 False by blast
    qed
  qed
qed

text \<open>How \<open>main\<close> ends once the options are read: it stops a daemon that remembers what the started one did.\<close>

lemma main_ends:
  assumes "main v b turns args h = Some (code, h')" "parseArgs args default_options = Some o'"
  shows "\<exists>ok d h1 e. start b (new_daemon v (clampPipes o')) h = Some (ok, d, h1) \<and> marks e = marks d \<and> h' = snd (stop e h1)"
proof -
  obtain ok d h1 where st: "start b (new_daemon v (clampPipes o')) h = Some (ok, d, h1)" using assms by (auto simp: main_def split: option.splits)
  show ?thesis
  proof (cases ok)
    case True
    then obtain e where "run turns d = Some e" "h' = snd (stop e h1)" using assms st by (auto simp: main_def split: option.splits)
    then show ?thesis using flags_marks [OF flags_run] st by blast
  next
    case False
    then have "h' = snd (stop d h1)" using assms st by (simp add: main_def)
    then show ?thesis using st by blast
  qed
qed

lemma start_loads:
  assumes "start b d h = Some (ok, d', h')" "openControl b d h = (True, d, h)" "open_ok b" "load_maps b (o_max_stmts (opt d)) (o_max_pipes (opt d)) \<noteq> None"
  shows "loaded d'"
proof -
  obtain m where m: "load_maps b (o_max_stmts (opt d)) (o_max_pipes (opt d)) = Some m" using assms(4) by blast
  let ?d = "setSlots (d\<lparr>d_maps := m, loaded := True\<rparr>)"
  have mk: "marks ?d = (ctl_open d, True, c2d_on d, d2c_on d)" by (simp add: marks_def [of "d\<lparr>d_maps := m, loaded := True\<rparr>"])
  then have ld: "loaded ?d" by (simp add: marks_def)
  have at: "loaded d3" if "attachSplices b (?d\<lparr>d_arena := a\<rparr>) h1 = (ok3, d3, h3)" for a h1 ok3 d3 h3
    using that ld by (auto simp: attachSplices_def Let_def split: if_splits)
  have mm: "loaded e = loaded e'" if "marks e = marks e'" for e e' using that by (simp add: marks_def)
  show ?thesis using assms(1-3) m ld at mm [OF marks_load] mm [OF marks_serving]
    by (auto simp: start_def Let_def split: if_splits bool.splits option.splits prod.splits)
qed

section \<open>The command line\<close>

definition typed :: "options \<Rightarrow> bool" where
  "typed o' \<longleftrightarrow> o_port o' < 2 ^ 16 \<and> o_mysql_port o' < 2 ^ 16 \<and> o_pipes o' < 2 ^ 32 \<and> o_max_stmts o' < 2 ^ 32 \<and> o_max_pipes o' < 2 ^ 32
     \<and> o_ttl o' \<in> {- (2 ^ 31)..<2 ^ 31} \<and> o_error_ttl o' \<in> {- (2 ^ 31)..<2 ^ 31}"

lemma atoi_range: "atoi bs \<in> {- (2 ^ 31)..<2 ^ 31}"
  by (simp add: atoi_def Let_def)

lemma cast_range: "u16_of_int i < 2 ^ 16" "u32_of_int i < 2 ^ 32"
  by (simp_all add: u16_of_int_def u32_of_int_def nat_less_iff)

lemma typed_value: "takes_value a = Some f \<Longrightarrow> typed o' \<Longrightarrow> typed (f v o')"
  using atoi_range [of v] cast_range [of "atoi v"] by (auto simp: takes_value_def typed_def split: if_splits)

lemma typed_none: "takes_none a = Some f \<Longrightarrow> typed o' \<Longrightarrow> typed (f o')"
  by (auto simp: takes_none_def typed_def split: if_splits)

lemma typed_args: "parseArgs args o' = Some o2 \<Longrightarrow> typed o' \<Longrightarrow> typed o2"
  by (induction args o' rule: parseArgs.induct) (auto split: option.splits list.splits intro: typed_value typed_none)

section \<open>Properties\<close>


text \<open>A small host: nothing pinned, and a socket pair for each pipe.\<close>

definition demo_boot :: boot where
  "demo_boot = \<lparr>probe_ok = True, answered = False, ctl_sock_ok = True, bind_ok = True, listen_ok = True, open_ok = True,
     load_maps = (\<lambda>s n. Some \<lparr>stmts_map = [], max_stmts = s, dpipe_map = replicate n None, cpipe_map = replicate n None, pipe_sk_info_map = [], dpipe_freelist = replicate n 0,
       dpipes_meta_map = \<lparr>serial = 0, num_free = 0\<rparr>, dpipes = replicate n \<lparr>dp_key = 0, dp_cfd = 0, dp_sfd = 0, dp_ts = 0, dp_stmt = None, dp_in_use = 0\<rparr>, cfg = replicate BNCL_CFG_N 0\<rparr>),
     mapping = Some (\<lambda>_. 0), attach_c2d_ok = True, attach_d2c_ok = True, list_file = None, load_time = 5, listener_ok = True,
     pipe_socks = (\<lambda>i. Some (100 + 2 * i, 101 + 2 * i)), epoll_ok = True, add_ok = (\<lambda>_. True), add_ctl_ok = True, boot_time = 6\<rparr>"

definition offline :: valkey where
  "offline = \<lparr>fd_open = False, host = [], port = 0, inbuf = [], reads = [], writes = [], connects = [], sent = []\<rparr>"

definition demo_args :: "bytes list" where
  "demo_args = [lit ''-n'', lit ''2'', lit ''-C'', lit ''2'']"

lemma demo_options: "parseArgs demo_args default_options = Some (default_options\<lparr>o_pipes := 2, o_max_pipes := 2\<rparr>)"
  by code_simp

abbreviation clean :: machine where
  "clean \<equiv> \<lparr>ctl_file = False, pinned = False, c2d_attached = False, d2c_attached = False\<rparr>"

lemma demo_granted: "granted (default_options\<lparr>o_pipes := 2, o_max_pipes := 2\<rparr>) demo_boot"
  by (simp add: granted_def serving_granted_def demo_boot_def default_options_def BNCL_CTL_SOCK_def lit_def)

lemma demo_host:
  assumes "o' = default_options\<lparr>o_pipes := 2, o_max_pipes := 2\<rparr>"
  shows "o_pipes o' \<le> o_max_pipes o'" "o_max_pipes o' < 2 ^ 32" "load_time demo_boot < 2 ^ 64" "own_sockets (pipe_socks demo_boot)"
    "\<forall>m. load_maps demo_boot (o_max_stmts o') (o_max_pipes o') = Some m \<longrightarrow> sized (o_max_pipes o') m"
    "\<forall>l. load empty_list (o_stmt_list o') (list_file demo_boot) = Inr l \<longrightarrow> (\<forall>s\<in>set (stmts l). 0 \<notin> set s)"
  using assms by (auto simp: demo_boot_def own_sockets_def sized_def load_def)

lemma demo_starts: "\<exists>d h'. start demo_boot (new_daemon offline (default_options\<lparr>o_pipes := 2, o_max_pipes := 2\<rparr>)) clean = Some (True, d, h')"
  using start_spec [OF demo_host [OF refl], of offline clean] demo_granted by (elim exE conjE) simp


text \<open>
  C28: however a daemon ends, by its signal, a failed wait or a failed start at any point, it leaves nothing on the host that was not there before it: no control socket file, no pinned map, no
  attached program.
\<close>

theorem daemon_leaves_nothing:
  assumes "main v b turns args h = Some (code, h')"
  shows "(ctl_file h' \<longrightarrow> ctl_file h) \<and> (pinned h' \<longrightarrow> pinned h) \<and> (c2d_attached h' \<longrightarrow> c2d_attached h) \<and> (d2c_attached h' \<longrightarrow> d2c_attached h)"
proof (cases "parseArgs args default_options")
  case None
  then show ?thesis using assms by (simp add: main_def)
next
  case (Some o')
  then obtain ok d h1 e where st: "start b (new_daemon v (clampPipes o')) h = Some (ok, d, h1)" and e: "marks e = marks d" "h' = snd (stop e h1)"
    using main_ends [OF assms] by blast
  have "remembered d h h1" using start_remembers [OF st] by (simp add: marks_def new_daemon_def)
  from stop_forgets [OF this e(1)] show ?thesis using e(2) by (simp add: Let_def)
qed

lemma demo_main: "\<exists>h'. main offline demo_boot [] demo_args clean = Some (0, h')"
proof -
  have "clampPipes (default_options\<lparr>o_pipes := 2, o_max_pipes := 2\<rparr>) = default_options\<lparr>o_pipes := 2, o_max_pipes := 2\<rparr>" by (simp add: clampPipes_def)
  moreover obtain d h' where "start demo_boot (new_daemon offline (default_options\<lparr>o_pipes := 2, o_max_pipes := 2\<rparr>)) clean = Some (True, d, h')" using demo_starts by blast
  ultimately show ?thesis using demo_options by (simp add: main_def)
qed

theorem daemon_leaves_nothing_witness:
  "\<exists>h'. main offline demo_boot [] demo_args clean = Some (0, h') \<and> h' = clean"
proof -
  obtain h' where m: "main offline demo_boot [] demo_args clean = Some (0, h')" using demo_main by blast
  then show ?thesis using daemon_leaves_nothing [OF m] by simp
qed

text \<open>
  C29: with a control socket, a second daemon started while the first answers exits with status 1 and leaves the first one's socket, maps and programs alone. Without one (an empty path)
  there is no such check: the second daemon sets up on the first one's pinned maps, and when it ends, however it ends, it removes them.
\<close>

theorem second_daemon:
  assumes "parseArgs args default_options = Some o'"
  shows "(o_ctl_path o' \<noteq> [] \<and> probe_ok b \<and> answered b \<longrightarrow> main v b turns args h = Some (1, h))
    \<and> (o_ctl_path o' = [] \<and> open_ok b \<and> load_maps b (o_max_stmts o') (o_max_pipes o') \<noteq> None \<and> main v b turns args h = Some (code, h') \<longrightarrow> \<not> pinned h')"
proof (intro conjI impI)
  let ?d = "new_daemon v (clampPipes o')"
  have o: "o_ctl_path (opt ?d) = o_ctl_path o'" by (simp add: new_daemon_def clampPipes_def)
  assume g: "o_ctl_path o' \<noteq> [] \<and> probe_ok b \<and> answered b"
  then have "openControl b ?d h = (False, ?d, h)" using o by (simp add: openControl_def)
  then have "start b ?d h = Some (False, ?d, h)" by (simp add: start_def)
  then show "main v b turns args h = Some (1, h)" using assms by (simp add: main_def stop_def new_daemon_def)
next
  let ?d = "new_daemon v (clampPipes o')"
  assume u: "o_ctl_path o' = [] \<and> open_ok b \<and> load_maps b (o_max_stmts o') (o_max_pipes o') \<noteq> None \<and> main v b turns args h = Some (code, h')"
  then obtain ok d h1 e where st: "start b ?d h = Some (ok, d, h1)" and e: "marks e = marks d" "h' = snd (stop e h1)" using main_ends assms by blast
  have "openControl b ?d h = (True, ?d, h)" "load_maps b (o_max_stmts (opt ?d)) (o_max_pipes (opt ?d)) \<noteq> None" using u by (simp_all add: openControl_def new_daemon_def clampPipes_def)
  then have "loaded e" using start_loads [OF st] u e(1) by (simp add: marks_def)
  then show "\<not> pinned h'" using e(2) by (simp add: stop_def Let_def)
qed

theorem second_daemon_witness:
  "main offline (demo_boot\<lparr>answered := True\<rparr>) [] demo_args (clean\<lparr>pinned := True\<rparr>) = Some (1, clean\<lparr>pinned := True\<rparr>)"
  using second_daemon [OF demo_options, of "demo_boot\<lparr>answered := True\<rparr>" offline "[]" "clean\<lparr>pinned := True\<rparr>"]
  by (simp add: demo_boot_def default_options_def BNCL_CTL_SOCK_def lit_def)



end
