(* ===== verification/Loop.thy ===== *)
theory Loop
  imports Life Cycle
begin

text \<open>
  The event loop of \<open>src/src/daemon/main.cpp\<close> over any run: clients act between the daemon's steps, requests and commands arrive in any order.
\<close>

section \<open>The invariant\<close>

text \<open>
  The daemon's records are as \<open>daemon_ok\<close> says, nothing waits to be retired, and every pipe the daemon listens on points at a record that is there, if at any.
\<close>

definition serving :: "daemon \<Rightarrow> (nat \<rightharpoonup> entry) \<Rightarrow> bool" where
  "serving d R \<longleftrightarrow> daemon_ok d R \<and> orphans d = [] \<and> (\<forall>p st sql pay. R p = Some (st, sql, pay) \<longrightarrow> sql \<noteq> []) \<and> (\<forall>s\<in>fst ` set (known d). 0 \<notin> set s)
     \<and> (\<forall>fd key rec p. map_of (key_of_fd d) fd = Some key \<longrightarrow> array_lookup (dpipes (d_maps d)) key = Some rec \<longrightarrow> dp_stmt rec = Some p \<longrightarrow> R p \<noteq> None)"

lemma serving_cong:
  assumes "serving d R" "owns (d_arena d') R'" "known d' = known d" "orphans d' = orphans d" "next_id d' = next_id d" "key_of_fd d' = key_of_fd d"
    and pipe: "\<And>key rec p. array_lookup (dpipes (d_maps d')) key = Some rec \<Longrightarrow> dp_stmt rec = Some p \<Longrightarrow> R p \<noteq> None \<or> (\<exists>rec'. array_lookup (dpipes (d_maps d)) key = Some rec' \<and> dp_stmt rec' = Some p)"
    and "\<And>p st sql pay. R p = Some (st, sql, pay) \<Longrightarrow> \<exists>st' pay'. R' p = Some (st', sql, pay') \<and> (0 < stmt_refs st \<longrightarrow> 0 < stmt_refs st')"
    and "\<And>p. R p = None \<Longrightarrow> R' p = None"
  shows "serving d' R'"
proof -
  have live: "R' p \<noteq> None" if "R p \<noteq> None" for p using assms(8) [of p] that by fastforce
  have text_kept: "sql \<noteq> []" if "R' p = Some (st, sql, pay)" for p st sql pay
  proof -
    have "R p \<noteq> None" using assms(9) [of p] that by (cases "R p") simp_all
    then obtain st0 sql0 pay0 where "R p = Some (st0, sql0, pay0)" by auto
    then show ?thesis using assms(8) [of p] assms(1) that by (fastforce simp: serving_def)
  qed
  have rec: "length sql < BNCL_STMT_MAX \<and> (\<exists>st pay. R' p = Some (st, sql, pay) \<and> 0 < stmt_refs st)" if "(sql, p) \<in> set (known d')" for sql p
  proof -
    have "(sql, p) \<in> set (known d)" using that assms(3) by simp
    then obtain st pay where "length sql < BNCL_STMT_MAX" "R p = Some (st, sql, pay)" "0 < stmt_refs st" using assms(1) by (fastforce simp: serving_def daemon_ok_def)
    then show ?thesis using assms(8) [of p st sql pay] by auto
  qed
  have "daemon_ok d' R'" using assms(1-5) rec live by (auto simp: serving_def daemon_ok_def)
  moreover have "R' p \<noteq> None" if "map_of (key_of_fd d') fd = Some key" "array_lookup (dpipes (d_maps d')) key = Some rec" "dp_stmt rec = Some p" for fd key rec p
    using pipe [OF that(2,3)] live [of p] assms(1,6) that(1) unfolding serving_def by metis
  ultimately show ?thesis using assms(1) assms(3,4) text_kept unfolding serving_def by simp
qed

lemma serving_text: "serving d R \<Longrightarrow> \<forall>p st sql pay. R p = Some (st, sql, pay) \<longrightarrow> sql \<noteq> []"
  unfolding serving_def by (elim conjE)

lemma serving_pipe:
  assumes "serving d R" "map_of (key_of_fd d) fd = Some key" "array_lookup (dpipes (d_maps d)) key = Some rec" "dp_stmt rec = Some p"
  obtains st sql pay where "R p = Some (st, sql, pay)"
proof -
  have "\<forall>fd key rec p. map_of (key_of_fd d) fd = Some key \<longrightarrow> array_lookup (dpipes (d_maps d)) key = Some rec \<longrightarrow> dp_stmt rec = Some p \<longrightarrow> R p \<noteq> None"
    using assms(1) unfolding serving_def by (elim conjE)
  then have "R p \<noteq> None" using assms(2-4) by blast
  then show thesis using that by (cases "R p") auto
qed

section \<open>The daemon's steps\<close>

lemma serving_tick:
  assumes "serving d R" "now < 2 ^ 64"
  shows "\<exists>d'. tick now d = Some d' \<and> serving d' R"
proof -
  have ok: "daemon_ok d R" "orphans d = []" using assms(1) by (simp_all add: serving_def)
  obtain d' where t: "tick now d = Some d'" "daemon_ok d' R" "orphans d' = []" "known d' = known d"
    using tick_spec [OF ok(1) assms(2)] ok(2) by (auto simp: restrict_map_def)
  have f: "key_of_fd d' = key_of_fd d" "dpipes (d_maps d') = dpipes (d_maps d)" using fixed_tick [OF t(1)] by (simp_all add: fixed_def)
  have "serving d' R" using assms(1) t(2-4) f by (simp add: serving_def)
  then show ?thesis using t(1) by blast
qed

lemma readExactly_length: "readExactly n input = Some (bs, rest) \<Longrightarrow> length bs = n"
proof (induction n input arbitrary: bs rest rule: readExactly.induct)
  case (2 n r rs)
  show ?case
  proof (cases "n = 0")
    case False
    then obtain cs where r: "r = Got cs" "cs \<noteq> []" using "2.prems" by (cases r) (auto split: if_splits)
    show ?thesis
    proof (cases "length cs \<le> n")
      case True
      then obtain ds where d: "readExactly (n - length cs) rs = Some (ds, rest)" "bs = cs @ ds" using "2.prems" False r by auto
      have "length ds = n - length cs" by (rule "2.IH" [OF False r True d(1)])
      then show ?thesis using d(2) True by simp
    next
      case L: False
      then have "bs = take n cs" using "2.prems" False r by simp
      then show ?thesis using L by simp
    qed
  qed (use 2 in simp)
qed (simp split: if_splits)

lemma serving_store:
  assumes s: "serving d R" and key: "map_of (key_of_fd d) fd = Some key" and body: "length body \<le> BNCL_STORE_MAX" and now: "now < 2 ^ 64" "now' < 2 ^ 64"
  shows "\<exists>b d' R'. store key body now now' d = Some (b, d') \<and> serving d' R'"
proof (cases "case array_lookup (dpipes (d_maps d)) key of None \<Rightarrow> None | Some rec \<Rightarrow> dp_stmt rec")
  case None
  then have "store key body now now' d = Some (False, d)" by (auto simp: store_def split: option.splits)
  then show ?thesis using s by blast
next
  case (Some p)
  then obtain rec where r: "array_lookup (dpipes (d_maps d)) key = Some rec" "dp_stmt rec = Some p" by (auto split: option.splits)
  obtain st sql pay where e: "R p = Some (st, sql, pay)" "sql \<noteq> []" using serving_pipe [OF s key r] serving_text [OF s] by metis
  have own: "owns (d_arena d) R" using s by (simp add: serving_def daemon_ok_def)
  have rf: "owns (d_arena (refuse d)) R" using own by (simp add: refuse_def)
  obtain b d' R' where u: "store key body now now' d = Some (b, d')" "owns (d_arena d') R'" "R' = R \<or> (\<exists>q. R' = R(p \<mapsto> (with_payload q (length body) now' (u32_of_int (o_ttl (opt d))) st, sql, body)))"
    using store_spec [OF own e now r body] own rf by (elim exE disjE conjE) blast+
  obtain v a c where f: "d' = d\<lparr>d_valkey := v, d_arena := a, cnt := c\<rparr>" using store_frame [OF u(1)] by blast
  have "serving d' R'" by (rule serving_cong [OF s u(2)]) (use u(3) e f in \<open>auto simp: with_payload_def\<close>)
  then show ?thesis using u(1) by blast
qed

lemma serving_resolve:
  assumes s: "serving d R" and e: "R p = Some (st, sql, pay)" and now: "now < 2 ^ 64" "now' < 2 ^ 64"
  shows "\<exists>a d' R'. resolve p now now' d = Some (a, d') \<and> serving d' R'"
proof -
  have own: "owns (d_arena d) R" using s by (simp add: serving_def daemon_ok_def)
  have ne: "sql \<noteq> []" using serving_text [OF s] e by blast
  obtain x d' R' where u: "resolve p now now' d = Some (x, d')" "owns (d_arena d') R'"
    "R' = R \<or> (\<exists>q body ts. R' = R(p \<mapsto> (with_payload q (length body) ts (u32_of_int (o_ttl (opt d))) st, sql, body))) \<or> R' = R(p \<mapsto> (forgotten st, sql, []))"
    using resolve_spec [OF own e ne now] by (elim exE disjE conjE) blast+
  obtain v a where f: "d' = d\<lparr>d_valkey := v, d_arena := a\<rparr>" using resolve_frame [OF u(1)] by blast
  have "serving d' R'" by (rule serving_cong [OF s u(2)]) (use u(3) e f in \<open>auto simp: with_payload_def forgotten_def\<close>)
  then show ?thesis using u(1) by blast
qed

lemma serving_frame:
  "serving d R \<Longrightarrow> serving (d\<lparr>cnt := c\<rparr>) R" "serving d R \<Longrightarrow> serving (d\<lparr>replies := q\<rparr>) R" "serving d R \<Longrightarrow> serving (d\<lparr>local_on := l\<rparr>) R"
  "serving d R \<Longrightarrow> serving (d\<lparr>d_valkey := v\<rparr>) R" "serving d R \<Longrightarrow> serving (d\<lparr>d_maps := (d_maps d)\<lparr>pipe_sk_info_map := im\<rparr>\<rparr>) R"
  "serving d R \<Longrightarrow> serving (d\<lparr>d_maps := (d_maps d)\<lparr>cfg := cf\<rparr>\<rparr>) R"
  by (simp_all add: serving_def daemon_ok_def)

lemma serving_status: "serving d R \<Longrightarrow> serving (send_reply fd x i (count_status y d)) R"
  by (cases y) (simp_all add: send_reply_def count_status_def serving_frame)

lemma serving_serve:
  assumes s: "serving d R" and now: "now < 2 ^ 64" "now' < 2 ^ 64"
  shows "\<exists>d' R'. serve fd input sp now now' d = Some d' \<and> serving d' R'"
proof (cases "readExactly 8 input")
  case None
  then show ?thesis using s by (auto simp: serve_def)
next
  case (Some hi)
  obtain hdr rest where h: "readExactly 8 input = Some (hdr, rest)" using Some by (cases hi) simp
  show ?thesis
  proof (cases "map_of (key_of_fd d) fd")
    case None
    then show ?thesis using s h by (auto simp: serve_def)
  next
    case (Some key)
    let ?len = "le (drop 4 hdr)"
    show ?thesis
    proof (cases "le (take 4 hdr) = BNCL_REQ_STORE")
      case True
      show ?thesis
      proof (cases "?len = 0 \<or> ?len > BNCL_STORE_MAX \<or> readExactly ?len rest = None")
        case bad: True
        then have "serve fd input sp now now' d = Some d" using h Some True by (auto simp: serve_def Let_def)
        then show ?thesis using s by blast
      next
        case False
        then obtain body rest' where b: "readExactly ?len rest = Some (body, rest')" "?len \<noteq> 0" "?len \<le> BNCL_STORE_MAX" by auto
        have "length body \<le> BNCL_STORE_MAX" using readExactly_length [OF b(1)] b(3) by simp
        then obtain x d' R' where "store key body now now' d = Some (x, d')" "serving d' R'" using serving_store [OF s Some _ now] by blast
        then show ?thesis using h Some True b by (auto simp: serve_def)
      qed
    next
      case False
      let ?go = "serve fd input sp now now' d"
      show ?thesis
      proof (cases "array_lookup (dpipes (d_maps d)) key = None \<or> byKey (d_pool d) key = None \<or> \<not> sp")
        case True
        then show ?thesis using s h Some False by (auto simp: serve_def split: option.split)
      next
        case go: False
        then obtain rec pi where r: "array_lookup (dpipes (d_maps d)) key = Some rec" "byKey (d_pool d) key = Some pi" sp by auto
        let ?d = "d\<lparr>d_maps := (d_maps d)\<lparr>pipe_sk_info_map := AList.update (nat (p_sfd pi)) \<lparr>si_key = key, si_paired = 1\<rparr> (pipe_sk_info_map (d_maps d))\<rparr>\<rparr>"
        have s': "serving ?d R" by (rule serving_frame(5) [OF s])
        show ?thesis
        proof (cases "dp_stmt rec")
          case None
          then have "?go = Some (send_reply fd AGENT_CACHE_ERROR 0 (count_status AGENT_CACHE_ERROR ?d))" using h Some False r by (simp add: serve_def)
          then show ?thesis using serving_status [OF s'] by blast
        next
          case (Some p)
          obtain st sql pay where e: "R p = Some (st, sql, pay)" using serving_pipe [OF s \<open>map_of (key_of_fd d) fd = Some key\<close> r(1) Some] by blast
          obtain x d' R' where u: "resolve p now now' ?d = Some (x, d')" "serving d' R'" using serving_resolve [OF s' e now] by blast
          then have "?go = Some (send_reply fd x (stmt_id (rec_at d' p)) (count_status x d'))"
            using h \<open>map_of (key_of_fd d) fd = Some key\<close> False r Some by (simp add: serve_def)
          then show ?thesis using serving_status [OF u(2)] by blast
        qed
      qed
    qed
  qed
qed

text \<open>A report reads the shared tier and walks the retired blocks.\<close>

lemma owns_retired:
  assumes "owns a R"
  shows "\<exists>n. retired a = Some n"
proof -
  obtain C where "heap.objects a C" using assms by (rule ownsE)
  then obtain V where "in_use a V" unfolding heap.objects_def by blast
  then show ?thesis using retired_count by (auto simp: in_use_def)
qed

lemma serving_stats:
  assumes s: "serving d R"
  shows "\<exists>f d'. stats now d = Some (f, d') \<and> serving d' R"
proof -
  obtain up v where u: "valkeyUp d = (up, d\<lparr>d_valkey := v\<rparr>)" using valkeyUp_frame [of d] by (cases "valkeyUp d") auto
  have "owns (d_arena d) R" using s by (simp add: serving_def daemon_ok_def)
  then obtain n where n: "retired (d_arena d) = Some n" using owns_retired by blast
  show ?thesis using u n serving_frame(4) [OF s] by (auto simp: stats_def Let_def case_prod_beta split: if_splits)
qed

text \<open>A reload that takes no statement off the list, and no line of it has a zero byte.\<close>

definition grows :: "daemon \<Rightarrow> bytes option \<Rightarrow> bool" where
  "grows d lf \<longleftrightarrow> (\<forall>l. load empty_list (o_stmt_list (opt d)) lf = Inr l \<longrightarrow> fst ` set (known d) \<subseteq> set (stmts l) \<and> (\<forall>s\<in>set (stmts l). 0 \<notin> set s))"

lemma reload_keeps_pointers:
  assumes ok: "daemon_ok d R" and k: "fst ` set (known d) \<subseteq> fst ` set (known d')" "\<forall>(s, p)\<in>set (known d'). from_list d R R' s p"
  shows "snd ` set (known d) \<subseteq> snd ` set (known d')"
proof
  fix p assume "p \<in> snd ` set (known d)"
  then obtain s where s: "(s, p) \<in> set (known d)" by auto
  have "distinct (map fst (known d))" using ok by (simp add: daemon_ok_def)
  then have m: "map_of (known d) s = Some p" using s by (rule map_of_is_SomeI)
  have "s \<in> fst ` set (known d')" using s k(1) by force
  then obtain p' where p': "(s, p') \<in> set (known d')" by auto
  then have "from_list d R R' s p'" using k(2) by blast
  then have "p' = p" using m by (simp add: from_list_def)
  then show "p \<in> snd ` set (known d')" using p' by force
qed

lemma built_kept: "built d R R1 \<Longrightarrow> R p = Some (st, sql, pay) \<Longrightarrow> \<exists>st' pay'. R1 p = Some (st', sql, pay')"
proof -
  assume b: "built d R R1" and p: "R p = Some (st, sql, pay)"
  consider "R1 p = R p" | s where "from_list d R R1 s p" using b unfolding built_def by blast
  then show ?thesis using p by cases (auto simp: from_list_def split: option.splits)
qed

lemma list_nonempty: "load empty_list path lf = Inr l \<Longrightarrow> [] \<notin> set (stmts l)"
  using loadLines_spec [of empty_list] by (auto simp: load_def stmtList_ok_def empty_list_def split: option.splits)

lemma serving_reload:
  assumes s: "serving d R" and g: "grows d lf" and now: "now < 2 ^ 64"
  shows "\<exists>b d' R'. loadStatements lf now d = Some (b, d') \<and> serving d' R'"
proof (cases "o_stmt_list (opt d) = [] \<or> (\<exists>err. load empty_list (o_stmt_list (opt d)) lf = Inl err)")
  case True
  then have "\<exists>b. loadStatements lf now d = Some (b, d)" by (auto simp: loadStatements_def)
  then show ?thesis using s by blast
next
  case False
  then obtain l where l: "o_stmt_list (opt d) \<noteq> []" "load empty_list (o_stmt_list (opt d)) lf = Inr l" by (cases "load empty_list (o_stmt_list (opt d)) lf") auto
  then obtain contents where c: "lf = Some contents" by (cases lf) (auto simp: load_def)
  have G: "fst ` set (known d) \<subseteq> set (stmts l)" "\<forall>s\<in>set (stmts l). 0 \<notin> set s" using g l(2) by (simp_all add: grows_def)
  have ok: "daemon_ok d R" "orphans d = []" "\<forall>s\<in>fst ` set (known d). 0 \<notin> set s" using s by (simp_all add: serving_def)
  have nul: "\<forall>s\<in>set (stmts l) \<union> fst ` set (known d). 0 \<notin> set s" using G(2) ok(3) by blast
  obtain b d' R' R1 where r: "loadStatements (Some contents) now d = Some (b, d')" "daemon_ok d' R'" "built d R R1"
    "\<forall>p. R' p = (if p \<in> snd ` set (known d) - snd ` set (known d') then released R1 p else R1 p)"
    "\<not> b \<longrightarrow> known d' = known d \<and> orphans d' = orphans d"
    "b \<longrightarrow> fst ` set (known d') = {s \<in> set (stmts l). length s < BNCL_STMT_MAX} \<and> (\<forall>(s, p)\<in>set (known d'). from_list d R R' s p)"
  proof (use reload_spec [OF ok(1) l(1) l(2) [unfolded c] nul now] in \<open>elim exE conjE\<close>, rule that, assumption, assumption, assumption, assumption, assumption)
  qed (simp add: case_prod_beta)
  have kept: "orphans d' = [] \<and> snd ` set (known d) \<subseteq> snd ` set (known d') \<and> fst ` set (known d') \<subseteq> set (stmts l)"
  proof (cases b)
    case True
    note O = grown_orphans [OF r(1) [unfolded eqTrueI [OF True]] l(1) l(2) [unfolded c] ok(1) G(2,1)]
    have "\<forall>(s, p)\<in>set (known d'). from_list d R R' s p" and names: "fst ` set (known d') = {s \<in> set (stmts l). length s < BNCL_STMT_MAX}" using r(6) True by blast+
    then have "snd ` set (known d) \<subseteq> snd ` set (known d')" by (intro reload_keeps_pointers [OF ok(1) O(2)])
    then show ?thesis using O(1) ok(2) names by auto
  next
    case False
    then show ?thesis using r(5) ok(2) G(1) by simp
  qed
  then have R': "R' p = R1 p" for p using r(4) by auto
  let ?R = "R' |` (dom R \<union> snd ` set (known d'))"
  have live: "?R p \<noteq> None" if "R p \<noteq> None" for p using that built_kept [OF r(3)] R' by (fastforce simp: restrict_map_def)
  have keys: "?R p = R' p" if "p \<in> snd ` set (known d')" for p using that by (simp add: restrict_map_def)
  have text_kept: "sql \<noteq> []" if e: "?R p = Some (st, sql, pay)" for p st sql pay
  proof (cases "R p")
    case None
    then have "p \<in> snd ` set (known d')" "R' p = Some (st, sql, pay)" using e by (auto simp: restrict_map_def split: if_splits)
    then obtain sql' where "(sql', p) \<in> set (known d')" by auto
    then have "sql' = sql" "sql' \<in> set (stmts l)" using r(2) \<open>R' p = Some (st, sql, pay)\<close> kept by (fastforce simp: daemon_ok_def)+
    then show ?thesis using list_nonempty [OF l(2)] by auto
  next
    case (Some e0)
    obtain st0 sql0 pay0 where e0: "R p = Some (st0, sql0, pay0)" using Some by (cases e0) auto
    moreover have "R' p = Some (st, sql, pay)" using e by (simp add: restrict_map_def split: if_splits)
    ultimately have "sql0 = sql" using built_kept [OF r(3) e0] R' by auto
    then show ?thesis using serving_text [OF s] e0 by blast
  qed
  have "owns (d_arena d') R'" using r(2) by (simp add: daemon_ok_def)
  then have "owns (d_arena d') ?R" by (rule owns_subset) (simp add: restrict_map_def split: if_splits)
  moreover have "length sq < BNCL_STMT_MAX \<and> (\<exists>st pay. ?R p = Some (st, sq, pay) \<and> 0 < stmt_refs st)" if "(sq, p) \<in> set (known d')" for sq p
  proof -
    have "?R p = R' p" using that by (intro keys) force
    then show ?thesis using r(2) that by (fastforce simp: daemon_ok_def)
  qed
  ultimately have D: "daemon_ok d' ?R" using r(2) kept by (auto simp: daemon_ok_def)
  have f: "key_of_fd d' = key_of_fd d" "dpipes (d_maps d') = dpipes (d_maps d)" using fixed_load [OF r(1)] by (simp_all add: fixed_def)
  have "?R p \<noteq> None" if a: "map_of (key_of_fd d') fd = Some key" "array_lookup (dpipes (d_maps d')) key = Some rec" "dp_stmt rec = Some p" for fd key rec p
    by (rule live, rule serving_pipe [OF s a(1) [unfolded f(1)] a(2) [unfolded f(2)] a(3)]) simp
  moreover have "\<forall>s\<in>fst ` set (known d'). 0 \<notin> set s" using kept G(2) by blast
  ultimately have "serving d' ?R" unfolding serving_def using D kept text_kept by blast
  then show ?thesis using r(1) c by blast
qed

lemma serving_cfgSet: "serving d R \<Longrightarrow> serving (cfgSet slot v d) R"
  by (simp add: cfgSet_def serving_frame split: option.split)

lemma serving_control:
  assumes s: "serving d R" and g: "grows d lf" and now: "now < 2 ^ 64"
  shows "\<exists>r d' R'. control line lf now d = Some (r, d') \<and> serving d' R'"
proof -
  obtain f d1 where st: "stats now d = Some (f, d1)" "serving d1 R" using serving_stats [OF s] by blast
  obtain b d2 R2 where ld: "loadStatements lf now d = Some (b, d2)" "serving d2 R2" using serving_reload [OF s g now] by blast
  have sv: "serving (cfgSet slot v (d2\<lparr>cnt := c\<rparr>)) R2" "serving (cfgSet slot v d) R" "serving (cfgSet slot v (d\<lparr>local_on := x\<rparr>)) R" for slot v c x
    using serving_cfgSet serving_frame s ld(2) by blast+
  show ?thesis
  proof (cases "line = []")
    case True
    then show ?thesis using s by (auto simp: control_def)
  next
    case False
    let ?cmd = "dropEol (takeWhile (\<lambda>b. b \<noteq> 0) line)"
    consider "?cmd = lit ''STATS''" "?cmd \<noteq> lit ''PING''" | "?cmd = lit ''RELOAD''" "?cmd \<notin> {lit ''PING'', lit ''STATS''}" | "?cmd \<noteq> lit ''STATS''" "?cmd \<noteq> lit ''RELOAD''"
      | "?cmd = lit ''PING''" by blast
    then show ?thesis
    proof cases
      case 1
      then show ?thesis using False st by (auto simp: control_def Let_def)
    next
      case 2
      then show ?thesis using False ld sv(1) by (cases b) (auto simp: control_def Let_def)
    next
      case 3
      note c = control_def [of line lf now d, unfolded Let_def]
      consider "?cmd = lit ''PING''" | "?cmd \<noteq> lit ''PING''" "?cmd = lit ''CLIENT on'' \<or> ?cmd = lit ''CLIENT off''"
        | "?cmd \<noteq> lit ''PING''" "\<not> (?cmd = lit ''CLIENT on'' \<or> ?cmd = lit ''CLIENT off'')" "?cmd = lit ''LOCAL on'' \<or> ?cmd = lit ''LOCAL off''"
        | "?cmd \<noteq> lit ''PING''" "\<not> (?cmd = lit ''CLIENT on'' \<or> ?cmd = lit ''CLIENT off'')" "\<not> (?cmd = lit ''LOCAL on'' \<or> ?cmd = lit ''LOCAL off'')" by blast
      then show ?thesis
      proof cases
        case 1
        then show ?thesis using c False s by simp blast
      next
        case 2
        have "\<exists>r d'. control line lf now d = Some (r, d') \<and> (\<exists>slot v. d' = cfgSet slot v d)"
          unfolding c if_not_P [OF False] if_not_P [OF 2(1)] if_not_P [OF 3(1)] if_not_P [OF 3(2)] if_P [OF 2(2)] by blast
        then show ?thesis using sv(2) by blast
      next
        case l: 3
        have "\<exists>r d'. control line lf now d = Some (r, d') \<and> (\<exists>slot v x. d' = cfgSet slot v (d\<lparr>local_on := x\<rparr>))"
          unfolding c if_not_P [OF False] if_not_P [OF l(1)] if_not_P [OF 3(1)] if_not_P [OF 3(2)] if_not_P [OF l(2)] if_P [OF l(3)] by blast
        then show ?thesis using sv(3) by blast
      next
        case l: 4
        show ?thesis
          unfolding c if_not_P [OF False] if_not_P [OF l(1)] if_not_P [OF 3(1)] if_not_P [OF 3(2)] if_not_P [OF l(2)] if_not_P [OF l(3)] using s by blast
      qed
    next
      case 4
      then show ?thesis using False s by (auto simp: control_def Let_def)
    qed
  qed
qed

section \<open>Runs\<close>

text \<open>
  What is asked of the rest of the world, along the run: clients leave a state in which the invariant holds, clocks fit their 64 bits, and a list that is reloaded keeps the statements there are: a pipe that has been given back
  still names its last record, so a record that leaves the list could be retired while a request on that pipe is unread.
\<close>

fun event_fits :: "event \<Rightarrow> daemon \<Rightarrow> bool" where
  "event_fits (Request fd input splice_ok now now') d \<longleftrightarrow> now < 2 ^ 64 \<and> now' < 2 ^ 64"
| "event_fits (Command line lf now) d \<longleftrightarrow> now < 2 ^ 64 \<and> grows d lf"

definition keeps :: "action \<Rightarrow> daemon \<Rightarrow> bool" where
  "keeps f d \<longleftrightarrow> ((\<exists>R. serving d R) \<longrightarrow> (\<exists>R. serving (act f d) R))"

fun orderly_events :: "(action \<times> event) list \<Rightarrow> daemon \<Rightarrow> bool" where
  "orderly_events [] d = True"
| "orderly_events ((f, e) # es) d \<longleftrightarrow> keeps f d \<and> event_fits e (act f d) \<and> (\<forall>d'. handle e (act f d) = Some d' \<longrightarrow> orderly_events es d')"

fun orderly :: "turn list \<Rightarrow> daemon \<Rightarrow> bool" where
  "orderly [] d = True"
| "orderly (r # rs) d \<longleftrightarrow> keeps (clients r) d \<and> tick_time r < 2 ^ 64
     \<and> (\<forall>d1. tick (tick_time r) (act (clients r) d) = Some d1 \<longrightarrow>
         (case waited r of
            WaitFailed \<Rightarrow> True
          | Interrupted \<Rightarrow> orderly rs d1
          | Ready es \<Rightarrow> orderly_events es d1 \<and> (\<forall>d2. handleAll es d1 = Some d2 \<longrightarrow> orderly rs d2)))"

lemma handle_serves:
  assumes s: "serving d R" and f: "event_fits e d"
  shows "\<exists>d' R'. handle e d = Some d' \<and> serving d' R'"
proof (cases e)
  case (Request fd input splice_ok now now')
  then show ?thesis using serving_serve [OF s] f by simp
next
  case (Command line lf now)
  show ?thesis
  proof (cases line)
    case None
    then show ?thesis using s Command by auto
  next
    case (Some l)
    obtain r d' R' where "control l lf now d = Some (r, d')" "serving d' R'" using serving_control [OF s] f Command by auto blast
    then show ?thesis using Command Some by auto
  qed
qed

lemma handleAll_serves: "serving d R \<Longrightarrow> orderly_events es d \<Longrightarrow> \<exists>d' R'. handleAll es d = Some d' \<and> serving d' R'"
proof (induction es d arbitrary: R rule: handleAll.induct)
  case (2 f e es d)
  obtain R1 where "serving (act f d) R1" "event_fits e (act f d)" using "2.prems" by (auto simp: keeps_def)
  then obtain d1 R2 where h: "handle e (act f d) = Some d1" "serving d1 R2" using handle_serves by blast
  then have "orderly_events es d1" using "2.prems"(2) by simp
  from "2.IH" [OF h this] show ?case using h(1) by simp
qed auto

lemma run_serves: "serving d R \<Longrightarrow> orderly rs d \<Longrightarrow> \<exists>d' R'. run rs d = Some d' \<and> serving d' R'"
proof (induction rs d arbitrary: R rule: run.induct)
  case (2 r rs d)
  obtain R1 where "serving (act (clients r) d) R1" "tick_time r < 2 ^ 64" using "2.prems" by (auto simp: keeps_def)
  then obtain d1 where t: "tick (tick_time r) (act (clients r) d) = Some d1" "serving d1 R1" using serving_tick by blast
  show ?case
  proof (cases "waited r")
    case (Ready es)
    have o: "orderly_events es d1" using "2.prems"(2) t(1) Ready by simp
    obtain d2 R2 where h: "handleAll es d1 = Some d2" "serving d2 R2" using handleAll_serves [OF t(2) o] by blast
    have "orderly rs d2" using "2.prems"(2) t(1) Ready h(1) by simp
    from "2.IH"(1) [OF t(1) Ready h this] show ?thesis using t(1) Ready h(1) by simp
  next
    case Interrupted
    have "orderly rs d1" using "2.prems"(2) t(1) Interrupted by simp
    from "2.IH"(2) [OF t(1) Interrupted t(2) this] show ?thesis using t(1) Interrupted by simp
  next
    case WaitFailed
    then show ?thesis using t by auto
  qed
qed auto

section \<open>What agents do\<close>

text \<open>Taking a pipe and giving it back keep the invariant: the record a pipe is pointed at is there, and the daemon's own reference keeps a listed record alive.\<close>

lemma acquire_keeps:
  assumes s: "serving d R" "at_rest s R (ks @ [key])" "under d s = d" and q: "pipe_room s key" "findStmt sql s = Some p" "R p = Some (st, sql, pay)" "0 < stmt_refs st" "stmt_refs st < 2 ^ 32 - 1"
  shows "\<exists>s'. acquire True True now now' sql sock s = (Some key, s') \<and> serving (under d s') (R(p \<mapsto> (bump st, sql, pay)))"
proof -
  obtain s' where a: "acquire True True now now' sql sock s = (Some key, s')" "at_rest s' (R(p \<mapsto> (bump st, sql, pay))) ks"
    by (rule acquire_at_rest [OF s(2) q])
  obtain C where r: "ready s C ks key p st" by (rule at_rest_ready [OF s(2) q(1,3-5)])
  have m: "dpipes (sh_maps s') = (dpipes (sh_maps s))[key := (dpipes (sh_maps s) ! key)\<lparr>dp_stmt := Some p, dp_in_use := 1\<rparr>]"
    using a(1) acquire_claimed [OF r q(2)] by (auto simp: claimed_def Let_def)
  have d: "d_maps d = sh_maps s" using s(3) by (metis daemon.select_convs under_def daemon.surjective daemon.update_convs)
  have "serving (under d s') (R(p \<mapsto> (bump st, sql, pay)))"
  proof (rule serving_cong [OF s(1)])
    show "R x \<noteq> None \<or> (\<exists>rec'. array_lookup (dpipes (d_maps d)) k = Some rec' \<and> dp_stmt rec' = Some x)"
      if "array_lookup (dpipes (d_maps (under d s'))) k = Some rec" "dp_stmt rec = Some x" for k rec x
      using that q(3) m d by (cases "k = key") (auto simp: under_def array_lookup_def nth_list_update split: if_splits)
  qed (use a(2) q(3) in \<open>auto simp: under_def at_rest_def bump_def\<close>)
  then show ?thesis using a(1) by blast
qed

lemma release_keeps:
  assumes s: "serving d R" "at_rest s R ks" "under d s = d" and q: "R p = Some (st, sql, pay)" "1 < stmt_refs st" "array_lookup (dpipes (sh_maps s)) key = Some rec" "dp_stmt rec = Some p"
    "key \<notin> set ks" "length ks < length (dpipe_freelist (sh_maps s))"
  shows "serving (under d (release now sock key s)) (R(p \<mapsto> (st\<lparr>stmt_refs := stmt_refs st - 1\<rparr>, sql, pay)))"
proof -
  have "0 < stmt_refs st" using q(2) by simp
  note r = release_at_rest [OF s(2) q(1) this q(3-6), where now = now and sock = sock]
  have d: "d_maps d = sh_maps s" using s(3) by (metis daemon.select_convs under_def daemon.surjective daemon.update_convs)
  show ?thesis by (rule serving_cong [OF s(1)]) (use r(1,2) q(1,2) d in \<open>auto simp: under_def at_rest_def\<close>)
qed

section \<open>A started daemon serves\<close>

lemma ready_serves:
  assumes p: "published_list S d" "[] \<notin> S" "\<forall>s\<in>S. 0 \<notin> set s" and n: "pipes_ready n d"
  shows "\<exists>R. serving d R"
proof -
  obtain R where R: "daemon_ok d R" "orphans d = []" "fst ` set (known d) = S" using p(1) by (auto simp: published_list_def)
  let ?R = "R |` (snd ` set (known d))"
  have "owns (d_arena d) ?R" by (rule owns_subset [of _ R]) (use R(1) in \<open>auto simp: daemon_ok_def restrict_map_def split: if_splits\<close>)
  moreover have "?R p = R p" if "(s, p) \<in> set (known d)" for s p using that by (force simp: restrict_map_def)
  ultimately have "daemon_ok d ?R" using R by (fastforce simp: daemon_ok_def)
  moreover have "sql \<noteq> []" if "?R p = Some (st, sql, pay)" for p st sql pay
  proof -
    have q: "p \<in> snd ` set (known d)" "R p = Some (st, sql, pay)" using that by (simp_all add: restrict_map_def split: if_splits)
    then obtain s where s: "(s, p) \<in> set (known d)" by auto
    then have "sql = s" using R(1) q(2) by (fastforce simp: daemon_ok_def)
    then show ?thesis using s R(3) p(2) by force
  qed
  moreover have "dp_stmt rec = None" if "map_of (key_of_fd d) fd = Some key" "array_lookup (dpipes (d_maps d)) key = Some rec" for fd key rec
    using n that unfolding pipes_ready_def array_lookup_def by (auto split: if_splits)
  moreover have "\<forall>s\<in>fst ` set (known d). 0 \<notin> set s" using R(3) p(3) by simp
  ultimately have "serving d ?R" using R(2) unfolding serving_def by (metis option.distinct(1))
  then show ?thesis by blast
qed

lemma listed_texts:
  assumes "\<forall>l. load empty_list (o_stmt_list o') (list_file b) = Inr l \<longrightarrow> (\<forall>s\<in>set (stmts l). 0 \<notin> set s)"
  shows "[] \<notin> listed b o'" "\<forall>s\<in>listed b o'. 0 \<notin> set s"
  using assms list_nonempty by (auto simp: listed_def split: sum.splits)

section \<open>Properties\<close>


text \<open>Three turns: an idle one, one with a lookup on the first pipe and a command, and an interrupted one.\<close>

definition demo_turns :: "turn list" where
  "demo_turns = [\<lparr>clients = id, tick_time = 10, waited = Ready []\<rparr>,
     \<lparr>clients = id, tick_time = 20, waited = Ready [(id, Request 101 [Got (replicate 8 0)] True 21 22), (id, Command (Some (lit ''RELOAD'')) None 23)]\<rparr>,
     \<lparr>clients = id, tick_time = 30, waited = Interrupted\<rparr>]"

lemma act_id: "act id d = d"
  by (simp add: act_def)

lemma demo_turns_orderly: "orderly demo_turns d"
  by (simp add: demo_turns_def keeps_def act_id grows_def load_def)


end
