(* ===== verification/AgentFrame.thy ===== *)
theory AgentFrame
  imports AgentSpec
begin

text \<open>
  What an agent leaves alone. An observation of the shared state that the client's three operations keep, \<open>lookupPayload\<close>, \<open>acquire\<close> and \<open>release\<close> of \<open>src/src/uclient/shared.cpp\<close>, is kept
  by every hook of \<open>src/src/uclient/agent.cpp\<close>, in whatever order the application calls them.
\<close>

section \<open>Calls of the application\<close>

datatype call = Write nat bool "bytes option" "nat \<Rightarrow> attempt" int nat nat bytes
  | Read attempt nat "(nat \<times> bytes) option" "nat \<Rightarrow> attempt" "bytes option" nat nat nat

fun call_hook :: "call \<Rightarrow> agent \<Rightarrow> agent" where
  "call_hook (Write now alive lf ts real ssl sock data) a = snd (rep_SSL_write now alive lf ts real ssl sock data a)"
| "call_hook (Read t now arr ts real ssl sock room) a = snd (rep_SSL_read t now arr ts real ssl sock room a)"

section \<open>The interface\<close>

lemma refresh_sh [simp]: "sh (refreshLocked now alive lf a) = sh a"
  by (simp add: refreshLocked_def Let_def split: option.split sum.split)

lemma put_conn_sh [simp]: "sh (put_conn ssl c a) = sh a"
  by (simp add: put_conn_def)

lemma drain_sh: "drain ssl room a = (out, a') \<Longrightarrow> sh a' = sh a"
  by (auto simp: drain_def split: option.splits prod.splits)

text \<open>Where the shared state can be after one statement of a write: after the lookup, after a failed \<open>acquire\<close>, or after a successful one.\<close>

lemma tryStatement_sh:
  assumes "tryStatement t ssl sock data sql c a = (b, c', a')"
  obtains "sh a' = sh a" "\<not> b" | s1 where "s1 = sh a \<or> s1 = snd (lookupPayload sql (t_look t) (sh a))" "sh a' = s1" "\<not> b"
  | s1 r s2 where "s1 = sh a \<or> s1 = snd (lookupPayload sql (t_look t) (sh a))" "acquire (map_ok t) (store_ok t) (t_lock t) (t_relock t) sql sock s1 = (r, s2)"
      "if r = None then sh a' = s2 \<and> \<not> b else sh a' = s2 \<or> sh a' = release (t_release t) sock (the r) s2"
proof -
  obtain found s1 where f: "(if local_s a then let (r, s) = lookupPayload sql (t_look t) (sh a) in (r \<noteq> None, s) else (True, sh a)) = (found, s1)" by fastforce
  then have 1: "s1 = sh a \<or> s1 = snd (lookupPayload sql (t_look t) (sh a))" by (auto simp: Let_def case_prod_beta split: if_splits)
  obtain r s2 where q: "acquire (map_ok t) (store_ok t) (t_lock t) (t_relock t) sql sock s1 = (r, s2)" by (cases "acquire (map_ok t) (store_ok t) (t_lock t) (t_relock t) sql sock s1")
  have "sh a' = sh a \<and> \<not> b \<or> sh a' = s1 \<and> \<not> b \<or> (if r = None then sh a' = s2 \<and> \<not> b else sh a' = s2 \<or> sh a' = release (t_release t) sock (the r) s2)"
    using assms f q unfolding tryStatement_def by (simp add: Let_def split: if_splits option.splits) (auto split: if_splits)
  then show thesis using that(1) that(2) [OF 1] that(3) [OF 1 q] by blast
qed

locale agent_frame =
  fixes obs :: "shared \<Rightarrow> 'o"
  assumes obs_lookup: "lookupPayload sql now s = (r, s') \<Longrightarrow> obs s' = obs s"
    and obs_acquire: "acquire mo so now now' sql sock s = (k, s') \<Longrightarrow> obs s' = obs s"
    and obs_release: "obs (release now sock key s) = obs s"
begin

lemma obs_try: "tryStatement t ssl sock data sql c a = (b, c', a') \<Longrightarrow> obs (sh a') = obs (sh a)"
  by (erule tryStatement_sh) (auto simp: obs_release obs_lookup [OF surjective_pairing] dest!: obs_acquire split: if_splits)

lemma obs_loop: "handleLoop ts i ssl sock data sql c a = (b, c', a') \<Longrightarrow> obs (sh a') = obs (sh a)"
proof (induction ts i ssl sock data sql c a rule: handleLoop.induct)
  case (1 ts i ssl sock data sql c a)
  obtain b1 c1 a1 where t: "tryStatement (ts i) ssl sock data sql (realign c) a = (b1, c1, a1)" by (cases "tryStatement (ts i) ssl sock data sql (realign c) a")
  obtain q rq where n: "request_next (c_req c1) = (q, rq)" by (cases "request_next (c_req c1)")
  show ?case
  proof (cases "b1 \<or> q = None")
    case True
    then have "sh a' = sh a1" using "1.prems" t n by (cases b1) (auto simp: handleLoop.simps [of ts i])
    then show ?thesis using obs_try [OF t] by simp
  next
    case False
    then obtain sql' where q: "q = Some sql'" by auto
    have h: "handleLoop ts (i + 1) ssl sock data sql' (c1\<lparr>c_req := rq\<rparr>) a1 = (b, c', a')" using "1.prems" t False n q by (simp add: handleLoop.simps [of ts i])
    show ?thesis using "1.IH" [OF t [symmetric] _ refl n [symmetric] q h] False obs_try [OF t] by simp
  qed
qed

lemma obs_write: "handleWrite now alive lf ts ssl sock data a = (b, a') \<Longrightarrow> obs (sh a') = obs (sh a)"
  by (auto simp: handleWrite_def Let_def dest: obs_loop split: option.splits prod.splits)

lemma obs_publish: "obs (sh (publish t sql sock canon a)) = obs (sh a)"
  using obs_acquire [OF surjective_pairing] by (simp add: publish_def Let_def case_prod_beta obs_release split: option.split prod.split)

lemma obs_ended: "responseEnded t c a = (c', a') \<Longrightarrow> obs (sh a') = obs (sh a)"
  by (auto simp: responseEnded_def Let_def obs_publish split: if_splits option.splits)

lemma obs_observeLoop: "observeLoop ts i c a = (c', a') \<Longrightarrow> obs (sh a') = obs (sh a)"
proof (induction ts i c a rule: observeLoop.induct)
  case (1 ts i c a)
  show ?case
  proof (cases "reader_next (c_rd c)")
    case None
    then show ?thesis using "1.prems" by (simp add: observeLoop.simps [of ts i])
  next
    case (Some mr)
    obtain m rd where mr: "(m, rd) = mr" by (cases mr) simp
    obtain d r where f: "response_feed (c_resp c) m = (d, r)" by (cases "response_feed (c_resp c) m")
    show ?thesis
    proof (cases d)
      case True
      obtain c1 a1 where e: "responseEnded (ts i) (c\<lparr>c_rd := rd, c_resp := r\<rparr>) a = (c1, a1)" by (cases "responseEnded (ts i) (c\<lparr>c_rd := rd, c_resp := r\<rparr>) a")
      then have h: "observeLoop ts (i + 1) c1 a1 = (c', a')" using "1.prems" Some f True unfolding mr [symmetric] by (simp add: observeLoop.simps [of ts i])
      show ?thesis using "1.IH"(1) [OF Some mr f [symmetric] _ e [symmetric] h] True obs_ended [OF e] by simp
    next
      case False
      then have h: "observeLoop ts i (c\<lparr>c_rd := rd, c_resp := r\<rparr>) a = (c', a')" using "1.prems" Some f unfolding mr [symmetric] by (simp add: observeLoop.simps [of ts i])
      show ?thesis using "1.IH"(2) [OF Some mr f [symmetric] _ h] False by simp
    qed
  qed
qed

lemma obs_observe: "obs (sh (observe ts ssl sock data a)) = obs (sh a)"
  by (auto simp: observe_def Let_def dest: obs_observeLoop split: prod.split)

lemma obs_settle: "settle t now arr ssl room c a = (out, c', a') \<Longrightarrow> obs (sh a') = obs (sh a)"
  by (auto simp: settle_def giveUpPipe_def resend_def Let_def obs_release dest!: obs_lookup split: if_splits option.splits prod.splits)

lemma obs_read: "rep_SSL_read t now arr ts real ssl sock room a = (r, a') \<Longrightarrow> obs (sh a') = obs (sh a)"
proof -
  assume r: "rep_SSL_read t now arr ts real ssl sock room a = (r, a')"
  obtain out c1 a1 where s: "settle t now arr ssl room (connFor ssl a) a = (out, c1, a1)" by (cases "settle t now arr ssl room (connFor ssl a) a")
  obtain out2 a2 where d: "drain ssl room (put_conn ssl c1 a1) = (out2, a2)" by (cases "drain ssl room (put_conn ssl c1 a1)")
  show ?thesis using r s d obs_settle [OF s] drain_sh [OF d] obs_observe by (auto simp: rep_SSL_read_def Let_def split: if_splits option.splits prod.splits)
qed

lemma obs_call: "obs (sh (call_hook c a)) = obs (sh a)"
proof (cases c)
  case (Write now alive lf ts real ssl sock data)
  then show ?thesis using obs_write [OF surjective_pairing] by (auto simp: rep_SSL_write_def case_prod_beta split: bool.split)
next
  case (Read t now arr ts real ssl sock room)
  then show ?thesis using obs_read [OF surjective_pairing] by simp
qed

lemma obs_calls: "obs (sh (fold call_hook cs a)) = obs (sh a)"
  by (induction cs arbitrary: a) (simp_all add: obs_call)

end

section \<open>What is the daemon's\<close>

text \<open>
  The statement map, the pipes' own sockets, the switches, the extent of every map, and the heap's bookkeeping: all that clients share and only the daemon may change.
\<close>

definition owned :: "shared \<Rightarrow> (bytes \<times> nat) list \<times> nat \<times> nat option list \<times> nat list \<times> nat list \<times> bool \<times> bool \<times> ctl" where
  "owned s = (stmts_map (sh_maps s), max_stmts (sh_maps s), dpipe_map (sh_maps s), cfg (sh_maps s),
     [length (dpipe_freelist (sh_maps s)), length (dpipes (sh_maps s)), length (cpipe_map (sh_maps s)), serial (dpipes_meta_map (sh_maps s))],
     mapped s, cfg_pin s, (ctl (sh_arena s))\<lparr>lock := 0, taken_ns := 0\<rparr>)"

lemma owned_simps [simp]: "owned (set_mem m s) = owned s" "owned (set_lock v s) = owned s" "owned (unlockPipes s) = owned s"
  by (simp_all add: owned_def set_mem_def set_lock_def unlockPipes_def)

lemma owned_lock: "lockPipes now s = (b, s') \<Longrightarrow> owned s' = owned s"
proof -
  have "lockLoop n now s = (b, s') \<Longrightarrow> owned s' = owned s" for n by (induction n) (auto simp: owned_def split: if_splits)
  then show "lockPipes now s = (b, s') \<Longrightarrow> owned s' = owned s" by (auto simp: lockPipes_def split: if_splits)
qed

lemma owned_push [simp]: "owned (s\<lparr>sh_maps := pushDpipe key (sh_maps s)\<rparr>) = owned s"
  by (auto simp: pushDpipe_def owned_def array_update_def Let_def)

lemma owned_giveBack [simp]: "owned (giveBack key s) = owned s"
  by (simp add: giveBack_def)

lemma owned_abandon [simp]: "owned (abandon now key s) = owned s"
  using owned_lock [of now s] by (auto simp: abandon_def split: prod.splits)

lemma owned_pop: "popDpipe (sh_maps s) = (r, m) \<Longrightarrow> owned (s\<lparr>sh_maps := m\<rparr>) = owned s"
  by (auto simp: popDpipe_def owned_def Let_def split: if_splits option.splits)

lemma owned_claim:
  assumes "claimPipe ref s = (r, s')"
  shows "owned s' = owned s"
proof -
  obtain k m where p: "popDpipe (sh_maps s) = (k, m)" by (cases "popDpipe (sh_maps s)")
  have e: "owned (set_mem y (s\<lparr>sh_maps := m\<rparr>)\<lparr>sh_maps := m\<lparr>dpipes := (dpipes m)[key := x]\<rparr>\<rparr>) = owned (s\<lparr>sh_maps := m\<rparr>)" for key x y
    by (simp add: set_mem_def owned_def)
  have f: "sh_maps (set_mem y z) = sh_maps z" for y z by (simp add: set_mem_def)
  show ?thesis using assms p owned_pop [OF p] e f by (auto simp: claimPipe_def Let_def split: option.splits if_splits prod.splits)
qed

lemma owned_splice: "owned (s\<lparr>sh_maps := (sh_maps s)\<lparr>cpipe_map := (cpipe_map (sh_maps s))[key := x]\<rparr>\<rparr>) = owned s" "owned (s\<lparr>sh_maps := (sh_maps s)\<lparr>cpipe_map := (cpipe_map (sh_maps s))[key := x], pipe_sk_info_map := im\<rparr>\<rparr>) = owned s"
  by (simp_all add: owned_def)

text \<open>How \<open>acquire\<close> ends: without a record, without the lock, without a pipe, without the splice, or with all of them.\<close>

lemma acquire_ends:
  assumes "acquire mo so now now' sql sock s = (k, s')"
  obtains "findStmt sql s = None" "k = None" "s' = s"
  | ref where "findStmt sql s = Some ref" "lockPipes now s = (False, s')" "k = None"
  | ref s1 where "findStmt sql s = Some ref" "lockPipes now s = (True, s1)" "claimPipe ref s1 = (None, s')" "k = None"
  | ref s1 key s2 where "findStmt sql s = Some ref" "lockPipes now s = (True, s1)" "claimPipe ref s1 = (Some key, s2)" "k = None" "s' = abandon now' key s2"
  | ref s1 key s2 where "findStmt sql s = Some ref" "lockPipes now s = (True, s1)" "claimPipe ref s1 = (Some key, s2)" "key < length (cpipe_map (sh_maps s2))" "k = None" "\<not> so"
      "s' = abandon now' key (s2\<lparr>sh_maps := (sh_maps s2)\<lparr>cpipe_map := (cpipe_map (sh_maps s2))[key := Some sock]\<rparr>\<rparr>)"
  | ref s1 key s2 s3 im where "findStmt sql s = Some ref" "lockPipes now s = (True, s1)" "claimPipe ref s1 = (Some key, s2)" "key < length (cpipe_map (sh_maps s2))" "k = Some key" so
      "s3 = s2\<lparr>sh_maps := (sh_maps s2)\<lparr>cpipe_map := (cpipe_map (sh_maps s2))[key := Some sock]\<rparr>\<rparr>" "s' = s3\<lparr>sh_maps := (sh_maps s3)\<lparr>pipe_sk_info_map := im\<rparr>\<rparr>"
proof (cases "findStmt sql s")
  case None
  then have "k = None" "s' = s" using assms by (simp_all add: acquire_def)
  then show ?thesis by (rule that(1) [OF None])
next
  case (Some ref)
  obtain locked s1 where l: "lockPipes now s = (locked, s1)" by (cases "lockPipes now s")
  obtain kk s2 where c: "claimPipe ref s1 = (kk, s2)" by (cases "claimPipe ref s1")
  show ?thesis
  proof (cases "locked \<and> kk \<noteq> None")
    case False
    show ?thesis
    proof (cases locked)
      case True
      then have "k = None" "s' = s2" "kk = None" using assms Some l c False by (auto simp: acquire_def)
      then show ?thesis using l c True by (intro that(3) [OF Some]) simp_all
    next
      case False
      then have "k = None" "s' = s1" using assms Some l by (simp_all add: acquire_def)
      then show ?thesis using l False by (intro that(2) [OF Some]) simp_all
    qed
  next
    case True
    then obtain key where k: "kk = Some key" locked by auto
    then have T: "findStmt sql s = Some ref" "lockPipes now s = (True, s1)" "claimPipe ref s1 = (Some key, s2)" using Some l c by simp_all
    let ?s = "s2\<lparr>sh_maps := (sh_maps s2)\<lparr>cpipe_map := (cpipe_map (sh_maps s2))[key := Some sock]\<rparr>\<rparr>"
    show ?thesis
    proof (cases "mo \<and> key < length (cpipe_map (sh_maps s2))")
      case False
      then have "(if mo then array_update (cpipe_map (sh_maps s2)) key (Some sock) else None) = None" by (simp add: array_update_def)
      then have "k = None" "s' = abandon now' key s2" using assms T by (simp_all add: acquire_def)
      then show ?thesis by (rule that(4) [OF T])
    next
      case True
      then have u: "mo" "key < length (cpipe_map (sh_maps s2))" by simp_all
      let ?im = "AList.update sock \<lparr>si_key = key, si_paired = 1\<rparr> (pipe_sk_info_map (sh_maps ?s))"
      have e: "(if so then (Some key, ?s\<lparr>sh_maps := (sh_maps ?s)\<lparr>pipe_sk_info_map := ?im\<rparr>\<rparr>) else (None, abandon now' key ?s)) = (k, s')"
        using assms T u by (cases so) (simp_all add: acquire_def array_update_def Let_def)
      show ?thesis
      proof (cases so)
        case True
        then have "k = Some key" "s' = ?s\<lparr>sh_maps := (sh_maps ?s)\<lparr>pipe_sk_info_map := ?im\<rparr>\<rparr>" using e by simp_all
        then show ?thesis using that(6) [OF T u(2)] True by blast
      next
        case False
        then have "k = None" "s' = abandon now' key ?s" using e by simp_all
        then show ?thesis using that(5) [OF T u(2)] False by blast
      qed
    qed
  qed
qed

lemma owned_acquire: "acquire mo so now now' sql sock s = (k, s') \<Longrightarrow> owned s' = owned s"
  by (erule acquire_ends) (auto simp: owned_splice dest!: owned_lock owned_claim)

lemma owned_release: "owned (release now sock key s) = owned s"
proof -
  let ?s = "s\<lparr>sh_maps := (sh_maps s)\<lparr>pipe_sk_info_map := AList.update sock \<lparr>si_key = 0, si_paired = 0\<rparr> (pipe_sk_info_map (sh_maps s)), cpipe_map := (cpipe_map (sh_maps s))[key := None]\<rparr>\<rparr>"
  have "owned ?s = owned s" by (simp add: owned_def)
  then show ?thesis using owned_lock [of now] by (auto simp: release_def Let_def split: option.split prod.split)
qed

lemma owned_lookup: "lookupPayload sql now s = (r, s') \<Longrightarrow> owned s' = owned s"
  by (auto simp: lookupPayload_def Let_def split: option.splits prod.splits if_splits)

interpretation owned: agent_frame owned
  by unfold_locales (rule owned_lookup owned_acquire owned_release, assumption?)+

section \<open>Properties\<close>


end
