(* ===== verification/Attach.thy ===== *)
theory Attach
  imports AgentFrame Startup
begin

text \<open>
  The agent's comings and goings: \<open>src/src/uclient/inject.cpp\<close>, which hands a process the agent and its argument, and what attaching, attaching again and detaching do to an agent
  that is already there.
\<close>

section \<open>The injector\<close>

text \<open>
  The arguments after the program's name. \<open>real\<close> is \<open>realpath\<close>, \<open>env\<close> the variable \<open>BARNACLE_LIST\<close> and \<open>inject\<close> Frida's injection of a library with an argument into a process.
  The result is the exit status and what was injected.
\<close>

definition AGENT_SO :: bytes where "AGENT_SO = lit ''./build/libbnclagent.so''"

definition inject_main ::
  "(bytes \<Rightarrow> bytes option) \<Rightarrow> bytes option \<Rightarrow> (nat \<Rightarrow> bytes \<Rightarrow> bytes \<Rightarrow> bool) \<Rightarrow> bytes list \<Rightarrow> nat \<times> (nat \<times> bytes \<times> bytes) option" where
  "inject_main real env inject args =
     (case args of
        [] \<Rightarrow> (1, None)
      | p # rest \<Rightarrow>
          let pid = u32_of_int (atoi p);
              so = (case rest of [] \<Rightarrow> AGENT_SO | s # _ \<Rightarrow> s)
          in case (if so \<noteq> [] \<and> hd so = 47 then Some so else real so) of
               None \<Rightarrow> (1, None)
             | Some path \<Rightarrow>
                 let data = (case rest of s # d # _ \<Rightarrow> d | _ \<Rightarrow> (case env of Some e \<Rightarrow> e | None \<Rightarrow> []))
                 in if inject pid path data then (0, Some (pid, path, data)) else (1, None))"

section \<open>An agent whose maps are not all there\<close>

text \<open>One of the maps \<open>acquire\<close> needs is empty.\<close>

definition crippled :: "shared \<Rightarrow> bool" where
  "crippled s \<longleftrightarrow> stmts_map (sh_maps s) = [] \<or> dpipe_freelist (sh_maps s) = [] \<or> dpipes (sh_maps s) = [] \<or> cpipe_map (sh_maps s) = []"

lemma crippled_owned: "owned s' = owned s \<Longrightarrow> crippled s' = crippled s"
  unfolding crippled_def owned_def prod.inject list.inject by (metis length_0_conv)

lemma open_failed:
  assumes "openShared q s = (False, s')"
  shows "crippled s' \<or> \<not> pin_there q ''pipe_sk_info_map''"
  using assms by (auto simp: openShared_def reachable_maps_def crippled_def no_maps_def Let_def split: option.splits if_splits)

lemma claim_needs:
  assumes "claimPipe ref s = (Some key, s')"
  shows "dpipe_freelist (sh_maps s) \<noteq> []" "dpipes (sh_maps s) \<noteq> []"
proof -
  obtain k m where p: "popDpipe (sh_maps s) = (k, m)" by (cases "popDpipe (sh_maps s)")
  have "k \<noteq> None \<Longrightarrow> dpipe_freelist (sh_maps s) \<noteq> [] \<and> dpipes m = dpipes (sh_maps s)" using p by (auto simp: popDpipe_def array_lookup_def Let_def split: if_splits)
  then show "dpipe_freelist (sh_maps s) \<noteq> []" "dpipes (sh_maps s) \<noteq> []"
    using assms p by (auto simp: claimPipe_def array_lookup_def Let_def split: option.splits if_splits)
qed

text \<open>While a map it needs is empty, or the kernel refuses the storage, the agent suppresses nothing.\<close>

lemma acquire_needs:
  assumes "acquire mo so now now' sql sock s = (Some key, s')"
  shows "so" "\<not> crippled s"
proof -
  have "so \<and> \<not> crippled s" using assms
  proof (cases rule: acquire_ends)
    case (6 ref s1 key' s2 s3 im)
    have st: "stmts_map (sh_maps s) \<noteq> []" using 6(1) by (auto simp: findStmt_def split: if_splits option.splits)
    have "crippled s1 = crippled s" "crippled s2 = crippled s" using owned_lock [OF 6(2)] owned_claim [OF 6(3)] crippled_owned by metis+
    moreover have "cpipe_map (sh_maps s2) \<noteq> []" using 6(4) by auto
    moreover have "cpipe_map (sh_maps s2) = [] \<longleftrightarrow> cpipe_map (sh_maps s1) = []" "stmts_map (sh_maps s1) = stmts_map (sh_maps s)"
      using owned_lock [OF 6(2)] owned_claim [OF 6(3)] by (auto simp: owned_def)
    ultimately show ?thesis using claim_needs [OF 6(3)] st 6(6) by (auto simp: crippled_def)
  qed simp_all
  then show "so" "\<not> crippled s" by auto
qed

lemma try_needs:
  assumes "tryStatement t ssl sock data sql c a = (True, c', a')"
  shows "store_ok t \<and> \<not> crippled (sh a)"
  using assms
proof (cases rule: tryStatement_sh)
  case (3 s1 r s2)
  have "crippled s1 = crippled (sh a)" using 3(1) crippled_owned owned_lookup [OF surjective_pairing] by metis
  moreover obtain key where "r = Some key" using 3(3) by (cases r) auto
  ultimately show ?thesis using acquire_needs 3(2) by blast
qed simp_all

lemma loop_needs: "handleLoop ts i ssl sock data sql c a = (True, c', a') \<Longrightarrow> (\<exists>j. store_ok (ts j)) \<and> \<not> crippled (sh a)"
proof (induction ts i ssl sock data sql c a rule: handleLoop.induct)
  case (1 ts i ssl sock data sql c a)
  obtain b1 c1 a1 where t: "tryStatement (ts i) ssl sock data sql (realign c) a = (b1, c1, a1)" by (cases "tryStatement (ts i) ssl sock data sql (realign c) a")
  obtain q rq where n: "request_next (c_req c1) = (q, rq)" by (cases "request_next (c_req c1)")
  show ?case
  proof (cases b1)
    case True
    then show ?thesis using try_needs t by fastforce
  next
    case False
    then obtain sql' where q: "q = Some sql'" using "1.prems" t n by (cases q) (auto simp: handleLoop.simps [of ts i])
    have h: "handleLoop ts (i + 1) ssl sock data sql' (c1\<lparr>c_req := rq\<rparr>) a1 = (True, c', a')" using "1.prems" t False n q by (simp add: handleLoop.simps [of ts i])
    show ?thesis using "1.IH" [OF t [symmetric] _ refl n [symmetric] q h] False crippled_owned [OF owned.obs_try [OF t]] by simp
  qed
qed

lemma write_needs: "handleWrite now alive lf ts ssl sock data a = (True, a') \<Longrightarrow> (\<exists>j. store_ok (ts j)) \<and> \<not> crippled (sh a)"
  by (auto simp: handleWrite_def Let_def dest!: loop_needs split: option.splits prod.splits)

lemma handleWrite_sent: "handleWrite now alive lf ts ssl sock data a = (b, a') \<Longrightarrow> to_server a' = to_server a"
  by (auto simp: handleWrite_def same_rest_def Let_def dest!: handleLoop_outcome split: option.splits prod.splits)

lemma attach_sel:
  assumes "load empty_list path lf = Inr l"
  shows "openShared q (sh a) = (False, s) \<Longrightarrow> attach g path lf q a = a\<lparr>list_path := path, list_s := l, sh := s\<rparr>"
    "openShared q (sh a) = (True, s) \<Longrightarrow> attach g path lf q a = a\<lparr>list_path := path, list_s := l, sh := s, ready_s := True, daemon_gone := False, on_s := True, next_poll_ns := 0,
       gen_s := (case cfgRead s of None \<Rightarrow> gen_s a | Some sw \<Rightarrow> generation sw), local_s := (case cfgRead s of None \<Rightarrow> local_s a | Some sw \<Rightarrow> sw_local_on sw \<noteq> 0),
       hooks_s := (if hooked_s a then hooks_s a else fold (hook g) [''SSL_write'', ''SSL_write_ex'', ''SSL_read'', ''SSL_read_ex''] (hooks_s a)),
       hooked_s := (hooked_s a \<or> 0 < length (fold (hook g) [''SSL_write'', ''SSL_write_ex'', ''SSL_read'', ''SSL_read_ex''] (hooks_s a)))\<rparr>"
  using assms by (simp_all add: attach_def Let_def split: option.split)

lemma hooks_installed: "length hs + length names \<le> 8 \<Longrightarrow> fold (hook g) names hs = hs @ filter (can_replace g) (List.map_filter (resolve_symbol g) names)"
  by (induction names arbitrary: hs) (auto simp: hook_def List.map_filter_def split: option.split)

lemma openShared_again: "openShared q s0 = (True, s) \<Longrightarrow> openShared q s = (True, s)"
  by (auto simp: openShared_def Let_def split: option.splits if_splits)

section \<open>Properties\<close>


definition no_gum :: gum where
  "no_gum = \<lparr>find_module = \<lambda>_. None, find_export = \<lambda>_ _. None, find_global = \<lambda>_. None, dl_sym = \<lambda>_. None, can_replace = \<lambda>_. False\<rparr>"

definition no_pins :: pins where
  "no_pins = \<lparr>pin_arena = None, pin_fixed = True, pin_there = \<lambda>n. n = ''pipe_sk_info_map'', pin_maps = demo_maps\<rparr>"

lemma demo_list: "load empty_list (list_for None [108]) (Some [65, 10]) = Inr \<lparr>stmts = [[65]], sl_index = {[65]}\<rparr>"
  unfolding list_for_def by code_simp


text \<open>
  C30: attaching arms the agent once and detaching disarms it. With a readable list and the daemon's maps there, an attach takes the list of the file, the daemon's maps, its generation and its
  local switch, and interception is on; a first attach replaces exactly the entry points that resolve and can be replaced, in order; a second one replaces nothing again, and the poll that follows
  finds the list current. Detaching puts every entry point back. No connection's state is touched by any of it.
\<close>

theorem attach_detach:
  assumes "arg \<noteq> DETACH" "load empty_list (list_for env arg) (files (list_for env arg)) = Inr l" "openShared q (sh a) = (True, s)" "hooked_s a \<longleftrightarrow> hooks_s a \<noteq> []"
  shows "let a1 = bncl_agent_init g files env q view arg a; a2 = bncl_agent_init g' files env q view arg a1; a3 = bncl_agent_init g files env q view DETACH a1;
       targets = filter (can_replace g) (List.map_filter (resolve_symbol g) [''SSL_write'', ''SSL_write_ex'', ''SSL_read'', ''SSL_read_ex''])
    in list_s a1 = l \<and> sh a1 = s \<and> on_s a1 \<and> \<not> daemon_gone a1 \<and> conns a1 = conns a \<and> spliced a1 = spliced a
      \<and> (case cfgRead s of None \<Rightarrow> True | Some sw \<Rightarrow> gen_s a1 = generation sw \<and> local_s a1 = (sw_local_on sw \<noteq> 0))
      \<and> (list_s (refreshLocked now alive lf a1) = l)
      \<and> hooks_s a1 = (if hooked_s a then hooks_s a else targets)
      \<and> (hooks_s a1 \<noteq> [] \<longrightarrow> hooks_s a2 = hooks_s a1)
      \<and> hooks_s a3 = [] \<and> \<not> hooked_s a3 \<and> (hooks_s a1 \<noteq> [] \<longrightarrow> \<not> on_s a3) \<and> conns a3 = conns a"
proof -
  let ?a1 = "bncl_agent_init g files env q view arg a" and ?path = "list_for env arg"
  let ?t = "filter (can_replace g) (List.map_filter (resolve_symbol g) [''SSL_write'', ''SSL_write_ex'', ''SSL_read'', ''SSL_read_ex''])"
  let ?f = "fold (hook g) [''SSL_write'', ''SSL_write_ex'', ''SSL_read'', ''SSL_read_ex''] (hooks_s a)"
  have f: "?f = ?t" if "\<not> hooked_s a" using that assms(4) by (subst hooks_installed) simp_all
  note A = attach_sel(2) [OF assms(2,3), of g]
  have i1: "?a1 = attach g ?path (files ?path) q a" using assms(1) by (simp add: bncl_agent_init_def Let_def)
  have sel: "list_s ?a1 = l" "sh ?a1 = s" "on_s ?a1" "\<not> daemon_gone ?a1" "conns ?a1 = conns a" "spliced ?a1 = spliced a" "next_poll_ns ?a1 = 0" "list_path ?a1 = ?path"
    "gen_s ?a1 = (case cfgRead s of None \<Rightarrow> gen_s a | Some sw \<Rightarrow> generation sw)" "local_s ?a1 = (case cfgRead s of None \<Rightarrow> local_s a | Some sw \<Rightarrow> sw_local_on sw \<noteq> 0)"
    unfolding i1 A by simp_all
  have h1: "hooks_s ?a1 = (if hooked_s a then hooks_s a else ?t)" "hooked_s ?a1 = (hooks_s ?a1 \<noteq> [])" unfolding i1 A using f assms(4) by auto
  have o2: "openShared q (sh ?a1) = (True, s)" unfolding sel(2) by (rule openShared_again [OF assms(3)])
  have h2: "hooks_s (bncl_agent_init g' files env q view arg ?a1) = hooks_s ?a1" if "hooks_s ?a1 \<noteq> []"
    using that assms(1) attach_sel(2) [OF assms(2) o2, of g'] h1(2) by (simp add: bncl_agent_init_def Let_def)
  have r: "list_s (refreshLocked now alive lf ?a1) = l" using sel by (simp add: refreshLocked_def Let_def split: option.split)
  have h3: "let a3 = bncl_agent_init g files env q view DETACH ?a1 in hooks_s a3 = [] \<and> \<not> hooked_s a3 \<and> (hooks_s ?a1 \<noteq> [] \<longrightarrow> \<not> on_s a3) \<and> conns a3 = conns a"
    using h1(2) sel(5) by (simp add: bncl_agent_init_def [of _ _ _ _ _ DETACH] unhookAll_def Let_def)
  show ?thesis using sel h1(1) h2 r h3 by (simp add: Let_def split: option.split)
qed

theorem attach_detach_witness:
  "let q = \<lparr>pin_arena = Some (sh_arena demo_shared), pin_fixed = True, pin_there = \<lambda>_. True, pin_maps = demo_maps\<rparr>;
       g = \<lparr>find_module = \<lambda>_. None, find_export = \<lambda>_ _. None, find_global = \<lambda>_. Some 77, dl_sym = \<lambda>_. None, can_replace = \<lambda>_. True\<rparr>;
       a1 = bncl_agent_init g (\<lambda>_. Some [65, 10]) None q (\<lambda>_. []) [108] (demo_agent new_conn demo_shared\<lparr>hooked_s := False, hooks_s := []\<rparr>)
   in hooks_s a1 = [77, 77, 77, 77] \<and> on_s a1 \<and> stmts (list_s a1) = [[65]]"
proof -
  let ?q = "\<lparr>pin_arena = Some (sh_arena demo_shared), pin_fixed = True, pin_there = \<lambda>_. True, pin_maps = demo_maps\<rparr>"
  let ?g = "\<lparr>find_module = \<lambda>_. None, find_export = \<lambda>_ _. None, find_global = \<lambda>_. Some 77, dl_sym = \<lambda>_. None, can_replace = \<lambda>_. True\<rparr>"
  let ?a = "demo_agent new_conn demo_shared\<lparr>hooked_s := False, hooks_s := []\<rparr>"
  have d: "[108] \<noteq> DETACH" by (simp add: DETACH_def)
  have o: "openShared ?q (sh ?a) = (True, snd (openShared ?q (sh ?a)))" by (simp add: openShared_def Let_def)
  have h: "hooked_s ?a \<longleftrightarrow> hooks_s ?a \<noteq> []" by simp
  have r: "resolve_symbol ?g n = Some 77" for n by (simp add: resolve_symbol_def)
  show ?thesis using attach_detach [where files = "\<lambda>_. Some [65, 10]" and g = ?g and view = "\<lambda>_. []", OF d demo_list o h] r by (simp add: Let_def List.map_filter_def)
qed

end
