(* ===== verification/Spec2Isabelle.thy ===== *)
theory Spec2Isabelle
  imports Session StmtList ArenaSpec PipeLock Served Life Loop Attach
begin

text \<open>
  A verification library for Barnacle, a transparent cache for MySQL.

  \<^bold>\<open>The program.\<close> A process that talks MySQL over TLS gets an agent injected (\<open>src/src/uclient/inject.cpp\<close>, \<open>src/src/uclient/agent.cpp\<close>) that replaces \<open>SSL_write\<close> and \<open>SSL_read\<close>. The
  agent follows the protocol on each connection (\<open>src/src/common/session.cpp\<close>, \<open>src/src/common/mysql/\<close>). A query on the administrator's list (\<open>src/src/common/stmtlist.cpp\<close>) is suppressed and asked
  about: the agent takes a pipe from a shared free list and splices the connection's socket to it (\<open>src/src/uclient/shared.cpp\<close>), the kernel's two programs carry the request and the reply
  (\<open>src/src/kclient/kclient.bpf.c\<close>), and the daemon answers (\<open>src/src/daemon/main.cpp\<close>) from payloads it keeps in a shared arena (\<open>src/src/daemon/arena.cpp\<close>) or from Valkey
  (\<open>src/src/common/valkey.cpp\<close>). On a hit the agent reads the payload out of the arena, frames it for its connection and hands it to the application; otherwise it sends the query after all, and
  gives the response it then observes to the daemon.

  \<^bold>\<open>Protocol.\<close> \<open>Prelude\<close> names the types and holds the shared facts. \<open>Wire\<close> has the primitive readers and writers, \<open>Framing\<close> \<open>MessageReader\<close>, \<open>encodeMessage\<close> and \<open>renumber\<close>, \<open>Packets\<close> the
  packet bodies, \<open>ResultSet\<close> \<open>parseResultSet\<close> and \<open>encodeResultSet\<close>, \<open>Session\<close> the request and response trackers, \<open>StmtList\<close> the list. The locale \<open>framer\<close> of \<open>Framing\<close> states what a reader of
  a cut stream promises; the trackers' lemmas are proved over it and it is interpreted on \<open>MessageReader\<close>. Shown: round trips of messages and of result sets between any two framings, independence
  of how a stream is cut, exactness of \<open>renumber\<close>, where a response ends and what is known then, which statements a byte stream of requests contains.

  \<^bold>\<open>Arena.\<close> \<open>Memory\<close> is byte-addressed memory, \<open>Arena\<close> the allocator as the code has it, with headers, footers and links in that memory and offsets that wrap at 32 bits. \<open>FreeList\<close>, \<open>ArenaHeap\<close> and
  \<open>ArenaFree\<close> prove the heap invariant: the blocks tile the heap, the list holds exactly the free ones, no two free ones are adjacent. \<open>Allocator\<close> states the contract as the locale
  \<open>allocator\<close>, \<open>Retire\<close> adds the grace period, \<open>HeapView\<close> gives, as the locale \<open>object_heap\<close>, the view of a set of disjoint byte objects on which everything later rests. \<open>ArenaSpec\<close> holds the properties.

  \<^bold>\<open>Shared state.\<close> \<open>Records\<close> has the layout of a statement record, its reference count as an interleaving of compare-and-swap steps, and the kernel maps; \<open>Pool\<close> the daemon's pipes;
  \<open>Shared\<close> the client's operations; \<open>PipeLock\<close> the lock and the free list under any interleaving of clients and the daemon's tick, as an inductive step relation; \<open>Splice\<close> the kernel's programs.

  \<^bold>\<open>Daemon.\<close> \<open>Valkey\<close> is the RESP client over scripted system calls. \<open>Daemon\<close> has the operations of the event loop, from the list to the control commands. \<open>CacheView\<close> abstracts the arena to a map
  from record pointers to record, text and payload (\<open>owns\<close>), \<open>DaemonView\<close>, \<open>Publish\<close> and \<open>Frame\<close> state each operation's effect on that map and what it leaves alone, \<open>DaemonSpec\<close> holds the
  properties. \<open>Startup\<close> has the command line, \<open>start\<close>, \<open>run\<close>, \<open>stop\<close> and \<open>main\<close>, with clients acting arbitrarily on the shared state between the steps of the loop; \<open>Life\<close> shows what a started
  daemon has set up, that it leaves nothing behind, and what becomes of a second one; \<open>Loop\<close> that it keeps serving through any run in which clients do not break the shared state and
  reloaded lists only grow, and that taking a pipe and giving it back do not break it.

  \<^bold>\<open>Agent.\<close> \<open>Agent\<close> has the hooks and everything behind them, attaching and detaching. \<open>AgentRead\<close> and \<open>AgentSpec\<close> show that a query is suppressed only to ask, that a suppressed query is always
  answered or sent, and what is learned from a response. \<open>AgentFrame\<close> states, as the locale \<open>agent_frame\<close>, that what the three client operations keep every sequence of hooks keeps, and
  interprets it on the state that is the daemon's. \<open>Attach\<close> has the injector, and what attaching again and detaching do.

  \<^bold>\<open>Together.\<close> \<open>Cycle\<close> and \<open>Served\<close> put agents, kernel maps and daemon together on one shared state: an agent's step leaves a state for the daemon (\<open>under\<close>), the daemon's for an agent (\<open>seen\<close>). The property of
  this theory follows a response from the connection that observed it to another one that is served it.

  \<^bold>\<open>State, errors and loops.\<close> A class or struct is a record, changed by passing it on; a \<open>uint8_t\<close>, \<open>uint16_t\<close> or \<open>uint32_t\<close> of the protocol is a word; sizes, offsets, times and counts are
  naturals with the wrap-around written out where the code can reach it. An operation that can fail returns an option, a Boolean or a sum. In the allocator and the daemon an outer \<open>None\<close> is
  undefined behaviour or a walk along the arena's links that never ends, which is a partial function; the theorems show that it does not occur on a well-formed heap. A loop over a buffer has a
  termination proof. The spin on the lock has the source's 4096 tries, the wait of a detach its 100 rounds.

  What the operating system, the BPF loader, Frida's Gum and the network answer is an argument: the results of reads and writes, the clock wherever the code reads it, whether a kernel map takes a
  socket, what the pins hold.

  \<^bold>\<open>Not modelled.\<close> The text of log lines and statistics; loading BPF objects and Frida's injection, which are other programs; the bodies of the four \<open>bpf\<close> wrappers of \<open>src/src/uclient/bpfsys.c\<close>,
  which only fill in a system call's argument; the Python command line \<open>src/src/barnacle/barnacle\<close>, the editor shims, the demonstration and the tests. A hook is one step, since it holds the agent's
  lock; the interleavings of several processes are modelled for the pipe lock and the reference counts, where the code relies on atomic operations, and for whole operations in \<open>Cycle\<close>, not for
  the bytes of a payload while it is being replaced.
\<close>

section \<open>Properties\<close>

text \<open>
  C1: a response observed on one connection is served on another. After an agent has posted a result set and the daemon has read the post, the daemon's record of the statement holds it. Any
  agent that then sees the same query on an idle connection whose framing it knows suppresses it and asks; the daemon answers hit from the local tier while the copy is current; and the next
  read on that connection returns bytes that parse, under that connection's own capabilities, to exactly the result set the first agent saw, numbered to continue the query. Nothing goes to the
  server. Capabilities of the two connections, chunking of the requests and the time of each step are arbitrary.
\<close>

theorem cached_response_served:
  assumes rest: "at_rest (sh a) R (ks @ [key])" "pipe_room (sh a) key" "findStmt sql (sh a) = Some p" "R p = Some (st, sql, pay)" "0 < stmt_refs st" "stmt_refs st < 2 ^ 32 - 1"
      "sql \<noteq> []"
    and post: "map_ok t" "store_ok t" and rows: "resultSet_ok rs" "\<not> has_bits (status rs) SERVER_STATUS_IN_TRANS" "length (canonical rs) \<le> BNCL_STORE_MAX"
    and daemon: "map_of (key_of_fd d) fd = Some key" "byKey (d_pool d) key = Some pi" "local_on d" "room (length (canonical rs)) (sh_arena (sh a))"
      "n1 < 2 ^ 64" "n2 < 2 ^ 64" "n3 < 2 ^ 64"
    and input: "concat cs = bncl_req BNCL_REQ_STORE (length (canonical rs)) @ canonical rs" "\<forall>c\<in>set cs. c \<noteq> []" "concat cs' = bncl_req BNCL_REQ_LOOKUP 0" "\<forall>c\<in>set cs'. c \<noteq> []"
    and other: "idle_conn (connFor ssl b)" "caps_known (connFor ssl b)" "intercepts now (ts 0) sql b" "0 < n"
    and time: "current (u32_of_int (o_ttl (opt d))) n2 (t_look (ts 0))" "current (u32_of_int (o_ttl (opt d))) n2 n3" "current (u32_of_int (o_ttl (opt d))) n2 (t_look t')"
  shows "\<exists>d1 r b1 d2 b2. let s0 = sh (publish t sql sock (canonical rs) a); s1 = seen d1 s0;
      resp = encodeResultSet rs (c_caps (connFor ssl b)) (of_nat (length (COM_QUERY # sql) div kMaxPayload) + 1) in
    serve fd (map Got cs) sp n1 n2 (under d s0) = Some d1
    \<and> rep_SSL_write now alive lf ts real ssl sock' (encodeMessage (COM_QUERY # sql) 0) (b\<lparr>sh := s1\<rparr>) = (r, b1)
    \<and> serve fd (map Got cs') True n3 n4 (under d1 (sh b1)) = Some d2 \<and> replies d2 = replies d1 @ [(fd, agent_reply AGENT_OK (stmt_id st))]
    \<and> rep_SSL_read t' now' (Some (0, agent_reply AGENT_OK (stmt_id st))) ts' real' ssl sock' n (b1\<lparr>sh := seen d2 (sh b1)\<rparr>) = (Some (take n resp), b2)
    \<and> parseResultSet resp (c_caps (connFor ssl b)) = Some rs \<and> to_server b2 = to_server b"
proof -
  let ?s = "sh (publish t sql sock (canonical rs) a)" and ?ttl = "u32_of_int (o_ttl (opt d))"
  obtain d1 q where v: "serve fd (map Got cs) sp n1 n2 (under d ?s) = Some d1" "key_of_fd d1 = key_of_fd d" "d_pool d1 = d_pool d" "local_on d1 = local_on d"
    "at_rest (seen d1 ?s) (R(p \<mapsto> (with_payload q (length (canonical rs)) n2 ?ttl st, sql, canonical rs))) (ks @ [key])"
    "pipe_room (seen d1 ?s) key" "findStmt sql (seen d1 ?s) = Some p"
    by (rule post_stored [OF rest post rows daemon(1,4-6) input(1,2)])
  let ?st = "with_payload q (length (canonical rs)) n2 ?ttl st" and ?b = "b\<lparr>sh := seen d1 ?s\<rparr>"
  have idle: "idle_conn (connFor ssl ?b)" "caps_known (connFor ssl ?b)" "intercepts now (ts 0) sql ?b" using other(1-3) by (simp_all add: intercepts_def)
  have sb: "at_rest (sh ?b) (R(p \<mapsto> (?st, sql, canonical rs))) (ks @ [key])" "pipe_room (sh ?b) key" "findStmt sql (sh ?b) = Some p" using v(5-7) by simp_all
  have st: "0 < stmt_refs ?st" "stmt_refs ?st < 2 ^ 32 - 1" "stmt_state ?st = STMT_S_LOCAL" "stmt_data ?st \<noteq> None" "stmt_ttl ?st < 2 ^ 32" "stmt_id ?st = stmt_id st"
    "current (stmt_ttl ?st) (stmt_ts ?st) (t_look (ts 0))" "current (stmt_ttl ?st) (stmt_ts ?st) n3" "current (stmt_ttl ?st) (stmt_ts ?st) (t_look t')"
    using rest(5,6) time u32_bound [of "o_ttl (opt d)"] by simp_all
  have kd: "map_of (key_of_fd d1) fd = Some key" "byKey (d_pool d1) key = Some pi" "local_on d1" using daemon(1-3) v(2-4) by simp_all
  note A = asked_and_served [where ts = ts, OF sb fun_upd_same st(1-5) rows(1) kd daemon(7) input(3,4) idle other(4) st(7-9)]
  show ?thesis
    by (rule A [of alive lf real sock' n4 now' ts' real'])
       (rule exI [of _ d1], use v(1) st(6) in \<open>auto simp: Let_def\<close>)
qed

theorem cached_response_served_witness:
  "\<exists>s0 b1 d1 d2 b2 resp. rep_SSL_read demo_attempt 9 (Some (0, agent_reply AGENT_OK 7)) (\<lambda>_. demo_attempt) None 3 5 10 (b1\<lparr>sh := seen d2 (sh b1)\<rparr>) = (Some (take 10 resp), b2)
     \<and> serve 9 [Got (bncl_req BNCL_REQ_LOOKUP 0)] True 9 9 (under d1 (sh b1)) = Some d2
     \<and> serve 9 [Got (bncl_req BNCL_REQ_STORE (length (canonical demoResult)) @ canonical demoResult)] True 5 5 s0 = Some d1
     \<and> parseResultSet resp CLIENT_DEPRECATE_EOF = Some demoResult \<and> to_server b2 = []"
proof -
  obtain b p p' st st' where R: "at_rest (demo_state p p' b) [p \<mapsto> (st, [65], []), p' \<mapsto> (st', [66], [])] ([0] @ [1])" "pipe_room (demo_state p p' b) 1"
    "findStmt [65] (demo_state p p' b) = Some p" "p \<noteq> p'" "stmt_refs st = 1" "stmt_id st = 7" "room (length (canonical demoResult)) (sh_arena (demo_state p p' b))"
    by (rule demo_state_at_rest)
  let ?a = "demo_agent new_conn (demo_state p p' b)" and ?d = "demo_serving p b" and ?R = "[p \<mapsto> (st, [65], []), p' \<mapsto> (st', [66], [] :: bytes)]"
  let ?c = "new_conn\<lparr>c_started := True, caps_known := True, c_caps := CLIENT_DEPRECATE_EOF, c_req := request_begin new_request BASE_CAPS\<rparr>"
  let ?b = "demo_agent ?c demo_shared"
  have sh: "sh ?a = demo_state p p' b" by (simp add: demo_agent_def)
  have R': "at_rest (sh ?a) ?R ([0] @ [1])" "pipe_room (sh ?a) 1" "findStmt [65] (sh ?a) = Some p" unfolding sh by (rule R(1-3))+
  have e: "?R p = Some (st, [65], [])" using R(4) by simp
  have conn: "idle_conn (connFor 3 ?b)" "caps_known (connFor 3 ?b)" "c_caps (connFor 3 ?b) = CLIENT_DEPRECATE_EOF" "to_server ?b = []"
    by (simp_all add: idle_conn_def new_conn_def request_begin_def new_request_def framing_simps) (simp add: demo_agent_def)
  have int: "intercepts 7 ((\<lambda>_. demo_attempt) 0) [65] ?b"
    by (simp add: intercepts_def demo_agent_def demo_attempt_def contains_def askLookup_def post_def)
  have "\<exists>d1 r b1 d2 b2. let s0 = sh (publish demo_attempt [65] 4 (canonical demoResult) ?a); s1 = seen d1 s0;
      resp = encodeResultSet demoResult (c_caps (connFor 3 ?b)) (of_nat (length (COM_QUERY # [65]) div kMaxPayload) + 1) in
    serve 9 (map Got [bncl_req BNCL_REQ_STORE (length (canonical demoResult)) @ canonical demoResult]) True 5 5 (under ?d s0) = Some d1
    \<and> rep_SSL_write 7 True None (\<lambda>_. demo_attempt) 3 3 5 (encodeMessage (COM_QUERY # [65]) 0) (?b\<lparr>sh := s1\<rparr>) = (r, b1)
    \<and> serve 9 (map Got [bncl_req BNCL_REQ_LOOKUP 0]) True 9 9 (under d1 (sh b1)) = Some d2 \<and> replies d2 = replies d1 @ [(9, agent_reply AGENT_OK (stmt_id st))]
    \<and> rep_SSL_read demo_attempt 9 (Some (0, agent_reply AGENT_OK (stmt_id st))) (\<lambda>_. demo_attempt) None 3 5 10 (b1\<lparr>sh := seen d2 (sh b1)\<rparr>) = (Some (take 10 resp), b2)
    \<and> parseResultSet resp (c_caps (connFor 3 ?b)) = Some demoResult \<and> to_server b2 = to_server ?b"
    by (rule cached_response_served [where ts = "\<lambda>_. demo_attempt", OF R' e _ _ _ _ _ demoResult_ok demo_quiet _ _ _ _ _ _ _ _ _ _ _ _ conn(1,2) int])
       (use R(5,7) demo_length in \<open>simp_all add: sh demo_serving_def demo_daemon_def demo_attempt_def BNCL_STORE_MAX_def current_def u32_of_int_def NS_PER_S_def byKey_def bncl_req_def le_bytes_def\<close>)
  then show ?thesis unfolding Let_def conn(3,4) R(6) list.map by blast
qed

end
